(* ===== verification/Prelude.thy ===== *)
theory Prelude
  imports Main "HOL-Library.Word"
begin

text \<open>
  Shared vocabulary of the development: bytes and byte strings, results that may be an
  exception, Python slices, big-endian integers as \<open>struct\<close> and \<open>int.from_bytes\<close> read
  and write them, and the generic lemmas the component theories use.

  A Python \<open>bytes\<close>, \<open>bytearray\<close> or \<open>memoryview\<close> of bytes is a list of 8-bit words; a call
  that may raise is a value of a sum type, \<open>Inl\<close> carrying the exception.
\<close>

type_synonym byte = "8 word"
type_synonym bytes = "byte list"

named_theorems codec_simps \<open>lengths and inverses of the byte codecs\<close>

subsection \<open>Results: sequencing calls that may raise\<close>

definition rbind :: "'e + 'a \<Rightarrow> ('a \<Rightarrow> 'e + 'b) \<Rightarrow> 'e + 'b" where
  "rbind r f = (case r of Inl e \<Rightarrow> Inl e | Inr x \<Rightarrow> f x)"

lemma rbind_simps [simp]:
  "rbind (Inl e) f = Inl e"
  "rbind (Inr x) f = f x"
  by (simp_all add: rbind_def)

lemma rbind_eq_Inr: "rbind r f = Inr y \<longleftrightarrow> (\<exists>x. r = Inr x \<and> f x = Inr y)"
  by (cases r) auto

lemma rbind_assoc: "rbind (rbind r f) g = rbind r (\<lambda>x. rbind (f x) g)"
  by (cases r) auto

lemma rbind_cong [fundef_cong]:
  "r = r' \<Longrightarrow> (\<And>x. r' = Inr x \<Longrightarrow> f x = g x) \<Longrightarrow> rbind r f = rbind r' g"
  by (cases r') auto

primrec rmap :: "('a \<Rightarrow> 'e + 'b) \<Rightarrow> 'a list \<Rightarrow> 'e + 'b list" where
  "rmap f [] = Inr []"
| "rmap f (x # xs) = rbind (f x) (\<lambda>y. rbind (rmap f xs) (\<lambda>ys. Inr (y # ys)))"

lemma rmap_length: "rmap f xs = Inr ys \<Longrightarrow> length ys = length xs"
  by (induction xs arbitrary: ys) (auto simp: rbind_eq_Inr)

lemma rmap_Inr_iff:
  "rmap f xs = Inr ys \<longleftrightarrow> length ys = length xs \<and> (\<forall>i < length xs. f (xs ! i) = Inr (ys ! i))"
proof (induction xs arbitrary: ys)
  case Nil
  show ?case by auto
next
  case (Cons x xs)
  show ?case
    by (cases ys) (auto simp: rbind_eq_Inr Cons.IH nth_Cons split: nat.splits)
qed

subsection \<open>Python slices\<close>

text \<open>
  \<open>xs[:n]\<close> and \<open>xs[n:]\<close> for any integer \<open>n\<close>: a negative bound counts from the end, and
  a bound past either end is clipped.
\<close>

definition py_take :: "int \<Rightarrow> 'a list \<Rightarrow> 'a list" where
  "py_take n xs = (if 0 \<le> n then take (nat n) xs else take (length xs - nat (- n)) xs)"

definition py_drop :: "int \<Rightarrow> 'a list \<Rightarrow> 'a list" where
  "py_drop n xs = (if 0 \<le> n then drop (nat n) xs else drop (length xs - nat (- n)) xs)"

lemma py_take_drop [simp]: "py_take n xs @ py_drop n xs = xs"
  by (simp add: py_take_def py_drop_def)

lemma py_take_nat [simp]: "py_take (int n) xs = take n xs"
  by (simp add: py_take_def)

lemma py_drop_nat [simp]: "py_drop (int n) xs = drop n xs"
  by (simp add: py_drop_def)

lemma length_py_drop_le: "length (py_drop n xs) \<le> length xs"
  by (simp add: py_drop_def)

lemma py_take_append: "0 \<le> n \<Longrightarrow> n \<le> int (length xs) \<Longrightarrow> py_take n (xs @ ys) = py_take n xs"
  by (simp add: py_take_def)

lemma py_drop_append: "0 \<le> n \<Longrightarrow> n \<le> int (length xs) \<Longrightarrow> py_drop n (xs @ ys) = py_drop n xs @ ys"
  by (simp add: py_drop_def)

subsection \<open>Big-endian integers\<close>

text \<open>
  \<open>be_enc n v\<close> is the \<open>n\<close>-byte big-endian form of \<open>v\<close> (its low \<open>8 * n\<close> bits);
  \<open>be_dec\<close> is \<open>int.from_bytes(bs, "big")\<close>, \<open>be_sdec\<close> its two's complement reading.
\<close>

primrec be_enc :: "nat \<Rightarrow> nat \<Rightarrow> bytes" where
  "be_enc 0 v = []"
| "be_enc (Suc n) v = be_enc n (v div 256) @ [word_of_nat v]"

definition be_dec :: "bytes \<Rightarrow> nat" where
  "be_dec bs = foldl (\<lambda>a b. a * 256 + unat b) 0 bs"

definition be_sdec :: "bytes \<Rightarrow> int" where
  "be_sdec bs =
     (let v = int (be_dec bs); m = 256 ^ length bs
      in if 2 * v < m then v else v - m)"

lemma length_be_enc [simp]: "length (be_enc n v) = n"
  by (induction n arbitrary: v) auto

lemma be_dec_Nil [simp]: "be_dec [] = 0"
  by (simp add: be_dec_def)

lemma be_dec_snoc [simp]: "be_dec (bs @ [b]) = be_dec bs * 256 + unat b"
  by (simp add: be_dec_def)

lemma unat_byte: "unat (b :: byte) < 256"
  by (rule order_less_le_trans [OF unsigned_less]) simp

lemma unat_byte_of_nat: "unat (word_of_nat v :: byte) = v mod 256"
  by (simp add: unat_of_nat)

lemma be_dec_enc_mod: "be_dec (be_enc n v) = v mod 256 ^ n"
proof (induction n arbitrary: v)
  case 0
  show ?case by simp
next
  case (Suc n)
  show ?case
    by (simp add: Suc.IH unat_byte_of_nat mult.commute [of 256] flip: mod_mult2_eq)
       (metis mod_mult2_eq mult.commute add.commute)
qed

lemma be_dec_enc: "v < 256 ^ n \<Longrightarrow> be_dec (be_enc n v) = v"
  by (simp add: be_dec_enc_mod)

lemma be_dec_bound: "be_dec bs < 256 ^ length bs"
proof (induction bs rule: rev_induct)
  case Nil
  show ?case by simp
next
  case (snoc b bs)
  show ?case using snoc.IH unat_byte [of b] by simp
qed

text \<open>The same value over the integers, which is how it is evaluated.\<close>

definition be_int :: "bytes \<Rightarrow> int" where
  "be_int bs = foldl (\<lambda>a b. a * 256 + uint b) 0 bs"

lemma int_be_dec [code_unfold]: "int (be_dec bs) = be_int bs"
proof (induction bs rule: rev_induct)
  case Nil
  show ?case by (simp add: be_int_def)
next
  case (snoc b bs)
  then show ?case by (simp add: be_int_def)
qed

lemma be_enc_dec: "be_enc (length bs) (be_dec bs) = bs"
proof (induction bs rule: rev_induct)
  case Nil
  show ?case by simp
next
  case (snoc b bs)
  have lt: "unat b < 256" by (rule unat_byte)
  have "(word_of_nat (be_dec bs * 256 + unat b) :: byte) = b"
    by (rule word_unat_eq_iff [THEN iffD2]) (use lt in \<open>simp only: unat_byte_of_nat, simp\<close>)
  then show ?case using snoc.IH lt by simp
qed

lemma be_sdec_range: "- (256 ^ length bs) \<le> 2 * be_sdec bs \<and> 2 * be_sdec bs < 256 ^ length bs"
proof -
  define v where "v = int (be_dec bs)"
  define m where "m = (256 :: int) ^ length bs"
  have "v < m" "0 \<le> v"
    using be_dec_bound [of bs] unfolding v_def m_def
    by (metis of_nat_less_iff of_nat_numeral of_nat_power) simp
  then show ?thesis unfolding be_sdec_def Let_def v_def [symmetric] m_def [symmetric] by auto
qed

lemma be_sdec_enc:
  assumes "- (256 ^ n) \<le> 2 * v" and "2 * v < 256 ^ n"
  shows "be_sdec (be_enc n (nat (v mod 256 ^ n))) = v"
proof -
  let ?m = "256 ^ n :: int"
  have pos: "0 < ?m" by simp
  have "nat (v mod ?m) < 256 ^ n"
    using pos by (simp add: nat_less_iff)
  then have dec: "int (be_dec (be_enc n (nat (v mod ?m)))) = v mod ?m"
    by (simp add: be_dec_enc)
  show ?thesis
  proof (cases "0 \<le> v")
    case True
    then have "v mod ?m = v" using assms by (intro mod_pos_pos_trivial) auto
    then show ?thesis using assms dec unfolding be_sdec_def Let_def by simp
  next
    case False
    have "v mod ?m = (v + ?m) mod ?m" by simp
    also have "\<dots> = v + ?m" using False assms by (intro mod_pos_pos_trivial) auto
    finally show ?thesis using assms dec unfolding be_sdec_def Let_def by simp
  qed
qed

lemmas be_codec [codec_simps] = length_be_enc be_dec_enc be_enc_dec be_sdec_enc

subsection \<open>Ordered dictionaries\<close>

text \<open>
  A \<open>dict\<close> whose iteration order matters is an association list without repeated keys:
  assigning an existing key keeps its place, a new key goes to the end.
\<close>

fun dict_set :: "'k \<Rightarrow> 'v \<Rightarrow> ('k \<times> 'v) list \<Rightarrow> ('k \<times> 'v) list" where
  "dict_set k v [] = [(k, v)]"
| "dict_set k v ((k', v') # d) = (if k = k' then (k, v) # d else (k', v') # dict_set k v d)"

definition dict_pop :: "'k \<Rightarrow> ('k \<times> 'v) list \<Rightarrow> ('k \<times> 'v) list" where
  "dict_pop k d = filter (\<lambda>e. fst e \<noteq> k) d"

definition dict_keys :: "('k \<times> 'v) list \<Rightarrow> 'k set" where
  "dict_keys d = fst ` set d"

lemma dict_keys_Cons [simp]: "dict_keys (e # d) = insert (fst e) (dict_keys d)"
  by (simp add: dict_keys_def)

lemma dict_keys_set [simp]: "dict_keys (dict_set k v d) = insert k (dict_keys d)"
  by (induction k v d rule: dict_set.induct) (auto simp: dict_keys_def)

lemma dict_keys_pop [simp]: "dict_keys (dict_pop k d) = dict_keys d - {k}"
  by (auto simp: dict_keys_def dict_pop_def)

lemma dict_keys_Nil [simp]: "dict_keys [] = {}"
  by (simp add: dict_keys_def)

lemma map_of_dict_set: "map_of (dict_set k v d) = (map_of d)(k \<mapsto> v)"
  by (induction k v d rule: dict_set.induct) auto

lemma map_of_dict_pop: "map_of (dict_pop k d) = (map_of d)(k := None)"
  by (induction d) (auto simp: dict_pop_def fun_eq_iff)

lemma map_of_eq_None_keys: "map_of d k = None \<longleftrightarrow> k \<notin> dict_keys d"
  by (simp add: map_of_eq_None_iff dict_keys_def)

lemma map_of_Some_keys: "map_of d k = Some v \<Longrightarrow> k \<in> dict_keys d"
  by (metis map_of_eq_None_keys option.distinct(1))

lemma distinct_dict_set: "distinct (map fst d) \<Longrightarrow> distinct (map fst (dict_set k v d))"
proof (induction k v d rule: dict_set.induct)
  case (1 k v)
  show ?case by simp
next
  case (2 k v k' v' d)
  have "fst ` set (dict_set k v d) = insert k (fst ` set d)"
    using dict_keys_set [of k v d] unfolding dict_keys_def .
  with "2" show ?case by simp
qed

lemma distinct_dict_pop: "distinct (map fst d) \<Longrightarrow> distinct (map fst (dict_pop k d))"
  by (simp add: dict_pop_def distinct_map_filter)

lemmas dict_simps = map_of_dict_set map_of_dict_pop map_of_eq_None_keys

end
