(* ===== verification/Py_Text.thy ===== *)
theory Py_Text
  imports Prelude
begin

text \<open>
  The parts of Python's \<open>str\<close> the protocol code uses. A string is the list of its code
  points. UTF-8 encoding is strict (a surrogate raises), decoding is the
  \<open>decode("utf-8", "replace")\<close> of the response parsers: every maximal ill-formed prefix
  becomes one U+FFFD. Whitespace is the set \<open>str.split\<close> and \<open>str.strip\<close> use;
  \<open>lower\<close> and the digits of \<open>int\<close> and \<open>isdigit\<close> are those of ASCII, the only ones the
  protocol's grammar has.
\<close>

type_synonym pystr = "nat list"

definition str :: "string \<Rightarrow> pystr" where
  "str s = map of_char s"

lemma str_code [simp]: "str [] = []" "str (c # s) = of_char c # str s"
  by (simp_all add: str_def)

subsection \<open>Splitting and joining\<close>

fun split_on :: "'a \<Rightarrow> 'a list \<Rightarrow> 'a list list" where
  "split_on c [] = [[]]"
| "split_on c (x # xs) =
     (if x = c then [] # split_on c xs
      else (case split_on c xs of [] \<Rightarrow> [[x]] | y # ys \<Rightarrow> (x # y) # ys))"

fun join :: "'a list \<Rightarrow> 'a list list \<Rightarrow> 'a list" where
  "join sep [] = []"
| "join sep [x] = x"
| "join sep (x # y # zs) = x @ sep @ join sep (y # zs)"

definition partition_at :: "'a \<Rightarrow> 'a list \<Rightarrow> 'a list \<times> bool \<times> 'a list" where
  "partition_at c xs =
     (takeWhile (\<lambda>x. x \<noteq> c) xs, c \<in> set xs, drop 1 (dropWhile (\<lambda>x. x \<noteq> c) xs))"

definition rpartition_at :: "'a \<Rightarrow> 'a list \<Rightarrow> 'a list \<times> bool \<times> 'a list" where
  "rpartition_at c xs =
     (if c \<in> set xs
      then (rev (drop 1 (dropWhile (\<lambda>x. x \<noteq> c) (rev xs))), True,
            rev (takeWhile (\<lambda>x. x \<noteq> c) (rev xs)))
      else ([], False, xs))"

fun partition_sub :: "'a list \<Rightarrow> 'a list \<Rightarrow> 'a list \<times> bool \<times> 'a list" where
  "partition_sub sep [] = ([], False, [])"
| "partition_sub sep (x # xs) =
     (if take (length sep) (x # xs) = sep then ([], True, drop (length sep) (x # xs))
      else (case partition_sub sep xs of (a, f, b) \<Rightarrow> (x # a, f, b)))"

definition strip_by :: "('a \<Rightarrow> bool) \<Rightarrow> 'a list \<Rightarrow> 'a list" where
  "strip_by p xs = rev (dropWhile p (rev (dropWhile p xs)))"

definition rstrip_by :: "('a \<Rightarrow> bool) \<Rightarrow> 'a list \<Rightarrow> 'a list" where
  "rstrip_by p xs = rev (dropWhile p (rev xs))"

lemma split_on_nonempty [simp]: "split_on c xs \<noteq> []"
  by (induction xs) (auto split: list.splits)

lemma join_Cons: "xs \<noteq> [] \<Longrightarrow> join sep (x # xs) = x @ sep @ join sep xs"
  by (cases xs) auto

lemma join_split_on: "join [c] (split_on c xs) = xs"
proof (induction xs)
  case Nil
  show ?case by simp
next
  case (Cons x xs)
  show ?case
  proof (cases "x = c")
    case True
    with Cons.IH show ?thesis by (simp add: join_Cons)
  next
    case False
    obtain y ys where s: "split_on c xs = y # ys"
      by (cases "split_on c xs") auto
    then show ?thesis using False Cons.IH by (cases ys) auto
  qed
qed

lemma split_on_absent: "c \<notin> set xs \<Longrightarrow> split_on c xs = [xs]"
  by (induction xs) auto

lemma split_on_append:
  "c \<notin> set xs \<Longrightarrow> split_on c (xs @ c # ys) = xs # split_on c ys"
  by (induction xs) auto

lemma split_on_join:
  "xss \<noteq> [] \<Longrightarrow> (\<And>xs. xs \<in> set xss \<Longrightarrow> c \<notin> set xs) \<Longrightarrow> split_on c (join [c] xss) = xss"
proof (induction xss)
  case Nil
  then show ?case by simp
next
  case (Cons xs xss)
  show ?case
  proof (cases "xss = []")
    case True
    with Cons.prems show ?thesis by (simp add: split_on_absent)
  next
    case False
    then have "split_on c (join [c] xss) = xss" using Cons by simp
    with False Cons.prems show ?thesis
      by (simp add: join_Cons split_on_append)
  qed
qed

lemma split_on_elems: "xs \<in> set (split_on c ys) \<Longrightarrow> c \<notin> set xs"
  by (induction ys arbitrary: xs) (auto split: if_splits list.splits)

lemma partition_at_absent: "c \<notin> set xs \<Longrightarrow> partition_at c xs = (xs, False, [])"
  by (induction xs) (auto simp: partition_at_def)

lemma partition_at_append:
  "c \<notin> set xs \<Longrightarrow> partition_at c (xs @ c # ys) = (xs, True, ys)"
  by (induction xs) (auto simp: partition_at_def)

lemma partition_at_cases:
  obtains "c \<notin> set xs" "partition_at c xs = (xs, False, [])"
  | us vs where "xs = us @ c # vs" "c \<notin> set us" "partition_at c xs = (us, True, vs)"
proof (cases "c \<in> set xs")
  case True
  then obtain us vs where "xs = us @ c # vs" "c \<notin> set us"
    by (meson split_list_first)
  then show ?thesis using that(2) partition_at_append by metis
next
  case False
  then show ?thesis using that(1) partition_at_absent by metis
qed

subsection \<open>Whitespace, numbers, case\<close>

definition is_ws :: "nat \<Rightarrow> bool" where
  "is_ws c \<longleftrightarrow>
     (9 \<le> c \<and> c \<le> 13) \<or> (28 \<le> c \<and> c \<le> 32) \<or> c = 133 \<or> c = 160 \<or> c = 5760 \<or>
     (8192 \<le> c \<and> c \<le> 8202) \<or> c = 8232 \<or> c = 8233 \<or> c = 8239 \<or> c = 8287 \<or> c = 12288"

definition strip :: "pystr \<Rightarrow> pystr" where
  "strip = strip_by is_ws"

fun split_ws_aux :: "pystr \<Rightarrow> pystr \<Rightarrow> pystr list" where
  "split_ws_aux acc [] = (if acc = [] then [] else [rev acc])"
| "split_ws_aux acc (c # cs) =
     (if is_ws c then (if acc = [] then split_ws_aux [] cs else rev acc # split_ws_aux [] cs)
      else split_ws_aux (c # acc) cs)"

definition split_ws :: "pystr \<Rightarrow> pystr list" where
  "split_ws = split_ws_aux []"

definition is_digit :: "nat \<Rightarrow> bool" where
  "is_digit c \<longleftrightarrow> 48 \<le> c \<and> c \<le> 57"

definition isdigit :: "pystr \<Rightarrow> bool" where
  "isdigit s \<longleftrightarrow> s \<noteq> [] \<and> list_all is_digit s"

text \<open>
  \<open>int(s)\<close>: surrounding whitespace, one optional sign, decimal digits with single
  underscores between them, at most 4300 digits; \<open>None\<close> is the \<open>ValueError\<close>.
\<close>

fun dec_digits :: "pystr \<Rightarrow> pystr option" where
  "dec_digits [] = None"
| "dec_digits [c] = (if is_digit c then Some [c] else None)"
| "dec_digits (c # d # s) =
     (if is_digit c then map_option (Cons c) (dec_digits (if d = 95 then s else d # s)) else None)"

definition dec_value :: "pystr \<Rightarrow> nat" where
  "dec_value ds = foldl (\<lambda>a c. a * 10 + (c - 48)) 0 ds"

definition unsigned_int :: "pystr \<Rightarrow> nat option" where
  "unsigned_int s =
     (case dec_digits s of None \<Rightarrow> None
      | Some ds \<Rightarrow> if length ds \<le> 4300 then Some (dec_value ds) else None)"

definition py_int :: "pystr \<Rightarrow> int option" where
  "py_int s =
     (case strip s of [] \<Rightarrow> None
      | c # cs \<Rightarrow>
         if c = 45 then map_option (\<lambda>n. - int n) (unsigned_int cs)
         else if c = 43 then map_option int (unsigned_int cs)
         else map_option int (unsigned_int (c # cs)))"

text \<open>\<open>str(n)\<close> of an integer, as f-strings render it.\<close>

fun show_nat :: "nat \<Rightarrow> pystr" where
  "show_nat n = (if n < 10 then [48 + n] else show_nat (n div 10) @ [48 + n mod 10])"

declare show_nat.simps [simp del]

definition show_int :: "int \<Rightarrow> pystr" where
  "show_int v = (if v < 0 then 45 # show_nat (nat (- v)) else show_nat (nat v))"

definition lower :: "pystr \<Rightarrow> pystr" where
  "lower s = map (\<lambda>c. if 65 \<le> c \<and> c \<le> 90 then c + 32 else c) s"

lemma lower_idem [simp]: "lower (lower s) = lower s"
  by (auto simp: lower_def)

lemma split_ws_aux_no_ws:
  "list_all (\<lambda>c. \<not> is_ws c) acc \<Longrightarrow>
   list_all (\<lambda>t. t \<noteq> [] \<and> list_all (\<lambda>c. \<not> is_ws c) t) (split_ws_aux acc cs)"
  by (induction acc cs rule: split_ws_aux.induct) simp_all

lemma split_ws_no_ws: "t \<in> set (split_ws s) \<Longrightarrow> t \<noteq> [] \<and> list_all (\<lambda>c. \<not> is_ws c) t"
  using split_ws_aux_no_ws [of "[]" s] by (simp add: split_ws_def list_all_iff)

lemma split_ws_aux_word:
  "list_all (\<lambda>c. \<not> is_ws c) w \<Longrightarrow> split_ws_aux acc (w @ s) = split_ws_aux (rev w @ acc) s"
  by (induction w arbitrary: acc) auto

lemma split_ws_join:
  assumes "\<And>w. w \<in> set ws \<Longrightarrow> w \<noteq> [] \<and> list_all (\<lambda>c. \<not> is_ws c) w"
  shows "split_ws (join [32] ws) = ws"
  using assms
proof (induction ws)
  case Nil
  show ?case by (simp add: split_ws_def)
next
  case (Cons w ws)
  have w: "w \<noteq> []" "list_all (\<lambda>c. \<not> is_ws c) w" using Cons.prems by auto
  show ?case
  proof (cases "ws = []")
    case True
    then show ?thesis using w split_ws_aux_word [of w "[]" "[]"] by (simp add: split_ws_def)
  next
    case False
    have "split_ws_aux [] (w @ 32 # join [32] ws) = w # split_ws_aux [] (join [32] ws)"
      using w by (simp add: split_ws_aux_word is_ws_def)
    with False Cons show ?thesis by (simp add: join_Cons split_ws_def)
  qed
qed

lemma show_nat_digits: "show_nat n \<noteq> [] \<and> list_all is_digit (show_nat n)"
proof (induction n rule: show_nat.induct)
  case (1 n)
  show ?case
  proof (cases "n < 10")
    case True
    then show ?thesis by (simp add: show_nat.simps [of n] is_digit_def)
  next
    case False
    have "is_digit (48 + n mod 10)" by (simp add: is_digit_def)
    with False "1" show ?thesis by (simp add: show_nat.simps [of n])
  qed
qed

lemma dec_digits_all: "ds \<noteq> [] \<Longrightarrow> list_all is_digit ds \<Longrightarrow> dec_digits ds = Some ds"
  by (induction ds rule: dec_digits.induct) (auto simp: is_digit_def)

lemma dec_value_snoc: "dec_value (ds @ [c]) = dec_value ds * 10 + (c - 48)"
  by (simp add: dec_value_def)

lemma dec_value_show: "dec_value (show_nat n) = n"
proof (induction n rule: show_nat.induct)
  case (1 n)
  show ?case
  proof (cases "n < 10")
    case True
    then show ?thesis by (subst show_nat.simps) (simp add: dec_value_def)
  next
    case False
    with "1" have "dec_value (show_nat (n div 10)) = n div 10" by simp
    with False show ?thesis by (subst show_nat.simps) (simp add: dec_value_snoc)
  qed
qed

lemma digit_not_ws: "is_digit c \<Longrightarrow> \<not> is_ws c"
  by (auto simp: is_digit_def is_ws_def)

lemma strip_no_ws: "list_all (\<lambda>c. \<not> is_ws c) s \<Longrightarrow> strip s = s"
proof -
  assume "list_all (\<lambda>c. \<not> is_ws c) s"
  then have "dropWhile is_ws s = s" "dropWhile is_ws (rev s) = rev s"
    by (auto simp: dropWhile_eq_self_iff list_all_iff hd_rev)
  then show ?thesis by (simp add: strip_def strip_by_def)
qed

lemma py_int_show_nat:
  assumes "length (show_nat n) \<le> 4300"
  shows "py_int (show_nat n) = Some (int n)"
proof -
  have d: "show_nat n \<noteq> []" "list_all is_digit (show_nat n)" using show_nat_digits by auto
  then have "strip (show_nat n) = show_nat n"
    by (intro strip_no_ws) (auto simp: list_all_iff digit_not_ws)
  moreover have "unsigned_int (show_nat n) = Some n"
    using assms d by (simp add: unsigned_int_def dec_digits_all dec_value_show)
  moreover obtain c cs where "show_nat n = c # cs" "is_digit c"
    using d by (cases "show_nat n") auto
  ultimately show ?thesis by (auto simp: py_int_def is_digit_def)
qed

end
