(* ===== verification/Utf8.thy ===== *)
theory Utf8
  imports Py_Text
begin

text \<open>
  UTF-8 as Python's codec does it: \<open>str.encode("utf-8")\<close> refuses a surrogate,
  \<open>bytes.decode("utf-8", "replace")\<close> never fails. The main lemma is that decoding an
  encoded string gives the string back, so a path or a name survives the wire.
\<close>

definition surrogate :: "nat \<Rightarrow> bool" where
  "surrogate c \<longleftrightarrow> 55296 \<le> c \<and> c \<le> 57343"

definition scalar :: "nat \<Rightarrow> bool" where
  "scalar c \<longleftrightarrow> c < 1114112 \<and> \<not> surrogate c"

definition utf8_char :: "nat \<Rightarrow> nat list" where
  "utf8_char c =
     (if c < 128 then [c]
      else if c < 2048 then [192 + c div 64, 128 + c mod 64]
      else if c < 65536 then [224 + c div 4096, 128 + c div 64 mod 64, 128 + c mod 64]
      else [240 + c div 262144, 128 + c div 4096 mod 64, 128 + c div 64 mod 64, 128 + c mod 64])"

text \<open>\<open>None\<close> is the \<open>UnicodeEncodeError\<close> of a string with a surrogate in it.\<close>

definition utf8_encode :: "pystr \<Rightarrow> bytes option" where
  "utf8_encode s =
     (if list_ex surrogate s then None else Some (map word_of_nat (concat (map utf8_char s))))"

definition cont :: "nat \<Rightarrow> bool" where
  "cont b \<longleftrightarrow> 128 \<le> b \<and> b \<le> 191"

text \<open>The second byte a three- or four-byte lead may have: no overlong form, no surrogate,
  nothing past U+10FFFF.\<close>

definition second3 :: "nat \<Rightarrow> nat \<Rightarrow> bool" where
  "second3 b c \<longleftrightarrow>
     (if b = 224 then 160 \<le> c \<and> c \<le> 191 else if b = 237 then 128 \<le> c \<and> c \<le> 159 else cont c)"

definition second4 :: "nat \<Rightarrow> nat \<Rightarrow> bool" where
  "second4 b c \<longleftrightarrow>
     (if b = 240 then 144 \<le> c \<and> c \<le> 191 else if b = 244 then 128 \<le> c \<and> c \<le> 143 else cont c)"

fun utf8_dec :: "nat list \<Rightarrow> pystr" where
  "utf8_dec [] = []"
| "utf8_dec (b # bs) =
     (if b < 128 then b # utf8_dec bs
      else if 194 \<le> b \<and> b \<le> 223 then
        (case bs of
           c # cs \<Rightarrow> if cont c then ((b - 192) * 64 + (c - 128)) # utf8_dec cs else 65533 # utf8_dec bs
         | [] \<Rightarrow> [65533])
      else if 224 \<le> b \<and> b \<le> 239 then
        (case bs of
           c # cs \<Rightarrow>
             if second3 b c then
               (case cs of
                  d # ds \<Rightarrow>
                    if cont d
                    then ((b - 224) * 4096 + (c - 128) * 64 + (d - 128)) # utf8_dec ds
                    else 65533 # utf8_dec cs
                | [] \<Rightarrow> [65533])
             else 65533 # utf8_dec bs
         | [] \<Rightarrow> [65533])
      else if 240 \<le> b \<and> b \<le> 244 then
        (case bs of
           c # cs \<Rightarrow>
             if second4 b c then
               (case cs of
                  d # ds \<Rightarrow>
                    if cont d then
                      (case ds of
                         e # es \<Rightarrow>
                           if cont e
                           then ((b - 240) * 262144 + (c - 128) * 4096 + (d - 128) * 64 + (e - 128))
                                  # utf8_dec es
                           else 65533 # utf8_dec ds
                       | [] \<Rightarrow> [65533])
                    else 65533 # utf8_dec cs
                | [] \<Rightarrow> [65533])
             else 65533 # utf8_dec bs
         | [] \<Rightarrow> [65533])
      else 65533 # utf8_dec bs)"

definition utf8_decode :: "bytes \<Rightarrow> pystr" where
  "utf8_decode bs = utf8_dec (map unat bs)"

lemma utf8_char_bytes: "c < 1114112 \<Longrightarrow> b \<in> set (utf8_char c) \<Longrightarrow> b < 256"
  by (auto simp: utf8_char_def split: if_splits)

lemma base64_digits:
  fixes c :: nat
  shows "c = c div 64 * 64 + c mod 64"
    and "c = c div 4096 * 4096 + c div 64 mod 64 * 64 + c mod 64"
    and "c = c div 262144 * 262144 + c div 4096 mod 64 * 4096 + c div 64 mod 64 * 64 + c mod 64"
proof -
  show one: "c = c div 64 * 64 + c mod 64" by simp
  have "c div 4096 = c div 64 div 64" by (simp flip: div_mult2_eq)
  moreover have "c div 64 = c div 64 div 64 * 64 + c div 64 mod 64" by simp
  ultimately show two: "c = c div 4096 * 4096 + c div 64 mod 64 * 64 + c mod 64"
    using one by linarith
  have "c div 262144 = c div 4096 div 64" by (simp flip: div_mult2_eq)
  moreover have "c div 4096 = c div 4096 div 64 * 64 + c div 4096 mod 64" by simp
  ultimately show "c = c div 262144 * 262144 + c div 4096 mod 64 * 4096 + c div 64 mod 64 * 64 + c mod 64"
    using two by linarith
qed

lemma utf8_dec_char:
  assumes "scalar c"
  shows "utf8_dec (utf8_char c @ bs) = c # utf8_dec bs"
proof -
  consider "c < 128" | "128 \<le> c" "c < 2048" | "2048 \<le> c" "c < 65536" | "65536 \<le> c" "c < 1114112"
    using assms by (auto simp: scalar_def) linarith
  then show ?thesis
  proof cases
    case 1
    then show ?thesis by (simp add: utf8_char_def)
  next
    case 2
    define x where "x = c div 64"
    define y where "y = c mod 64"
    have c: "c = x * 64 + y" unfolding x_def y_def by (rule base64_digits)
    have b: "2 \<le> x" "x < 32" "y < 64" using 2 unfolding x_def y_def by auto
    have u: "utf8_char c = [192 + x, 128 + y]" using 2 by (simp add: utf8_char_def x_def y_def)
    have "utf8_dec ([192 + x, 128 + y] @ bs) = (x * 64 + y) # utf8_dec bs"
      using b by (simp add: cont_def)
    then show ?thesis unfolding u c [symmetric] .
  next
    case 3
    define x where "x = c div 4096"
    define y where "y = c div 64 mod 64"
    define z where "z = c mod 64"
    have c: "c = x * 4096 + y * 64 + z" unfolding x_def y_def z_def by (rule base64_digits)
    have b: "x < 16" "y < 64" "z < 64" using 3 unfolding x_def y_def z_def by auto
    have "second3 (224 + x) (128 + y)"
      using 3 b assms unfolding second3_def cont_def scalar_def surrogate_def c by auto
    then have "utf8_dec ([224 + x, 128 + y, 128 + z] @ bs) = (x * 4096 + y * 64 + z) # utf8_dec bs"
      using b by (simp add: cont_def)
    moreover have "utf8_char c = [224 + x, 128 + y, 128 + z]"
      using 3 by (simp add: utf8_char_def x_def y_def z_def)
    ultimately show ?thesis unfolding c [symmetric] by (simp only:)
  next
    case 4
    define x where "x = c div 262144"
    define y where "y = c div 4096 mod 64"
    define z where "z = c div 64 mod 64"
    define u where "u = c mod 64"
    have c: "c = x * 262144 + y * 4096 + z * 64 + u"
      unfolding x_def y_def z_def u_def by (rule base64_digits)
    have b: "x \<le> 4" "y < 64" "z < 64" "u < 64" using 4 unfolding x_def y_def z_def u_def by auto
    have "second4 (240 + x) (128 + y)"
      using 4 b unfolding second4_def cont_def c by auto
    then have "utf8_dec ([240 + x, 128 + y, 128 + z, 128 + u] @ bs)
                 = (x * 262144 + y * 4096 + z * 64 + u) # utf8_dec bs"
      using b by (simp add: cont_def)
    moreover have "utf8_char c = [240 + x, 128 + y, 128 + z, 128 + u]"
      using 4 by (simp add: utf8_char_def x_def y_def z_def u_def)
    ultimately show ?thesis unfolding c [symmetric] by (simp only:)
  qed
qed

lemma utf8_dec_concat:
  "list_all scalar s \<Longrightarrow> utf8_dec (concat (map utf8_char s) @ bs) = s @ utf8_dec bs"
  by (induction s) (auto simp: utf8_dec_char)

lemma utf8_decode_encode:
  assumes "utf8_encode s = Some bs" and "list_all (\<lambda>c. c < 1114112) s"
  shows "utf8_decode bs = s"
proof -
  have ok: "list_all scalar s"
    using assms by (auto simp: utf8_encode_def scalar_def list_all_iff list_ex_iff split: if_splits)
  have "unat (word_of_nat b :: byte) = b" if "b \<in> set (concat (map utf8_char s))" for b
  proof -
    have "b < 256" using that ok utf8_char_bytes by (auto simp: list_all_iff scalar_def)
    then show ?thesis by (simp add: unat_byte_of_nat)
  qed
  then have "map (\<lambda>b. unat (word_of_nat b :: byte)) (concat (map utf8_char s)) = concat (map utf8_char s)"
    by (intro map_idI) simp
  then show ?thesis
    using assms utf8_dec_concat [OF ok, of "[]"]
    by (auto simp: utf8_decode_def utf8_encode_def comp_def split: if_splits)
qed

lemma utf8_encode_ascii:
  "list_all (\<lambda>c. c < 128) s \<Longrightarrow> utf8_encode s = Some (map word_of_nat s)"
  by (induction s) (auto simp: utf8_encode_def utf8_char_def surrogate_def split: if_splits)

lemma utf8_char_pos: "0 < c \<Longrightarrow> b \<in> set (utf8_char c) \<Longrightarrow> 0 < b"
  by (auto simp: utf8_char_def split: if_splits)

lemma utf8_encode_no_nul:
  assumes "utf8_encode s = Some bs" and "list_all (\<lambda>c. c < 1114112) s" and "0 \<notin> set s"
  shows "0 \<notin> set bs"
proof
  assume "0 \<in> set bs"
  then obtain c b where cb: "c \<in> set s" "b \<in> set (utf8_char c)" "(word_of_nat b :: byte) = 0"
    using assms(1) by (auto simp: utf8_encode_def split: if_splits)
  have c: "c < 1114112" using assms(2) cb(1) by (auto simp: list_all_iff)
  have "0 < b" using utf8_char_pos [OF _ cb(2)] assms(3) cb(1) by (cases c) auto
  moreover have "b < 256" using c cb(2) by (rule utf8_char_bytes)
  moreover have "b mod 256 = 0" using arg_cong [OF cb(3), of unat] by (simp only: unat_byte_of_nat) simp
  ultimately show False by simp
qed

end
