(* ===== verification/Errors.thy ===== *)
theory Errors
  imports Utf8
begin

text \<open>
  The exceptions of \<open>errors.py\<close>, and how a \<open>kXR_error\<close> code becomes one. An exception is a
  value: its class and the data callers act on. The wording of messages is kept where the
  code stores server text; prose built only for people is not.
\<close>

subsection \<open>Classes (errors.py)\<close>

datatype server_class =
    ServerError | NotFoundError | ExistsError | PermissionError | IsADirectoryError
  | NotADirectoryError | NoSpaceError | IOError | UnsupportedError | ReadOnlyError
  | QuotaError | AttrNotFoundError | BusyError | InvalidArgumentError
  | ServerTimeoutError | TLSRequiredError

datatype exn =
    ProtocolError
  | StructError
  | ValueError
  | KeyError
  | IndexError
  | AssertionError
  | UnicodeEncodeError
  | XrdConnectionError pystr
  | AuthenticationError
  | NoMechanismError "pystr list" "(pystr \<times> pystr) list"
  | ChecksumMismatchError pystr pystr pystr
  | PageIntegrityError int int
  | TooLargeError int int
  | BulkUnsupported
  | XrdTimeoutError
  | OperationExpiredError
  | Cancelled
  | ServerException server_class int pystr "pystr option"

type_synonym 'a res = "exn + 'a"

definition encode_text :: "pystr \<Rightarrow> bytes res" where
  "encode_text s = (case utf8_encode s of None \<Rightarrow> Inl UnicodeEncodeError | Some bs \<Rightarrow> Inr bs)"

subsection \<open>Error codes\<close>

definition kXR_ChkSumErr :: int where "kXR_ChkSumErr = 3019"
definition kXR_Unsupported :: int where "kXR_Unsupported = 3013"

text \<open>\<open>_CODE_CLASSES\<close>: which class stands for which code.\<close>

definition CODE_CLASSES :: "(int \<times> server_class) list" where
  "CODE_CLASSES =
    [(3000, InvalidArgumentError), (3001, InvalidArgumentError), (3002, InvalidArgumentError),
     (3006, InvalidArgumentError), (3031, InvalidArgumentError), (3003, BusyError),
     (3020, BusyError), (3024, BusyError), (3032, BusyError), (3004, InvalidArgumentError),
     (3005, IOError), (3007, IOError), (3012, IOError), (3033, IOError),
     (3008, NoSpaceError), (3009, NoSpaceError), (3021, QuotaError),
     (3010, PermissionError), (3030, PermissionError), (3028, TLSRequiredError),
     (3022, PermissionError), (3023, PermissionError), (3026, InvalidArgumentError),
     (3011, NotFoundError), (3014, NotFoundError), (3029, NotFoundError),
     (3034, ServerTimeoutError), (3035, ServerTimeoutError), (3013, UnsupportedError),
     (3015, NotADirectoryError), (3016, IsADirectoryError), (3018, ExistsError),
     (3025, ReadOnlyError), (3027, AttrNotFoundError), (3017, InvalidArgumentError)]"

definition error_for_status :: "int \<Rightarrow> pystr \<Rightarrow> pystr option \<Rightarrow> exn" where
  "error_for_status code message path =
     (if code = kXR_ChkSumErr
      then ChecksumMismatchError (str ''crc32c'') (str ''<server>'')
             (if message = [] then str ''<client>'' else message)
      else ServerException
             (case map_of CODE_CLASSES code of None \<Rightarrow> ServerError | Some c \<Rightarrow> c)
             code message path)"

definition raise_for_status :: "int \<Rightarrow> pystr \<Rightarrow> pystr option \<Rightarrow> unit res" where
  "raise_for_status code message path =
     (if code \<noteq> 0 then Inl (error_for_status code message path) else Inr ())"

subsection \<open>Errno translation\<close>

text \<open>
  The numeric errno values come from the platform's \<open>errno\<close> module, so the table is a
  function of them: \<open>ERR name\<close> is the number of the constant called \<open>name\<close>.
\<close>

definition KXR_ERRNO :: "(string \<Rightarrow> int) \<Rightarrow> (int \<times> int) list" where
  "KXR_ERRNO ERR =
    [(3000, ERR ''EINVAL''), (3001, ERR ''EINVAL''), (3002, ERR ''ENAMETOOLONG''),
     (3003, ERR ''EDEADLK''), (3004, ERR ''EBADF''), (3005, ERR ''ENODEV''),
     (3006, ERR ''EBADRQC''), (3007, ERR ''EIO''), (3008, ERR ''ENOMEM''),
     (3009, ERR ''ENOSPC''), (3010, ERR ''EACCES''), (3011, ERR ''ENOENT''),
     (3012, ERR ''EFAULT''), (3013, ERR ''ENOTSUP''), (3014, ERR ''EHOSTUNREACH''),
     (3015, ERR ''ENOTBLK''), (3016, ERR ''EISDIR''), (3017, ERR ''ECANCELED''),
     (3018, ERR ''EEXIST''), (3019, ERR ''EDOM''), (3020, ERR ''EINPROGRESS''),
     (3021, ERR ''EDQUOT''), (3022, ERR ''EILSEQ''), (3023, ERR ''ERANGE''),
     (3024, ERR ''EUSERS''), (3025, ERR ''EROFS''), (3026, ERR ''EINVAL''),
     (3027, ERR ''ENOATTR''), (3028, ERR ''EPROTOTYPE''), (3029, ERR ''EADDRNOTAVAIL''),
     (3030, ERR ''EAUTH''), (3031, ERR ''EIDRM''), (3032, ERR ''ENOTTY''),
     (3033, ERR ''ETOOMANYREFS''), (3034, ERR ''ETIMEDOUT''), (3035, ERR ''ETIME'')]"

definition errno_for :: "(string \<Rightarrow> int) \<Rightarrow> int \<Rightarrow> int" where
  "errno_for ERR code =
     (case map_of (KXR_ERRNO ERR) code of None \<Rightarrow> ERR ''ENOMSG'' | Some n \<Rightarrow> n)"

text \<open>\<open>_inverse\<close>: the first code of each number, then three numbers no code maps to.\<close>

definition dict_setdefault :: "'k \<Rightarrow> 'v \<Rightarrow> ('k \<times> 'v) list \<Rightarrow> ('k \<times> 'v) list" where
  "dict_setdefault k v d = (case map_of d k of None \<Rightarrow> d @ [(k, v)] | Some _ \<Rightarrow> d)"

definition inverse_table :: "(string \<Rightarrow> int) \<Rightarrow> (int \<times> int) list" where
  "inverse_table ERR =
     dict_set (ERR ''ENOTEMPTY'') 3018
       (dict_set (ERR ''ENOBUFS'') 3008
         (dict_set (ERR ''EPERM'') 3010
           (foldl (\<lambda>t (code, number). dict_setdefault number code t) [] (KXR_ERRNO ERR))))"

definition kxr_for :: "(string \<Rightarrow> int) \<Rightarrow> int \<Rightarrow> int \<Rightarrow> int" where
  "kxr_for ERR number dflt =
     (case map_of (inverse_table ERR) \<bar>number\<bar> of None \<Rightarrow> dflt | Some c \<Rightarrow> c)"

subsection \<open>Lemmas\<close>

lemma encode_text_cases:
  "encode_text s = Inl UnicodeEncodeError \<or> (\<exists>bs. encode_text s = Inr bs)"
  by (simp add: encode_text_def split: option.splits)

lemma error_for_status_code:
  "error_for_status code message path = ServerException cls c m p \<Longrightarrow> c = code \<and> m = message \<and> p = path"
  by (auto simp: error_for_status_def split: if_splits)

end
