(* ===== verification/Wire_Buffer.thy ===== *)
theory Wire_Buffer
  imports Errors
begin

text \<open>
  \<open>proto/buffer.py\<close>: the bounds-checked big-endian \<open>Reader\<close> and the append-only \<open>Writer\<close>,
  and the part of the standard \<open>struct\<close> module both stand on. A reader is the buffer and
  the cursor; a read returns the value and the advanced reader, or the \<open>ProtocolError\<close> of
  a truncated frame. A writer is the bytes written so far; a value out of range for its
  field is the \<open>struct.error\<close> the source documents. The \<open>what\<close> label of a reader only
  names it in messages and is left out.
\<close>

subsection \<open>The struct module: big-endian formats\<close>

definition pack_u :: "nat \<Rightarrow> int \<Rightarrow> bytes res" where
  "pack_u n v = (if 0 \<le> v \<and> v < 256 ^ n then Inr (be_enc n (nat v)) else Inl StructError)"

definition pack_i :: "nat \<Rightarrow> int \<Rightarrow> bytes res" where
  "pack_i n v =
     (if - (256 ^ n) \<le> 2 * v \<and> 2 * v < 256 ^ n then Inr (be_enc n (nat (v mod 256 ^ n)))
      else Inl StructError)"

definition ljust :: "nat \<Rightarrow> bytes \<Rightarrow> bytes" where
  "ljust w b = b @ replicate (w - length b) 0"

definition pad_field :: "nat \<Rightarrow> bytes \<Rightarrow> bytes" where
  "pad_field w b = ljust w (take w b)"

text \<open>Format characters \<open>B H I Q\<close>, \<open>h i q\<close>, \<open>ns\<close> and \<open>nx\<close>; a value is an integer or bytes.\<close>

datatype sfmt = FB | FH | FI | FQ | Fh | Fi | Fq | Fs nat | Fx nat

datatype sval = SInt int | SBytes bytes

fun struct_pack :: "sfmt list \<Rightarrow> sval list \<Rightarrow> bytes res" where
  "struct_pack [] [] = Inr []"
| "struct_pack (Fx n # fs) vs = rbind (struct_pack fs vs) (\<lambda>bs. Inr (replicate n 0 @ bs))"
| "struct_pack (Fs n # fs) (SBytes b # vs) =
     rbind (struct_pack fs vs) (\<lambda>bs. Inr (pad_field n b @ bs))"
| "struct_pack (FB # fs) (SInt v # vs) =
     rbind (pack_u 1 v) (\<lambda>b. rbind (struct_pack fs vs) (\<lambda>bs. Inr (b @ bs)))"
| "struct_pack (FH # fs) (SInt v # vs) =
     rbind (pack_u 2 v) (\<lambda>b. rbind (struct_pack fs vs) (\<lambda>bs. Inr (b @ bs)))"
| "struct_pack (FI # fs) (SInt v # vs) =
     rbind (pack_u 4 v) (\<lambda>b. rbind (struct_pack fs vs) (\<lambda>bs. Inr (b @ bs)))"
| "struct_pack (FQ # fs) (SInt v # vs) =
     rbind (pack_u 8 v) (\<lambda>b. rbind (struct_pack fs vs) (\<lambda>bs. Inr (b @ bs)))"
| "struct_pack (Fh # fs) (SInt v # vs) =
     rbind (pack_i 2 v) (\<lambda>b. rbind (struct_pack fs vs) (\<lambda>bs. Inr (b @ bs)))"
| "struct_pack (Fi # fs) (SInt v # vs) =
     rbind (pack_i 4 v) (\<lambda>b. rbind (struct_pack fs vs) (\<lambda>bs. Inr (b @ bs)))"
| "struct_pack (Fq # fs) (SInt v # vs) =
     rbind (pack_i 8 v) (\<lambda>b. rbind (struct_pack fs vs) (\<lambda>bs. Inr (b @ bs)))"
| "struct_pack _ _ = Inl StructError"

subsection \<open>Reader\<close>

record reader =
  rbuf :: bytes
  rpos :: nat

definition Reader :: "bytes \<Rightarrow> reader" where
  "Reader data = \<lparr>rbuf = data, rpos = 0\<rparr>"

definition remaining :: "reader \<Rightarrow> nat" where
  "remaining r = length (rbuf r) - rpos r"

definition r_take :: "int \<Rightarrow> reader \<Rightarrow> (bytes \<times> reader) res" where
  "r_take n r =
     (if n < 0 then Inl ProtocolError
      else if length (rbuf r) < rpos r + nat n then Inl ProtocolError
      else Inr (take (nat n) (drop (rpos r) (rbuf r)), r\<lparr>rpos := rpos r + nat n\<rparr>))"

definition r_unpack :: "nat \<Rightarrow> (bytes \<Rightarrow> int) \<Rightarrow> reader \<Rightarrow> (int \<times> reader) res" where
  "r_unpack n conv r = rbind (r_take (int n) r) (\<lambda>(bs, r'). Inr (conv bs, r'))"

definition r_u8 :: "reader \<Rightarrow> (int \<times> reader) res" where
  "r_u8 = r_unpack 1 (\<lambda>bs. int (be_dec bs))"

definition r_u16 :: "reader \<Rightarrow> (int \<times> reader) res" where
  "r_u16 = r_unpack 2 (\<lambda>bs. int (be_dec bs))"

definition r_i16 :: "reader \<Rightarrow> (int \<times> reader) res" where
  "r_i16 = r_unpack 2 be_sdec"

definition r_u32 :: "reader \<Rightarrow> (int \<times> reader) res" where
  "r_u32 = r_unpack 4 (\<lambda>bs. int (be_dec bs))"

definition r_i32 :: "reader \<Rightarrow> (int \<times> reader) res" where
  "r_i32 = r_unpack 4 be_sdec"

definition r_u64 :: "reader \<Rightarrow> (int \<times> reader) res" where
  "r_u64 = r_unpack 8 (\<lambda>bs. int (be_dec bs))"

definition r_i64 :: "reader \<Rightarrow> (int \<times> reader) res" where
  "r_i64 = r_unpack 8 be_sdec"

definition r_bytes :: "int \<Rightarrow> reader \<Rightarrow> (bytes \<times> reader) res" where
  "r_bytes n r = r_take n r"

definition r_rest :: "reader \<Rightarrow> (bytes \<times> reader) res" where
  "r_rest r = r_take (int (remaining r)) r"

definition r_skip :: "int \<Rightarrow> reader \<Rightarrow> reader res" where
  "r_skip n r = rbind (r_take n r) (\<lambda>(_, r'). Inr r')"

definition until_nul :: "bytes \<Rightarrow> bytes" where
  "until_nul bs = takeWhile (\<lambda>b. b \<noteq> 0) bs"

definition r_cstring :: "int option \<Rightarrow> reader \<Rightarrow> (pystr \<times> reader) res" where
  "r_cstring w r =
     (case w of
        Some n \<Rightarrow> rbind (r_take n r) (\<lambda>(raw, r'). Inr (utf8_decode (until_nul raw), r'))
      | None \<Rightarrow>
          (let tail = drop (rpos r) (rbuf r); s = until_nul tail
           in Inr (utf8_decode s,
                   r\<lparr>rpos := rpos r + (if 0 \<in> set tail then length s + 1 else length tail)\<rparr>)))"

subsection \<open>Writer\<close>

definition w_u8 :: "int \<Rightarrow> bytes \<Rightarrow> bytes res" where
  "w_u8 v w = rbind (pack_u 1 v) (\<lambda>b. Inr (w @ b))"

definition w_u16 :: "int \<Rightarrow> bytes \<Rightarrow> bytes res" where
  "w_u16 v w = rbind (pack_u 2 v) (\<lambda>b. Inr (w @ b))"

definition w_u32 :: "int \<Rightarrow> bytes \<Rightarrow> bytes res" where
  "w_u32 v w = rbind (pack_u 4 v) (\<lambda>b. Inr (w @ b))"

definition w_i32 :: "int \<Rightarrow> bytes \<Rightarrow> bytes res" where
  "w_i32 v w = rbind (pack_i 4 v) (\<lambda>b. Inr (w @ b))"

definition w_u64 :: "int \<Rightarrow> bytes \<Rightarrow> bytes res" where
  "w_u64 v w = rbind (pack_u 8 v) (\<lambda>b. Inr (w @ b))"

definition w_i64 :: "int \<Rightarrow> bytes \<Rightarrow> bytes res" where
  "w_i64 v w = rbind (pack_i 8 v) (\<lambda>b. Inr (w @ b))"

definition w_raw :: "bytes \<Rightarrow> bytes \<Rightarrow> bytes res" where
  "w_raw data w = Inr (w @ data)"

definition w_text :: "pystr \<Rightarrow> bool \<Rightarrow> bytes \<Rightarrow> bytes res" where
  "w_text s nul w = rbind (encode_text s) (\<lambda>b. Inr (w @ b @ (if nul then [0] else [])))"

definition w_zeros :: "nat \<Rightarrow> bytes \<Rightarrow> bytes res" where
  "w_zeros n w = Inr (w @ replicate n 0)"

text \<open>\<open>padded\<close> takes text or bytes.\<close>

datatype str_or_bytes = OfStr pystr | OfBytes bytes

definition w_padded :: "str_or_bytes \<Rightarrow> nat \<Rightarrow> bytes \<Rightarrow> bytes res" where
  "w_padded s width w =
     rbind (case s of OfStr t \<Rightarrow> encode_text t | OfBytes b \<Rightarrow> Inr b)
       (\<lambda>b. Inr (w @ pad_field width b))"

text \<open>
  A chain \<open>w.u8(a).zeros(11).padded(fh, 4)\<close> is the list of its calls; \<open>w_run\<close> makes them
  one after another on one writer, the first error ending the chain.
\<close>

datatype wcall =
    U8 int | U16 int | U32 int | I32 int | U64 int | I64 int
  | Raw bytes | Text pystr bool | Zeros nat | Padded str_or_bytes nat

fun w_call :: "wcall \<Rightarrow> bytes \<Rightarrow> bytes res" where
  "w_call (U8 v) = w_u8 v"
| "w_call (U16 v) = w_u16 v"
| "w_call (U32 v) = w_u32 v"
| "w_call (I32 v) = w_i32 v"
| "w_call (U64 v) = w_u64 v"
| "w_call (I64 v) = w_i64 v"
| "w_call (Raw b) = w_raw b"
| "w_call (Text s nul) = w_text s nul"
| "w_call (Zeros n) = w_zeros n"
| "w_call (Padded s n) = w_padded s n"

fun w_run :: "wcall list \<Rightarrow> bytes \<Rightarrow> bytes res" where
  "w_run [] w = Inr w"
| "w_run (c # cs) w = rbind (w_call c w) (w_run cs)"

definition Writer :: "wcall list \<Rightarrow> bytes res" where
  "Writer cs = w_run cs []"

subsection \<open>Lemmas on packing and on writer chains\<close>

lemma length_pad_field [simp]: "length (pad_field n b) = n"
  by (simp add: pad_field_def ljust_def)

lemma pad_field_id: "length b = n \<Longrightarrow> pad_field n b = b"
  by (simp add: pad_field_def ljust_def)

lemma pack_u_length: "pack_u n v = Inr b \<Longrightarrow> length b = n"
  by (auto simp: pack_u_def split: if_splits)

lemma pack_i_length: "pack_i n v = Inr b \<Longrightarrow> length b = n"
  by (auto simp: pack_i_def split: if_splits)

lemma pack_u_dec: "pack_u n v = Inr b \<Longrightarrow> int (be_dec b) = v"
  by (auto simp: pack_u_def be_dec_enc nat_less_iff split: if_splits)

lemma pack_i_dec: "pack_i n v = Inr b \<Longrightarrow> be_sdec b = v"
  by (auto simp: pack_i_def be_sdec_enc split: if_splits)

lemmas pack_facts = pack_u_length pack_i_length pack_u_dec pack_i_dec

lemma w_call_append: "w_call c w = rbind (w_call c []) (\<lambda>b. Inr (w @ b))"
  by (cases c)
     (auto simp: w_u8_def w_u16_def w_u32_def w_i32_def w_u64_def w_i64_def w_raw_def
        w_text_def w_zeros_def w_padded_def rbind_assoc)

lemma w_run_append: "w_run cs w = rbind (w_run cs []) (\<lambda>b. Inr (w @ b))"
proof (induction cs arbitrary: w)
  case Nil
  show ?case by simp
next
  case (Cons c cs)
  show ?case
  proof (cases "w_call c []")
    case (Inl e)
    then show ?thesis by (simp add: w_call_append [of c w])
  next
    case (Inr b)
    have "w_run (c # cs) w = w_run cs (w @ b)"
      by (simp add: w_call_append [of c w] Inr)
    also have "\<dots> = rbind (w_run cs []) (\<lambda>x. Inr ((w @ b) @ x))"
      by (rule Cons.IH)
    also have "\<dots> = rbind (w_run cs b) (\<lambda>x. Inr (w @ x))"
      by (subst Cons.IH [of b]) (simp add: rbind_assoc)
    finally show ?thesis by (simp add: Inr)
  qed
qed

text \<open>How many bytes a call writes whatever its value, where that is fixed.\<close>

fun call_width :: "wcall \<Rightarrow> nat option" where
  "call_width (U8 _) = Some 1"
| "call_width (U16 _) = Some 2"
| "call_width (U32 _) = Some 4"
| "call_width (I32 _) = Some 4"
| "call_width (U64 _) = Some 8"
| "call_width (I64 _) = Some 8"
| "call_width (Raw b) = Some (length b)"
| "call_width (Text _ _) = None"
| "call_width (Zeros n) = Some n"
| "call_width (Padded _ n) = Some n"

fun layout_width :: "wcall list \<Rightarrow> nat option" where
  "layout_width [] = Some 0"
| "layout_width (c # cs) =
     (case call_width c of None \<Rightarrow> None | Some n \<Rightarrow> map_option ((+) n) (layout_width cs))"

lemma w_call_width: "call_width c = Some n \<Longrightarrow> w_call c w = Inr w' \<Longrightarrow> length w' = length w + n"
  by (cases c)
     (auto simp: w_u8_def w_u16_def w_u32_def w_i32_def w_u64_def w_i64_def w_raw_def
        w_text_def w_zeros_def w_padded_def rbind_eq_Inr dest: pack_u_length pack_i_length)

lemma w_run_width:
  "layout_width cs = Some n \<Longrightarrow> w_run cs w = Inr w' \<Longrightarrow> length w' = length w + n"
proof (induction cs arbitrary: n w)
  case Nil
  then show ?case by simp
next
  case (Cons c cs)
  then show ?case
    by (fastforce simp: rbind_eq_Inr split: option.splits dest: w_call_width)
qed

subsection \<open>The reader moves forward and stays inside its buffer\<close>

definition reader_ok :: "reader \<Rightarrow> bool" where
  "reader_ok r \<longleftrightarrow> rpos r \<le> length (rbuf r)"

definition reader_step :: "reader \<Rightarrow> nat \<Rightarrow> reader \<Rightarrow> bool" where
  "reader_step r n r' \<longleftrightarrow>
     rbuf r' = rbuf r \<and> rpos r' = rpos r + n \<and> rpos r' \<le> length (rbuf r)"

lemma Reader_ok [simp]: "reader_ok (Reader data)"
  by (simp add: reader_ok_def Reader_def)

lemma reader_step_ok: "reader_step r n r' \<Longrightarrow> reader_ok r'"
  by (simp add: reader_step_def reader_ok_def)

lemma reader_step_remaining: "reader_step r n r' \<Longrightarrow> remaining r = remaining r' + n"
  by (simp add: reader_step_def remaining_def)

lemma r_take_step: "r_take n r = Inr (bs, r') \<Longrightarrow>
   0 \<le> n \<and> length bs = nat n \<and> bs = take (nat n) (drop (rpos r) (rbuf r)) \<and> reader_step r (nat n) r'"
  by (auto simp: r_take_def reader_step_def split: if_splits)

lemma r_take_short: "reader_ok r \<Longrightarrow> remaining r < nat n \<Longrightarrow> r_take n r = Inl ProtocolError"
  by (auto simp: r_take_def remaining_def reader_ok_def)

lemma r_take_enough:
  "reader_ok r \<Longrightarrow> n \<le> remaining r \<Longrightarrow>
   r_take (int n) r = Inr (take n (drop (rpos r) (rbuf r)), r\<lparr>rpos := rpos r + n\<rparr>)"
  by (auto simp: r_take_def remaining_def reader_ok_def)

lemma r_take_errors: "r_take n r = Inl e \<Longrightarrow> e = ProtocolError"
  by (auto simp: r_take_def split: if_splits)

lemma r_unpack_step:
  "r_unpack n conv r = Inr (v, r') \<Longrightarrow>
   v = conv (take n (drop (rpos r) (rbuf r))) \<and> reader_step r n r'"
  by (auto simp: r_unpack_def rbind_eq_Inr dest: r_take_step)

lemma r_unpack_errors: "r_unpack n conv r = Inl e \<Longrightarrow> e = ProtocolError"
  by (auto simp: r_unpack_def rbind_def split: sum.splits dest: r_take_errors)

lemmas r_int_defs = r_u8_def r_u16_def r_i16_def r_u32_def r_i32_def r_u64_def r_i64_def

subsection \<open>Field codecs: what one side packs the other reads back\<close>

text \<open>
  The contract between a writer's field and the reader's: a packed value has the field's
  width, reading at its place gives the value back and moves past it, and a reader with
  fewer bytes left raises instead of reading.
\<close>

locale field_codec =
  fixes put :: "'a \<Rightarrow> bytes res"
    and get :: "reader \<Rightarrow> ('a \<times> reader) res"
    and width :: nat
  assumes put_width: "put v = Inr b \<Longrightarrow> length b = width"
    and get_put: "put v = Inr b \<Longrightarrow>
      get \<lparr>rbuf = pre @ b @ post, rpos = length pre\<rparr>
        = Inr (v, \<lparr>rbuf = pre @ b @ post, rpos = length pre + width\<rparr>)"
    and get_step: "get r = Inr (v, r') \<Longrightarrow> reader_step r width r'"
    and get_short: "reader_ok r \<Longrightarrow> remaining r < width \<Longrightarrow> get r = Inl ProtocolError"
    and get_errors: "get r = Inl e \<Longrightarrow> e = ProtocolError"

text \<open>Reading the same field a number of times, as a loop of the source does.\<close>

fun r_many :: "(reader \<Rightarrow> ('a \<times> reader) res) \<Rightarrow> nat \<Rightarrow> reader \<Rightarrow> ('a list \<times> reader) res" where
  "r_many g 0 r = Inr ([], r)"
| "r_many g (Suc n) r =
     rbind (g r) (\<lambda>(v, r1). rbind (r_many g n r1) (\<lambda>(vs, r2). Inr (v # vs, r2)))"

context field_codec
begin

lemma r_many_put:
  "rmap put vs = Inr bss \<Longrightarrow>
   r_many get (length vs) \<lparr>rbuf = pre @ concat bss @ post, rpos = length pre\<rparr>
     = Inr (vs, \<lparr>rbuf = pre @ concat bss @ post, rpos = length pre + width * length vs\<rparr>)"
proof (induction vs arbitrary: bss pre)
  case Nil
  then show ?case by simp
next
  case (Cons v vs)
  then obtain b bss' where p: "put v = Inr b" "rmap put vs = Inr bss'" "bss = b # bss'"
    by (auto simp: rbind_eq_Inr)
  have "get \<lparr>rbuf = pre @ b @ concat bss' @ post, rpos = length pre\<rparr>
     = Inr (v, \<lparr>rbuf = (pre @ b) @ concat bss' @ post, rpos = length (pre @ b)\<rparr>)"
    using get_put [OF p(1), of pre "concat bss' @ post"] put_width [OF p(1)] by simp
  then show ?case
    using Cons.IH [OF p(2), of "pre @ b"] put_width [OF p(1)] p(3) by simp
qed

lemma r_many_step: "r_many get n r = Inr (vs, r') \<Longrightarrow> reader_ok r \<Longrightarrow>
   length vs = n \<and> reader_step r (width * n) r'"
proof (induction n arbitrary: r vs)
  case 0
  then show ?case by (simp add: reader_step_def reader_ok_def)
next
  case (Suc n)
  then obtain v r1 vs' where
    g: "get r = Inr (v, r1)" "r_many get n r1 = Inr (vs', r')" "vs = v # vs'"
    by (auto simp: rbind_eq_Inr)
  have s: "reader_step r width r1" using g(1) by (rule get_step)
  then have "length vs' = n \<and> reader_step r1 (width * n) r'"
    using Suc.IH [OF g(2)] reader_step_ok by blast
  with s g(3) show ?case by (auto simp: reader_step_def)
qed

lemma r_many_errors: "r_many get n r = Inl e \<Longrightarrow> e = ProtocolError"
proof (induction n arbitrary: r)
  case 0
  then show ?case by simp
next
  case (Suc n)
  then show ?case
    by (auto simp: rbind_def split: sum.splits prod.splits dest: get_errors)
qed

end

text \<open>The two families of integer fields, each for every width the protocol uses.\<close>

lemma take_drop_field:
  "length b = n \<Longrightarrow> take n (drop (length pre) (pre @ b @ post)) = b"
  by simp

lemma field_codec_int:
  assumes "\<And>v b. p v = Inr b \<Longrightarrow> length b = n" and "\<And>v b. p v = Inr b \<Longrightarrow> conv b = v"
  shows "field_codec p (r_unpack n conv) n"
proof
  fix v b pre post
  assume pv: "p v = Inr b"
  then have "length b = n" by (rule assms(1))
  then show "r_unpack n conv \<lparr>rbuf = pre @ b @ post, rpos = length pre\<rparr>
      = Inr (v, \<lparr>rbuf = pre @ b @ post, rpos = length pre + n\<rparr>)"
    using assms(2) [OF pv] by (simp add: r_unpack_def r_take_def)
next
  fix r
  assume "reader_ok r" "remaining r < n"
  then show "r_unpack n conv r = Inl ProtocolError"
    by (simp add: r_unpack_def r_take_short)
qed (use assms in \<open>auto dest: r_unpack_step r_unpack_errors\<close>)

interpretation u8: field_codec "pack_u 1" r_u8 1
  unfolding r_int_defs by (rule field_codec_int) (auto dest: pack_facts)

interpretation u16: field_codec "pack_u 2" r_u16 2
  unfolding r_int_defs by (rule field_codec_int) (auto dest: pack_facts)

interpretation u32: field_codec "pack_u 4" r_u32 4
  unfolding r_int_defs by (rule field_codec_int) (auto dest: pack_facts)

interpretation i32: field_codec "pack_i 4" r_i32 4
  unfolding r_int_defs by (rule field_codec_int) (auto dest: pack_facts)

interpretation u64: field_codec "pack_u 8" r_u64 8
  unfolding r_int_defs by (rule field_codec_int) (auto dest: pack_facts)

interpretation i64: field_codec "pack_i 8" r_i64 8
  unfolding r_int_defs by (rule field_codec_int) (auto dest: pack_facts)

text \<open>A fixed-width byte field: packed as is when it has the width.\<close>

definition put_fixed :: "nat \<Rightarrow> bytes \<Rightarrow> bytes res" where
  "put_fixed n b = (if length b = n then Inr b else Inl StructError)"

lemma field_codec_fixed: "field_codec (put_fixed n) (r_bytes (int n)) n"
proof
  fix r
  assume "reader_ok r" "remaining r < n"
  then show "r_bytes (int n) r = Inl ProtocolError"
    by (simp add: r_bytes_def r_take_short)
qed (auto simp: put_fixed_def r_bytes_def r_take_def reader_step_def split: if_splits)

interpretation handle: field_codec "put_fixed 4" "r_bytes 4" 4
  using field_codec_fixed [of 4] by simp

text \<open>Two fields after one another are a field again.\<close>

definition put_pair :: "('a \<Rightarrow> bytes res) \<Rightarrow> ('b \<Rightarrow> bytes res) \<Rightarrow> 'a \<times> 'b \<Rightarrow> bytes res" where
  "put_pair p q v = rbind (p (fst v)) (\<lambda>x. rbind (q (snd v)) (\<lambda>y. Inr (x @ y)))"

definition get_pair ::
  "(reader \<Rightarrow> ('a \<times> reader) res) \<Rightarrow> (reader \<Rightarrow> ('b \<times> reader) res) \<Rightarrow> reader \<Rightarrow> (('a \<times> 'b) \<times> reader) res" where
  "get_pair g h r = rbind (g r) (\<lambda>(a, r1). rbind (h r1) (\<lambda>(b, r2). Inr ((a, b), r2)))"

locale codec_pair =
  first: field_codec p g m + second: field_codec q h n
  for p :: "'a \<Rightarrow> bytes res" and g m and q :: "'b \<Rightarrow> bytes res" and h n

sublocale codec_pair \<subseteq> pair: field_codec "put_pair p q" "get_pair g h" "m + n"
proof
  fix v b
  assume "put_pair p q v = Inr b"
  then obtain x y where xy: "p (fst v) = Inr x" "q (snd v) = Inr y" "b = x @ y"
    by (auto simp: put_pair_def rbind_eq_Inr)
  then show "length b = m + n" by (simp add: first.put_width second.put_width)
  fix pre post
  show "get_pair g h \<lparr>rbuf = pre @ b @ post, rpos = length pre\<rparr>
      = Inr (v, \<lparr>rbuf = pre @ b @ post, rpos = length pre + (m + n)\<rparr>)"
    using first.get_put [OF xy(1), of pre "y @ post"]
      second.get_put [OF xy(2), of "pre @ x" post] first.put_width [OF xy(1)]
    by (simp add: get_pair_def xy(3) add.assoc)
next
  fix r v r'
  assume "get_pair g h r = Inr (v, r')"
  then obtain a r1 b where "g r = Inr (a, r1)" "h r1 = Inr (b, r')"
    by (auto simp: get_pair_def rbind_eq_Inr)
  then show "reader_step r (m + n) r'"
    by (auto simp: reader_step_def dest!: first.get_step second.get_step)
next
  fix r
  assume r: "reader_ok r" "remaining r < m + n"
  show "get_pair g h r = Inl ProtocolError"
  proof (cases "g r")
    case (Inl e)
    then show ?thesis by (simp add: get_pair_def first.get_errors [OF Inl])
  next
    case (Inr ar)
    then obtain a r1 where g: "g r = Inr (a, r1)" by (cases ar) auto
    then have "reader_step r m r1" by (rule first.get_step)
    then have "reader_ok r1" "remaining r1 < n"
      using r by (auto simp: reader_step_ok dest: reader_step_remaining)
    then show ?thesis by (simp add: get_pair_def g second.get_short)
  qed
next
  fix r e
  assume "get_pair g h r = Inl e"
  then show "e = ProtocolError"
    by (auto simp: get_pair_def rbind_def split: sum.splits prod.splits
        dest: first.get_errors second.get_errors)
qed

end
