(* ===== verification/Wire_Constants.thy ===== *)
theory Wire_Constants
  imports Errors
begin

text \<open>
  \<open>proto/constants.py\<close>: the protocol's numbers, under the names the source gives them.
  They are abbreviations, so proofs and evaluation see the numerals.
\<close>

abbreviation kXR_auth :: int where "kXR_auth \<equiv> 3000"
abbreviation kXR_query :: int where "kXR_query \<equiv> 3001"
abbreviation kXR_chmod :: int where "kXR_chmod \<equiv> 3002"
abbreviation kXR_close :: int where "kXR_close \<equiv> 3003"
abbreviation kXR_dirlist :: int where "kXR_dirlist \<equiv> 3004"
abbreviation kXR_gpfile :: int where "kXR_gpfile \<equiv> 3005"
abbreviation kXR_protocol :: int where "kXR_protocol \<equiv> 3006"
abbreviation kXR_login :: int where "kXR_login \<equiv> 3007"
abbreviation kXR_mkdir :: int where "kXR_mkdir \<equiv> 3008"
abbreviation kXR_mv :: int where "kXR_mv \<equiv> 3009"
abbreviation kXR_open :: int where "kXR_open \<equiv> 3010"
abbreviation kXR_ping :: int where "kXR_ping \<equiv> 3011"
abbreviation kXR_chkpoint :: int where "kXR_chkpoint \<equiv> 3012"
abbreviation kXR_read :: int where "kXR_read \<equiv> 3013"
abbreviation kXR_rm :: int where "kXR_rm \<equiv> 3014"
abbreviation kXR_rmdir :: int where "kXR_rmdir \<equiv> 3015"
abbreviation kXR_sync :: int where "kXR_sync \<equiv> 3016"
abbreviation kXR_stat :: int where "kXR_stat \<equiv> 3017"
abbreviation kXR_set :: int where "kXR_set \<equiv> 3018"
abbreviation kXR_write :: int where "kXR_write \<equiv> 3019"
abbreviation kXR_fattr :: int where "kXR_fattr \<equiv> 3020"
abbreviation kXR_prepare :: int where "kXR_prepare \<equiv> 3021"
abbreviation kXR_statx :: int where "kXR_statx \<equiv> 3022"
abbreviation kXR_endsess :: int where "kXR_endsess \<equiv> 3023"
abbreviation kXR_bind :: int where "kXR_bind \<equiv> 3024"
abbreviation kXR_readv :: int where "kXR_readv \<equiv> 3025"
abbreviation kXR_pgwrite :: int where "kXR_pgwrite \<equiv> 3026"
abbreviation kXR_locate :: int where "kXR_locate \<equiv> 3027"
abbreviation kXR_truncate :: int where "kXR_truncate \<equiv> 3028"
abbreviation kXR_sigver :: int where "kXR_sigver \<equiv> 3029"
abbreviation kXR_pgread :: int where "kXR_pgread \<equiv> 3030"
abbreviation kXR_writev :: int where "kXR_writev \<equiv> 3031"
abbreviation kXR_clone :: int where "kXR_clone \<equiv> 3032"
abbreviation kXR_1stRequest :: int where "kXR_1stRequest \<equiv> 3000"
abbreviation kXR_setattr :: int where "kXR_setattr \<equiv> 3500"
abbreviation kXR_symlink :: int where "kXR_symlink \<equiv> 3501"
abbreviation kXR_readlink :: int where "kXR_readlink \<equiv> 3502"
abbreviation kXR_link :: int where "kXR_link \<equiv> 3503"
abbreviation kXR_sa_times :: int where "kXR_sa_times \<equiv> 1"
abbreviation kXR_sa_owner :: int where "kXR_sa_owner \<equiv> 2"
abbreviation UTIME_NOW :: int where "UTIME_NOW \<equiv> 1073741823"
abbreviation UTIME_OMIT :: int where "UTIME_OMIT \<equiv> 1073741822"
abbreviation kXR_ok :: int where "kXR_ok \<equiv> 0"
abbreviation kXR_oksofar :: int where "kXR_oksofar \<equiv> 4000"
abbreviation kXR_attn :: int where "kXR_attn \<equiv> 4001"
abbreviation kXR_authmore :: int where "kXR_authmore \<equiv> 4002"
abbreviation kXR_error :: int where "kXR_error \<equiv> 4003"
abbreviation kXR_redirect :: int where "kXR_redirect \<equiv> 4004"
abbreviation kXR_wait :: int where "kXR_wait \<equiv> 4005"
abbreviation kXR_waitresp :: int where "kXR_waitresp \<equiv> 4006"
abbreviation kXR_status :: int where "kXR_status \<equiv> 4007"
abbreviation kXR_asyncab :: int where "kXR_asyncab \<equiv> 5000"
abbreviation kXR_asyncdi :: int where "kXR_asyncdi \<equiv> 5001"
abbreviation kXR_asyncms :: int where "kXR_asyncms \<equiv> 5002"
abbreviation kXR_asyncrd :: int where "kXR_asyncrd \<equiv> 5003"
abbreviation kXR_asyncwt :: int where "kXR_asyncwt \<equiv> 5004"
abbreviation kXR_asyncav :: int where "kXR_asyncav \<equiv> 5005"
abbreviation kXR_asynunav :: int where "kXR_asynunav \<equiv> 5006"
abbreviation kXR_asyncgo :: int where "kXR_asyncgo \<equiv> 5007"
abbreviation kXR_asynresp :: int where "kXR_asynresp \<equiv> 5008"
abbreviation kXR_isManager :: int where "kXR_isManager \<equiv> 2"
abbreviation kXR_isServer :: int where "kXR_isServer \<equiv> 1"
abbreviation kXR_attrCache :: int where "kXR_attrCache \<equiv> 128"
abbreviation kXR_attrMeta :: int where "kXR_attrMeta \<equiv> 256"
abbreviation kXR_attrProxy :: int where "kXR_attrProxy \<equiv> 512"
abbreviation kXR_attrSuper :: int where "kXR_attrSuper \<equiv> 1024"
abbreviation kXR_attrVirtRdr :: int where "kXR_attrVirtRdr \<equiv> 2048"
abbreviation kXR_recoverWrts :: int where "kXR_recoverWrts \<equiv> 4096"
abbreviation kXR_collapseRedir :: int where "kXR_collapseRedir \<equiv> 8192"
abbreviation kXR_ecRedir :: int where "kXR_ecRedir \<equiv> 16384"
abbreviation kXR_supposc :: int where "kXR_supposc \<equiv> 1048576"
abbreviation kXR_suppgrw :: int where "kXR_suppgrw \<equiv> 2097152"
abbreviation kXR_supgpf :: int where "kXR_supgpf \<equiv> 4194304"
abbreviation kXR_anongpf :: int where "kXR_anongpf \<equiv> 8388608"
abbreviation kXR_haveTLS :: int where "kXR_haveTLS \<equiv> 2147483648"
abbreviation kXR_gotoTLS :: int where "kXR_gotoTLS \<equiv> 1073741824"
abbreviation kXR_tlsAny :: int where "kXR_tlsAny \<equiv> 520093696"
abbreviation kXR_tlsData :: int where "kXR_tlsData \<equiv> 16777216"
abbreviation kXR_tlsGPF :: int where "kXR_tlsGPF \<equiv> 33554432"
abbreviation kXR_tlsLogin :: int where "kXR_tlsLogin \<equiv> 67108864"
abbreviation kXR_tlsSess :: int where "kXR_tlsSess \<equiv> 134217728"
abbreviation kXR_tlsTPC :: int where "kXR_tlsTPC \<equiv> 268435456"
abbreviation kXR_tlsGPFA :: int where "kXR_tlsGPFA \<equiv> 536870912"
abbreviation ROOTD_PQ :: int where "ROOTD_PQ \<equiv> 2012"
abbreviation kXR_PROTOCOLVERSION :: int where "kXR_PROTOCOLVERSION \<equiv> 1312"
abbreviation kXR_PROTCLONEVERSION :: int where "kXR_PROTCLONEVERSION \<equiv> 1312"
abbreviation kXR_secreqs :: int where "kXR_secreqs \<equiv> 1"
abbreviation kXR_ableTLS :: int where "kXR_ableTLS \<equiv> 2"
abbreviation kXR_wantTLS :: int where "kXR_wantTLS \<equiv> 4"
abbreviation kXR_ExpLogin :: int where "kXR_ExpLogin \<equiv> 3"
abbreviation kXR_asyncap :: int where "kXR_asyncap \<equiv> 128"
abbreviation kXR_ver005 :: int where "kXR_ver005 \<equiv> 5"
abbreviation SESSION_ID_LEN :: int where "SESSION_ID_LEN \<equiv> 16"
abbreviation kXR_online :: int where "kXR_online \<equiv> 1"
abbreviation kXR_dstat :: int where "kXR_dstat \<equiv> 2"
abbreviation kXR_dcksm :: int where "kXR_dcksm \<equiv> 4"
abbreviation kXR_vfs :: int where "kXR_vfs \<equiv> 1"
abbreviation kXR_statNoFollow :: int where "kXR_statNoFollow \<equiv> 64"
abbreviation kXR_compress :: int where "kXR_compress \<equiv> 1"
abbreviation kXR_delete :: int where "kXR_delete \<equiv> 2"
abbreviation kXR_force :: int where "kXR_force \<equiv> 4"
abbreviation kXR_new :: int where "kXR_new \<equiv> 8"
abbreviation kXR_open_read :: int where "kXR_open_read \<equiv> 16"
abbreviation kXR_open_updt :: int where "kXR_open_updt \<equiv> 32"
abbreviation kXR_async :: int where "kXR_async \<equiv> 64"
abbreviation kXR_refresh :: int where "kXR_refresh \<equiv> 128"
abbreviation kXR_mkpath :: int where "kXR_mkpath \<equiv> 256"
abbreviation kXR_open_apnd :: int where "kXR_open_apnd \<equiv> 512"
abbreviation kXR_retstat :: int where "kXR_retstat \<equiv> 1024"
abbreviation kXR_replica :: int where "kXR_replica \<equiv> 2048"
abbreviation kXR_posc :: int where "kXR_posc \<equiv> 4096"
abbreviation kXR_nowait :: int where "kXR_nowait \<equiv> 8192"
abbreviation kXR_seqio :: int where "kXR_seqio \<equiv> 16384"
abbreviation kXR_open_wrto :: int where "kXR_open_wrto \<equiv> 32768"
abbreviation kXR_dup :: int where "kXR_dup \<equiv> 1"
abbreviation kXR_samefs :: int where "kXR_samefs \<equiv> 2"
abbreviation kXR_mkdirpath :: int where "kXR_mkdirpath \<equiv> 1"
abbreviation kXR_QStats :: int where "kXR_QStats \<equiv> 1"
abbreviation kXR_QPrep :: int where "kXR_QPrep \<equiv> 2"
abbreviation kXR_Qcksum :: int where "kXR_Qcksum \<equiv> 3"
abbreviation kXR_Qxattr :: int where "kXR_Qxattr \<equiv> 4"
abbreviation kXR_Qspace :: int where "kXR_Qspace \<equiv> 5"
abbreviation kXR_Qckscan :: int where "kXR_Qckscan \<equiv> 6"
abbreviation kXR_Qconfig :: int where "kXR_Qconfig \<equiv> 7"
abbreviation kXR_Qvisa :: int where "kXR_Qvisa \<equiv> 8"
abbreviation kXR_Qopaque :: int where "kXR_Qopaque \<equiv> 16"
abbreviation kXR_Qopaquf :: int where "kXR_Qopaquf \<equiv> 32"
abbreviation kXR_Qopaqug :: int where "kXR_Qopaqug \<equiv> 64"
abbreviation kXR_cancel :: int where "kXR_cancel \<equiv> 1"
abbreviation kXR_notify :: int where "kXR_notify \<equiv> 2"
abbreviation kXR_noerrs :: int where "kXR_noerrs \<equiv> 4"
abbreviation kXR_stage :: int where "kXR_stage \<equiv> 8"
abbreviation kXR_wmode :: int where "kXR_wmode \<equiv> 16"
abbreviation kXR_coloc :: int where "kXR_coloc \<equiv> 32"
abbreviation kXR_fresh :: int where "kXR_fresh \<equiv> 64"
abbreviation kXR_usetcp :: int where "kXR_usetcp \<equiv> 128"
abbreviation kXR_evict :: int where "kXR_evict \<equiv> 1"
abbreviation kXR_addPeers :: int where "kXR_addPeers \<equiv> 1"
abbreviation kXR_refreshLoc :: int where "kXR_refreshLoc \<equiv> 128"
abbreviation kXR_prefname :: int where "kXR_prefname \<equiv> 256"
abbreviation kXR_4dirlist :: int where "kXR_4dirlist \<equiv> 1024"
abbreviation kXR_nowaitLoc :: int where "kXR_nowaitLoc \<equiv> 8192"
abbreviation kXR_fattrDel :: int where "kXR_fattrDel \<equiv> 0"
abbreviation kXR_fattrGet :: int where "kXR_fattrGet \<equiv> 1"
abbreviation kXR_fattrList :: int where "kXR_fattrList \<equiv> 2"
abbreviation kXR_fattrSet :: int where "kXR_fattrSet \<equiv> 3"
abbreviation kXR_fattrMaxVars :: int where "kXR_fattrMaxVars \<equiv> 16"
abbreviation kXR_fattrIsNew :: int where "kXR_fattrIsNew \<equiv> 1"
abbreviation kXR_fattrAData :: int where "kXR_fattrAData \<equiv> 16"
abbreviation kXR_fattrRecurse :: int where "kXR_fattrRecurse \<equiv> 32"
abbreviation kXR_ckpBegin :: int where "kXR_ckpBegin \<equiv> 0"
abbreviation kXR_ckpCommit :: int where "kXR_ckpCommit \<equiv> 1"
abbreviation kXR_ckpQuery :: int where "kXR_ckpQuery \<equiv> 2"
abbreviation kXR_ckpRollback :: int where "kXR_ckpRollback \<equiv> 3"
abbreviation kXR_ckpXeq :: int where "kXR_ckpXeq \<equiv> 4"
abbreviation kXR_wv_doSync :: int where "kXR_wv_doSync \<equiv> 1"
abbreviation READ_LIST_ENTRY_LEN :: int where "READ_LIST_ENTRY_LEN \<equiv> 16"
abbreviation CLONE_ITEM_LEN :: int where "CLONE_ITEM_LEN \<equiv> 32"
abbreviation kXR_SHA256_sig :: int where "kXR_SHA256_sig \<equiv> 1"
abbreviation kXR_nodata_sig :: int where "kXR_nodata_sig \<equiv> 1"
abbreviation kXR_secOData :: int where "kXR_secOData \<equiv> 1"
abbreviation kXR_secNone :: int where "kXR_secNone \<equiv> 0"
abbreviation kXR_secCompatible :: int where "kXR_secCompatible \<equiv> 1"
abbreviation kXR_secStandard :: int where "kXR_secStandard \<equiv> 2"
abbreviation kXR_secIntense :: int where "kXR_secIntense \<equiv> 3"
abbreviation kXR_secPedantic :: int where "kXR_secPedantic \<equiv> 4"
abbreviation kXR_pgPageSZ :: int where "kXR_pgPageSZ \<equiv> 4096"
abbreviation kXR_pgUnitSZ :: int where "kXR_pgUnitSZ \<equiv> 4100"
abbreviation kXR_pgMaxEpr :: int where "kXR_pgMaxEpr \<equiv> 128"
abbreviation kXR_pgRetry :: int where "kXR_pgRetry \<equiv> 1"
abbreviation kXR_pgValid :: int where "kXR_pgValid \<equiv> 2"
abbreviation PGW_CSE_HDRLEN :: int where "PGW_CSE_HDRLEN \<equiv> 8"
abbreviation PGW_MAX_RETRY :: int where "PGW_MAX_RETRY \<equiv> 3"
abbreviation kXR_FinalResult :: int where "kXR_FinalResult \<equiv> 0"
abbreviation kXR_PartialResult :: int where "kXR_PartialResult \<equiv> 1"
abbreviation STATUS_HDR_LEN :: int where "STATUS_HDR_LEN \<equiv> 16"
abbreviation STATUS_BODY_LEN :: int where "STATUS_BODY_LEN \<equiv> 24"
abbreviation kXR_xset :: int where "kXR_xset \<equiv> 1"
abbreviation kXR_isDir :: int where "kXR_isDir \<equiv> 2"
abbreviation kXR_other :: int where "kXR_other \<equiv> 4"
abbreviation kXR_offline :: int where "kXR_offline \<equiv> 8"
abbreviation kXR_readable :: int where "kXR_readable \<equiv> 16"
abbreviation kXR_writable :: int where "kXR_writable \<equiv> 32"
abbreviation kXR_poscpend :: int where "kXR_poscpend \<equiv> 64"
abbreviation kXR_bkpexist :: int where "kXR_bkpexist \<equiv> 128"
abbreviation DEFAULT_PORT :: int where "DEFAULT_PORT \<equiv> 1094"
abbreviation REQUEST_HDRLEN :: int where "REQUEST_HDRLEN \<equiv> 24"
abbreviation RESPONSE_HDRLEN :: int where "RESPONSE_HDRLEN \<equiv> 8"
abbreviation FHANDLE_LEN :: int where "FHANDLE_LEN \<equiv> 4"
abbreviation MAX_FRAME_PAYLOAD :: int where "MAX_FRAME_PAYLOAD \<equiv> 2147483647"
abbreviation MAX_RESPONSE_BODY :: int where "MAX_RESPONSE_BODY \<equiv> 1073741824"

definition NULL_FHANDLE :: bytes where
  "NULL_FHANDLE = [0, 0, 0, 0]"

lemma length_NULL_FHANDLE [simp]: "length NULL_FHANDLE = 4"
  by (simp add: NULL_FHANDLE_def)

end
