(* ===== verification/Requests.thy ===== *)
theory Requests
  imports Wire_Buffer Wire_Constants
begin

text \<open>
  \<open>proto/requests.py\<close> and its area modules: one constructor per \<open>kXR_*\<close> encoder class,
  with the fields the source's \<open>__init__\<close> keeps, and one definition per hook the class
  overrides. \<open>params\<close> gives the writer chain of the 16 parameter bytes, \<open>header_params\<close>
  the bytes as they go on the wire (from a precomputed \<open>struct\<close> layout where the class has
  one), then the body, the data sent on a bound path, the trailer outside \<open>dlen\<close>, and the
  cap on the reply. The dispatchers at the end are the base class's hooks.

  \<open>StatVFS\<close> is a \<open>Stat\<close> with an option set and has no hooks of its own, so it is a
  function into \<open>Stat\<close>. \<open>__repr__\<close> is not modelled.
\<close>

unbundle bit_operations_syntax

datatype request =
    Protocol int
  | Login pystr int int pystr
  | Auth pystr bytes
  | Ping
  | EndSession bytes
  | Bind bytes
  | SetReq pystr
  | Sigver int int bytes int bool
  | Stat pystr int bytes
  | Statx "pystr list"
  | Dirlist pystr int
  | Locate pystr int
  | Mkdir pystr int bool
  | Rm pystr
  | Rmdir pystr
  | Mv pystr pystr
  | Symlink pystr pystr
  | Link pystr pystr
  | Readlink pystr
  | Setattr pystr int "int \<times> int" "int \<times> int" int int
  | Chmod pystr int
  | Truncate pystr int bytes
  | Query int str_or_bytes bytes
  | Prepare "pystr list" int int int int
  | Open pystr int int int bytes
  | Close bytes
  | Read bytes int int int
  | Write bytes int bytes int
  | Sync bytes
  | ReadV "(bytes \<times> int \<times> int) list" int
  | WriteV "(bytes \<times> int \<times> bytes) list" int
  | Clone bytes "(bytes \<times> int \<times> int \<times> int) list"
  | PgRead bytes int int int int
  | PgWrite bytes int bytes int int
  | ChkPoint bytes int bytes bytes
  | Fattr int bytes int int bytes

subsection \<open>Session requests (\<open>_requests_session.py\<close>)\<close>

definition Protocol_params :: "int \<Rightarrow> wcall list" where
  "Protocol_params flags = [U32 kXR_PROTOCOLVERSION, U8 flags, U8 kXR_ExpLogin, Zeros 10]"

definition Login_params :: "pystr \<Rightarrow> int \<Rightarrow> int \<Rightarrow> wcall list" where
  "Login_params username pid capver =
     [I32 pid, Padded (OfStr username) 8, Zeros 2, U8 capver, U8 0]"

text \<open>\<open>Login(username)\<close>: the process id is the caller's, \<open>capver\<close> defaults to version 5 with
  the asynchronous capability.\<close>

definition Login_default :: "int \<Rightarrow> pystr \<Rightarrow> request" where
  "Login_default getpid username = Login username getpid (kXR_ver005 OR kXR_asyncap) []"

definition Login_payload :: "pystr \<Rightarrow> bytes res" where
  "Login_payload token = encode_text token"

text \<open>\<open>Auth.__init__\<close> refuses a protocol name past the four-byte field.\<close>

definition Auth_init :: "pystr \<Rightarrow> bytes \<Rightarrow> request res" where
  "Auth_init credtype cred =
     rbind (encode_text credtype)
       (\<lambda>b. if length b > 4 then Inl ValueError else Inr (Auth credtype cred))"

definition Auth_params :: "pystr \<Rightarrow> wcall list" where
  "Auth_params credtype = [Zeros 12, Padded (OfStr credtype) 4]"

definition ZERO_PARAMS :: bytes where
  "ZERO_PARAMS = replicate 16 0"

definition Ping_header_params :: "bytes" where
  "Ping_header_params = ZERO_PARAMS"

definition EndSession_params :: "bytes \<Rightarrow> wcall list" where
  "EndSession_params sessid = [Padded (OfBytes sessid) 16]"

definition Bind_params :: "bytes \<Rightarrow> wcall list" where
  "Bind_params sessid = [Padded (OfBytes sessid) 16]"

definition Set_payload :: "pystr \<Rightarrow> bytes res" where
  "Set_payload data = encode_text data"

definition Sigver_params :: "int \<Rightarrow> int \<Rightarrow> int \<Rightarrow> bool \<Rightarrow> wcall list" where
  "Sigver_params expectrid seqno crypto nodata =
     [U16 expectrid, U8 0, U8 (if nodata then kXR_nodata_sig else 0), U64 seqno, U8 crypto, Zeros 3]"

subsection \<open>Namespace requests (\<open>_requests_ns.py\<close>)\<close>

definition encode_path :: "pystr \<Rightarrow> bytes res" where
  "encode_path path = encode_text path"

definition Stat_params :: "int \<Rightarrow> bytes \<Rightarrow> wcall list" where
  "Stat_params options fhandle = [U8 options, Zeros 11, Padded (OfBytes fhandle) 4]"

definition STAT_PARAMS :: "sfmt list" where
  "STAT_PARAMS = [FB, Fx 11, Fs 4]"

definition Stat_header_params :: "int \<Rightarrow> bytes \<Rightarrow> bytes res" where
  "Stat_header_params options fhandle = struct_pack STAT_PARAMS [SInt options, SBytes fhandle]"

definition StatVFS :: "pystr \<Rightarrow> request" where
  "StatVFS path = Stat path kXR_vfs NULL_FHANDLE"

definition Statx_payload :: "pystr list \<Rightarrow> bytes res" where
  "Statx_payload paths = encode_text (join [10] paths)"

definition Dirlist_params :: "int \<Rightarrow> wcall list" where
  "Dirlist_params options = [Zeros 15, U8 options]"

definition Locate_params :: "int \<Rightarrow> wcall list" where
  "Locate_params options = [U16 options, Zeros 14]"

definition Mkdir_params :: "int \<Rightarrow> bool \<Rightarrow> wcall list" where
  "Mkdir_params mode mkpath = [U8 (if mkpath then kXR_mkdirpath else 0), Zeros 13, U16 mode]"

definition Mv_params :: "pystr \<Rightarrow> wcall list res" where
  "Mv_params src = rbind (encode_text src) (\<lambda>b. Inr [Zeros 14, U16 (int (length b))])"

definition Mv_payload :: "pystr \<Rightarrow> pystr \<Rightarrow> bytes res" where
  "Mv_payload src dst = encode_text (src @ [32] @ dst)"

definition Setattr_payload ::
  "pystr \<Rightarrow> int \<Rightarrow> int \<times> int \<Rightarrow> int \<times> int \<Rightarrow> int \<Rightarrow> int \<Rightarrow> bytes res" where
  "Setattr_payload path flags atime mtime uid gid =
     rbind (Writer [I32 flags, I64 (fst atime), I64 (snd atime), I64 (fst mtime), I64 (snd mtime),
                    I32 uid, I32 gid])
       (\<lambda>w. rbind (encode_path path) (\<lambda>p. Inr (w @ p @ [0])))"

definition Chmod_params :: "int \<Rightarrow> wcall list" where
  "Chmod_params mode = [Zeros 14, U16 mode]"

definition Truncate_params :: "int \<Rightarrow> bytes \<Rightarrow> wcall list" where
  "Truncate_params size' fhandle = [Padded (OfBytes fhandle) 4, I64 size', Zeros 4]"

subsection \<open>Query and prepare (\<open>_requests_query.py\<close>)\<close>

definition Query_params :: "int \<Rightarrow> bytes \<Rightarrow> wcall list" where
  "Query_params infotype fhandle = [U16 infotype, Zeros 2, Padded (OfBytes fhandle) 4, Zeros 8]"

definition Query_payload :: "str_or_bytes \<Rightarrow> bytes res" where
  "Query_payload args = (case args of OfStr s \<Rightarrow> encode_text s | OfBytes b \<Rightarrow> Inr b)"

definition Prepare_params :: "int \<Rightarrow> int \<Rightarrow> int \<Rightarrow> int \<Rightarrow> wcall list" where
  "Prepare_params options priority port extended =
     [U8 options, U8 priority, U16 port, U16 extended, Zeros 10]"

definition Prepare_payload :: "pystr list \<Rightarrow> bytes res" where
  "Prepare_payload paths = encode_text (join [10] paths)"

subsection \<open>Open-file requests (\<open>_requests_io.py\<close>)\<close>

definition OPEN_WRITES :: int where
  "OPEN_WRITES = kXR_delete OR kXR_new OR kXR_open_updt OR kXR_open_wrto OR kXR_open_apnd"

definition Open_idempotent :: "int \<Rightarrow> bool" where
  "Open_idempotent options \<longleftrightarrow> options AND OPEN_WRITES = 0"

definition Open_params :: "int \<Rightarrow> int \<Rightarrow> int \<Rightarrow> bytes \<Rightarrow> wcall list" where
  "Open_params options mode optiont fhtemplt =
     [U16 mode, U16 options, U16 optiont, Zeros 6, Padded (OfBytes fhtemplt) 4]"

definition OPEN_PARAMS :: "sfmt list" where
  "OPEN_PARAMS = [FH, FH, FH, Fx 6, Fs 4]"

definition Open_header_params :: "int \<Rightarrow> int \<Rightarrow> int \<Rightarrow> bytes \<Rightarrow> bytes res" where
  "Open_header_params options mode optiont fhtemplt =
     struct_pack OPEN_PARAMS [SInt mode, SInt options, SInt optiont, SBytes fhtemplt]"

definition Close_params :: "bytes \<Rightarrow> wcall list" where
  "Close_params fhandle = [Padded (OfBytes fhandle) 4, Zeros 12]"

definition HANDLE_PARAMS :: "sfmt list" where
  "HANDLE_PARAMS = [Fs 4, Fx 12]"

definition Close_header_params :: "bytes \<Rightarrow> bytes res" where
  "Close_header_params fhandle = struct_pack HANDLE_PARAMS [SBytes fhandle]"

definition Read_params :: "bytes \<Rightarrow> int \<Rightarrow> int \<Rightarrow> wcall list" where
  "Read_params fhandle offset len = [Padded (OfBytes fhandle) 4, I64 offset, I32 len]"

definition READ_PARAMS :: "sfmt list" where
  "READ_PARAMS = [Fs 4, Fq, Fi]"

definition Read_header_params :: "bytes \<Rightarrow> int \<Rightarrow> int \<Rightarrow> bytes res" where
  "Read_header_params fhandle offset len =
     struct_pack READ_PARAMS [SBytes fhandle, SInt offset, SInt len]"

definition Read_payload :: "int \<Rightarrow> bytes res" where
  "Read_payload pathid = (if pathid \<noteq> 0 then Writer [U8 pathid, Zeros 7] else Inr [])"

definition Read_reply_cap :: "int \<Rightarrow> int" where
  "Read_reply_cap len = len"

definition Write_params :: "bytes \<Rightarrow> int \<Rightarrow> int \<Rightarrow> wcall list" where
  "Write_params fhandle offset pathid =
     [Padded (OfBytes fhandle) 4, I64 offset, U8 pathid, Zeros 3]"

definition WRITE_PARAMS :: "sfmt list" where
  "WRITE_PARAMS = [Fs 4, Fq, FB, Fx 3]"

definition Write_header_params :: "bytes \<Rightarrow> int \<Rightarrow> int \<Rightarrow> bytes res" where
  "Write_header_params fhandle offset pathid =
     struct_pack WRITE_PARAMS [SBytes fhandle, SInt offset, SInt pathid]"

definition Write_payload :: "bytes \<Rightarrow> int \<Rightarrow> bytes" where
  "Write_payload data pathid = (if pathid \<noteq> 0 then [] else data)"

definition Write_path_data :: "bytes \<Rightarrow> int \<Rightarrow> bytes" where
  "Write_path_data data pathid = (if pathid \<noteq> 0 then data else [])"

definition Sync_params :: "bytes \<Rightarrow> wcall list" where
  "Sync_params fhandle = [Padded (OfBytes fhandle) 4, Zeros 12]"

definition Sync_header_params :: "bytes \<Rightarrow> bytes res" where
  "Sync_header_params fhandle = struct_pack HANDLE_PARAMS [SBytes fhandle]"

definition ReadV_params :: "int \<Rightarrow> wcall list" where
  "ReadV_params pathid = [Zeros 15, U8 pathid]"

definition ReadV_payload :: "(bytes \<times> int \<times> int) list \<Rightarrow> bytes res" where
  "ReadV_payload chunks =
     Writer (concat (map (\<lambda>(fhandle, offset, len).
       [Padded (OfBytes fhandle) 4, I32 len, I64 offset]) chunks))"

definition ReadV_reply_cap :: "(bytes \<times> int \<times> int) list \<Rightarrow> int" where
  "ReadV_reply_cap chunks =
     READ_LIST_ENTRY_LEN * int (length chunks) + sum_list (map (\<lambda>(_, _, len). len) chunks)"

text \<open>\<open>WriteV.__init__\<close>: \<open>sync\<close> becomes the one option bit.\<close>

definition WriteV_init :: "(bytes \<times> int \<times> bytes) list \<Rightarrow> bool \<Rightarrow> request" where
  "WriteV_init chunks sync = WriteV chunks (if sync then kXR_wv_doSync else 0)"

definition WriteV_params :: "int \<Rightarrow> wcall list" where
  "WriteV_params options = [U8 options, Zeros 15]"

definition WriteV_payload :: "(bytes \<times> int \<times> bytes) list \<Rightarrow> bytes res" where
  "WriteV_payload chunks =
     Writer (concat (map (\<lambda>(fhandle, offset, data).
       [Padded (OfBytes fhandle) 4, I32 (int (length data)), I64 offset]) chunks))"

definition WriteV_trailer :: "(bytes \<times> int \<times> bytes) list \<Rightarrow> bytes" where
  "WriteV_trailer chunks = concat (map (\<lambda>(_, _, data). data) chunks)"

definition Clone_params :: "bytes \<Rightarrow> wcall list" where
  "Clone_params fhandle = [Padded (OfBytes fhandle) 4, Zeros 12]"

definition Clone_header_params :: "bytes \<Rightarrow> bytes res" where
  "Clone_header_params fhandle = struct_pack HANDLE_PARAMS [SBytes fhandle]"

definition Clone_payload :: "(bytes \<times> int \<times> int \<times> int) list \<Rightarrow> bytes res" where
  "Clone_payload items =
     Writer (concat (map (\<lambda>(source, offset, len, target).
       [Padded (OfBytes source) 4, Zeros 4, I64 offset, I64 len, I64 target]) items))"

definition PgRead_init :: "bytes \<Rightarrow> int \<Rightarrow> int \<Rightarrow> bool \<Rightarrow> int \<Rightarrow> request" where
  "PgRead_init fhandle offset len retry pathid =
     PgRead fhandle offset len (if retry then kXR_pgRetry else 0) pathid"

definition PgRead_params :: "bytes \<Rightarrow> int \<Rightarrow> int \<Rightarrow> wcall list" where
  "PgRead_params fhandle offset len = [Padded (OfBytes fhandle) 4, I64 offset, I32 len]"

definition PgRead_header_params :: "bytes \<Rightarrow> int \<Rightarrow> int \<Rightarrow> bytes res" where
  "PgRead_header_params fhandle offset len =
     struct_pack READ_PARAMS [SBytes fhandle, SInt offset, SInt len]"

definition PgRead_payload :: "int \<Rightarrow> int \<Rightarrow> bytes res" where
  "PgRead_payload reqflags pathid =
     (if reqflags = 0 \<and> pathid = 0 then Inr [] else Writer [U8 pathid, U8 reqflags, Zeros 2])"

definition PgRead_reply_cap :: "int \<Rightarrow> int \<Rightarrow> int" where
  "PgRead_reply_cap offset len =
     (let pages = - ((- (offset mod kXR_pgPageSZ + len)) div kXR_pgPageSZ)
      in len + (kXR_pgUnitSZ - kXR_pgPageSZ) * pages)"

definition PgWrite_init :: "bytes \<Rightarrow> int \<Rightarrow> bytes \<Rightarrow> bool \<Rightarrow> int \<Rightarrow> request" where
  "PgWrite_init fhandle offset data retry pathid =
     PgWrite fhandle offset data (if retry then kXR_pgRetry else 0) pathid"

definition PgWrite_params :: "bytes \<Rightarrow> int \<Rightarrow> int \<Rightarrow> int \<Rightarrow> wcall list" where
  "PgWrite_params fhandle offset reqflags pathid =
     [Padded (OfBytes fhandle) 4, I64 offset, U8 pathid, U8 reqflags, Zeros 2]"

definition PgWrite_payload :: "bytes \<Rightarrow> int \<Rightarrow> bytes" where
  "PgWrite_payload data pathid = (if pathid \<noteq> 0 then [] else data)"

definition PgWrite_path_data :: "bytes \<Rightarrow> int \<Rightarrow> bytes" where
  "PgWrite_path_data data pathid = (if pathid \<noteq> 0 then data else [])"

definition PgWrite_reply_cap :: "bytes \<Rightarrow> int" where
  "PgWrite_reply_cap data =
     (let pages = - ((- int (length data)) div kXR_pgUnitSZ) + 1
      in PGW_CSE_HDRLEN + 8 * pages)"

definition ChkPoint_params :: "bytes \<Rightarrow> int \<Rightarrow> wcall list" where
  "ChkPoint_params fhandle subcode = [Padded (OfBytes fhandle) 4, Zeros 11, U8 subcode]"

definition Fattr_idempotent :: "int \<Rightarrow> bool" where
  "Fattr_idempotent subcode \<longleftrightarrow> subcode = kXR_fattrGet \<or> subcode = kXR_fattrList"

definition Fattr_params :: "int \<Rightarrow> int \<Rightarrow> int \<Rightarrow> bytes \<Rightarrow> wcall list" where
  "Fattr_params subcode numattr options fhandle =
     [Padded (OfBytes fhandle) 4, U8 subcode, U8 numattr, U8 options, Zeros 9]"

definition Fattr_path_name :: "pystr \<Rightarrow> pystr \<Rightarrow> bytes res" where
  "Fattr_path_name path name = Writer [Text path True, U16 0, Text name True]"

definition Fattr_get :: "pystr \<Rightarrow> pystr \<Rightarrow> bytes \<Rightarrow> request res" where
  "Fattr_get path name fhandle =
     rbind (Fattr_path_name path name) (\<lambda>body. Inr (Fattr kXR_fattrGet body 1 0 fhandle))"

definition Fattr_delete :: "pystr \<Rightarrow> pystr \<Rightarrow> bytes \<Rightarrow> request res" where
  "Fattr_delete path name fhandle =
     rbind (Fattr_path_name path name) (\<lambda>body. Inr (Fattr kXR_fattrDel body 1 0 fhandle))"

definition Fattr_set :: "pystr \<Rightarrow> pystr \<Rightarrow> bytes \<Rightarrow> bool \<Rightarrow> bytes \<Rightarrow> request res" where
  "Fattr_set path name value create_only fhandle =
     rbind (Fattr_path_name path name) (\<lambda>names.
     rbind (Writer [U32 (int (length value)), Raw value]) (\<lambda>vals.
       Inr (Fattr kXR_fattrSet (names @ vals) 1 (if create_only then kXR_fattrIsNew else 0) fhandle)))"

definition Fattr_list :: "pystr \<Rightarrow> bool \<Rightarrow> bytes \<Rightarrow> bool \<Rightarrow> request res" where
  "Fattr_list path values fhandle recurse =
     rbind (Writer [Text path True]) (\<lambda>body.
       Inr (Fattr kXR_fattrList body 0
         ((if values then kXR_fattrAData else 0) OR (if recurse then kXR_fattrRecurse else 0))
         fhandle))"

subsection \<open>The hooks of every request (\<open>frames.Request\<close>)\<close>

fun opcode :: "request \<Rightarrow> int" where
  "opcode (Protocol _) = kXR_protocol"
| "opcode (Login _ _ _ _) = kXR_login"
| "opcode (Auth _ _) = kXR_auth"
| "opcode Ping = kXR_ping"
| "opcode (EndSession _) = kXR_endsess"
| "opcode (Bind _) = kXR_bind"
| "opcode (SetReq _) = kXR_set"
| "opcode (Sigver _ _ _ _ _) = kXR_sigver"
| "opcode (Stat _ _ _) = kXR_stat"
| "opcode (Statx _) = kXR_statx"
| "opcode (Dirlist _ _) = kXR_dirlist"
| "opcode (Locate _ _) = kXR_locate"
| "opcode (Mkdir _ _ _) = kXR_mkdir"
| "opcode (Rm _) = kXR_rm"
| "opcode (Rmdir _) = kXR_rmdir"
| "opcode (Mv _ _) = kXR_mv"
| "opcode (Symlink _ _) = kXR_symlink"
| "opcode (Link _ _) = kXR_link"
| "opcode (Readlink _) = kXR_readlink"
| "opcode (Setattr _ _ _ _ _ _) = kXR_setattr"
| "opcode (Chmod _ _) = kXR_chmod"
| "opcode (Truncate _ _ _) = kXR_truncate"
| "opcode (Query _ _ _) = kXR_query"
| "opcode (Prepare _ _ _ _ _) = kXR_prepare"
| "opcode (Open _ _ _ _ _) = kXR_open"
| "opcode (Close _) = kXR_close"
| "opcode (Read _ _ _ _) = kXR_read"
| "opcode (Write _ _ _ _) = kXR_write"
| "opcode (Sync _) = kXR_sync"
| "opcode (ReadV _ _) = kXR_readv"
| "opcode (WriteV _ _) = kXR_writev"
| "opcode (Clone _ _) = kXR_clone"
| "opcode (PgRead _ _ _ _ _) = kXR_pgread"
| "opcode (PgWrite _ _ _ _ _) = kXR_pgwrite"
| "opcode (ChkPoint _ _ _ _) = kXR_chkpoint"
| "opcode (Fattr _ _ _ _ _) = kXR_fattr"

definition params :: "request \<Rightarrow> wcall list res" where
  "params req =
     (case req of
        Protocol flags \<Rightarrow> Inr (Protocol_params flags)
      | Login username pid capver token \<Rightarrow> Inr (Login_params username pid capver)
      | Auth credtype cred \<Rightarrow> Inr (Auth_params credtype)
      | EndSession sessid \<Rightarrow> Inr (EndSession_params sessid)
      | Bind sessid \<Rightarrow> Inr (Bind_params sessid)
      | Sigver expectrid seqno signature crypto nodata \<Rightarrow>
           Inr (Sigver_params expectrid seqno crypto nodata)
      | Stat path options fhandle \<Rightarrow> Inr (Stat_params options fhandle)
      | Dirlist path options \<Rightarrow> Inr (Dirlist_params options)
      | Locate path options \<Rightarrow> Inr (Locate_params options)
      | Mkdir path mode mkpath \<Rightarrow> Inr (Mkdir_params mode mkpath)
      | Mv src dst \<Rightarrow> Mv_params src
      | Symlink src dst \<Rightarrow> Mv_params src
      | Link src dst \<Rightarrow> Mv_params src
      | Chmod path mode \<Rightarrow> Inr (Chmod_params mode)
      | Truncate path size' fhandle \<Rightarrow> Inr (Truncate_params size' fhandle)
      | Query infotype args fhandle \<Rightarrow> Inr (Query_params infotype fhandle)
      | Prepare paths options priority port extended \<Rightarrow>
           Inr (Prepare_params options priority port extended)
      | Open path options mode optiont fhtemplt \<Rightarrow>
          Inr (Open_params options mode optiont fhtemplt)
      | Close fhandle \<Rightarrow> Inr (Close_params fhandle)
      | Read fhandle offset len pathid \<Rightarrow> Inr (Read_params fhandle offset len)
      | Write fhandle offset data pathid \<Rightarrow> Inr (Write_params fhandle offset pathid)
      | Sync fhandle \<Rightarrow> Inr (Sync_params fhandle)
      | ReadV chunks pathid \<Rightarrow> Inr (ReadV_params pathid)
      | WriteV chunks options \<Rightarrow> Inr (WriteV_params options)
      | Clone fhandle items \<Rightarrow> Inr (Clone_params fhandle)
      | PgRead fhandle offset len reqflags pathid \<Rightarrow> Inr (PgRead_params fhandle offset len)
      | PgWrite fhandle offset data reqflags pathid \<Rightarrow>
           Inr (PgWrite_params fhandle offset reqflags pathid)
      | ChkPoint fhandle subcode data tail \<Rightarrow> Inr (ChkPoint_params fhandle subcode)
      | Fattr subcode body numattr options fhandle \<Rightarrow>
           Inr (Fattr_params subcode numattr options fhandle)
      | _ \<Rightarrow> Inr [Zeros 16])"

definition default_header_params :: "request \<Rightarrow> bytes res" where
  "default_header_params req = rbind (params req) Writer"

definition header_params :: "request \<Rightarrow> bytes res" where
  "header_params req =
     (case req of
        Ping \<Rightarrow> Inr Ping_header_params
      | Stat path options fhandle \<Rightarrow> Stat_header_params options fhandle
      | Open path options mode optiont fhtemplt \<Rightarrow>
           Open_header_params options mode optiont fhtemplt
      | Close fhandle \<Rightarrow> Close_header_params fhandle
      | Read fhandle offset len pathid \<Rightarrow> Read_header_params fhandle offset len
      | Write fhandle offset data pathid \<Rightarrow> Write_header_params fhandle offset pathid
      | Sync fhandle \<Rightarrow> Sync_header_params fhandle
      | Clone fhandle items \<Rightarrow> Clone_header_params fhandle
      | PgRead fhandle offset len reqflags pathid \<Rightarrow>
          PgRead_header_params fhandle offset len
      | _ \<Rightarrow> default_header_params req)"

definition payload :: "request \<Rightarrow> bytes res" where
  "payload req =
     (case req of
        Login username pid capver token \<Rightarrow> Login_payload token
      | Auth credtype cred \<Rightarrow> Inr cred
      | SetReq data \<Rightarrow> Set_payload data
      | Sigver expectrid seqno signature crypto nodata \<Rightarrow> Inr signature
      | Stat path options fhandle \<Rightarrow> encode_path path
      | Statx paths \<Rightarrow> Statx_payload paths
      | Dirlist path options \<Rightarrow> encode_path path
      | Locate path options \<Rightarrow> encode_path path
      | Mkdir path mode mkpath \<Rightarrow> encode_path path
      | Rm path \<Rightarrow> encode_path path
      | Rmdir path \<Rightarrow> encode_path path
      | Mv src dst \<Rightarrow> Mv_payload src dst
      | Symlink src dst \<Rightarrow> Mv_payload src dst
      | Link src dst \<Rightarrow> Mv_payload src dst
      | Readlink path \<Rightarrow> encode_path path
      | Setattr path flags atime mtime uid gid \<Rightarrow>
          Setattr_payload path flags atime mtime uid gid
      | Chmod path mode \<Rightarrow> encode_path path
      | Truncate path size' fhandle \<Rightarrow> encode_path path
      | Query infotype args fhandle \<Rightarrow> Query_payload args
      | Prepare paths options priority port extended \<Rightarrow> Prepare_payload paths
      | Open path options mode optiont fhtemplt \<Rightarrow> encode_path path
      | Read fhandle offset len pathid \<Rightarrow> Read_payload pathid
      | Write fhandle offset data pathid \<Rightarrow> Inr (Write_payload data pathid)
      | ReadV chunks pathid \<Rightarrow> ReadV_payload chunks
      | WriteV chunks options \<Rightarrow> WriteV_payload chunks
      | Clone fhandle items \<Rightarrow> Clone_payload items
      | PgRead fhandle offset len reqflags pathid \<Rightarrow> PgRead_payload reqflags pathid
      | PgWrite fhandle offset data reqflags pathid \<Rightarrow> Inr (PgWrite_payload data pathid)
      | ChkPoint fhandle subcode data tail \<Rightarrow> Inr data
      | Fattr subcode body numattr options fhandle \<Rightarrow> Inr body
      | _ \<Rightarrow> Inr [])"

definition path_data :: "request \<Rightarrow> bytes" where
  "path_data req =
     (case req of
        Write fhandle offset data pathid \<Rightarrow> Write_path_data data pathid
      | PgWrite fhandle offset data reqflags pathid \<Rightarrow> PgWrite_path_data data pathid
      | _ \<Rightarrow> [])"

definition reply_cap :: "request \<Rightarrow> int" where
  "reply_cap req =
     (case req of
        Read fhandle offset len pathid \<Rightarrow> Read_reply_cap len
      | ReadV chunks pathid \<Rightarrow> ReadV_reply_cap chunks
      | PgRead fhandle offset len reqflags pathid \<Rightarrow> PgRead_reply_cap offset len
      | PgWrite fhandle offset data reqflags pathid \<Rightarrow> PgWrite_reply_cap data
      | _ \<Rightarrow> 0)"

definition trailer :: "request \<Rightarrow> bytes" where
  "trailer req =
     (case req of
        WriteV chunks options \<Rightarrow> WriteV_trailer chunks
      | ChkPoint fhandle subcode data tail \<Rightarrow> tail
      | _ \<Rightarrow> [])"

definition req_pathid :: "request \<Rightarrow> int" where
  "req_pathid req =
     (case req of
        Read fhandle offset len pathid \<Rightarrow> pathid
      | Write fhandle offset data pathid \<Rightarrow> pathid
      | ReadV chunks pathid \<Rightarrow> pathid
      | PgRead fhandle offset len reqflags pathid \<Rightarrow> pathid
      | PgWrite fhandle offset data reqflags pathid \<Rightarrow> pathid
      | _ \<Rightarrow> 0)"

definition signed :: "request \<Rightarrow> bool" where
  "signed req =
     (case req of
        SetReq _ \<Rightarrow> True
      | Mkdir _ _ _ \<Rightarrow> True
      | Rm _ \<Rightarrow> True
      | Rmdir _ \<Rightarrow> True
      | Mv _ _ \<Rightarrow> True
      | Symlink _ _ \<Rightarrow> True
      | Link _ _ \<Rightarrow> True
      | Readlink _ \<Rightarrow> True
      | Setattr _ _ _ _ _ _ \<Rightarrow> True
      | Chmod _ _ \<Rightarrow> True
      | Truncate _ _ _ \<Rightarrow> True
      | Prepare _ _ _ _ _ \<Rightarrow> True
      | Open _ _ _ _ _ \<Rightarrow> True
      | Write _ _ _ _ \<Rightarrow> True
      | WriteV _ _ \<Rightarrow> True
      | Clone _ _ \<Rightarrow> True
      | PgWrite _ _ _ _ _ \<Rightarrow> True
      | ChkPoint _ _ _ _ \<Rightarrow> True
      | Fattr _ _ _ _ _ \<Rightarrow> True
      | _ \<Rightarrow> False)"

definition idempotent :: "request \<Rightarrow> bool" where
  "idempotent req =
     (case req of
        Auth _ _ \<Rightarrow> False
      | EndSession _ \<Rightarrow> False
      | Bind _ \<Rightarrow> False
      | SetReq _ \<Rightarrow> False
      | Mkdir _ _ _ \<Rightarrow> False
      | Rm _ \<Rightarrow> False
      | Rmdir _ \<Rightarrow> False
      | Mv _ _ \<Rightarrow> False
      | Symlink _ _ \<Rightarrow> False
      | Link _ _ \<Rightarrow> False
      | Setattr _ _ _ _ _ _ \<Rightarrow> False
      | Chmod _ _ \<Rightarrow> False
      | Truncate _ _ _ \<Rightarrow> False
      | Prepare _ _ _ _ _ \<Rightarrow> False
      | Open _ options _ _ _ \<Rightarrow> Open_idempotent options
      | Close _ \<Rightarrow> False
      | Write _ _ _ _ \<Rightarrow> False
      | Sync _ \<Rightarrow> False
      | WriteV _ _ \<Rightarrow> False
      | Clone _ _ \<Rightarrow> False
      | PgWrite _ _ _ _ _ \<Rightarrow> False
      | ChkPoint _ _ _ _ \<Rightarrow> False
      | Fattr subcode _ _ _ _ \<Rightarrow> Fattr_idempotent subcode
      | _ \<Rightarrow> True)"

definition reply_on_path :: "request \<Rightarrow> bool" where
  "reply_on_path req =
     (case req of
        Read _ _ _ _ \<Rightarrow> True
      | ReadV _ _ \<Rightarrow> True
      | PgRead _ _ _ _ _ \<Rightarrow> True
      | _ \<Rightarrow> False)"

lemmas params_defs =
  Protocol_params_def Login_params_def Auth_params_def EndSession_params_def Bind_params_def
  Sigver_params_def Stat_params_def Dirlist_params_def Locate_params_def Mkdir_params_def
  Mv_params_def Chmod_params_def Truncate_params_def Query_params_def Prepare_params_def
  Open_params_def Close_params_def Read_params_def Write_params_def Sync_params_def
  ReadV_params_def WriteV_params_def Clone_params_def PgRead_params_def PgWrite_params_def
  ChkPoint_params_def Fattr_params_def

lemmas header_params_defs =
  Ping_header_params_def ZERO_PARAMS_def Stat_header_params_def STAT_PARAMS_def
  Open_header_params_def OPEN_PARAMS_def Close_header_params_def HANDLE_PARAMS_def
  Read_header_params_def READ_PARAMS_def Write_header_params_def WRITE_PARAMS_def
  Sync_header_params_def Clone_header_params_def PgRead_header_params_def

lemmas w_defs =
  w_u8_def w_u16_def w_u32_def w_i32_def w_u64_def w_i64_def w_raw_def w_text_def w_zeros_def
  w_padded_def

subsection \<open>Every layout is sixteen bytes, and the fast layouts agree with it\<close>

lemma params_width: "params req = Inr cs \<Longrightarrow> layout_width cs = Some 16"
  by (cases req) (auto simp: params_def params_defs rbind_eq_Inr)

lemma header_params_agree: "header_params req = rbind (params req) Writer"
  by (cases req)
     (simp_all add: header_params_def params_def default_header_params_def header_params_defs params_defs Writer_def w_defs
        rbind_assoc)

lemma header_params_length: "header_params req = Inr ps \<Longrightarrow> length ps = 16"
  by (auto simp: header_params_agree rbind_eq_Inr Writer_def dest!: params_width w_run_width)

end
