(* ===== verification/Frames.thy ===== *)
theory Frames
  imports Requests
begin

text \<open>
  \<open>proto/frames.py\<close>: turning a request into the buffers that go on the wire, and reading
  the 8-byte response header. Both size limits are enforced here. \<open>ChkPoint.execute\<close>, which
  embeds an encoded request in another, is here because it calls \<open>encode\<close>.
\<close>

definition HANDSHAKE :: bytes where
  "HANDSHAKE = replicate 12 0 @ be_enc 4 4 @ be_enc 4 2012"

definition HDR :: "sfmt list" where
  "HDR = [FH, FH, Fs 16, FI]"

definition INLINE :: nat where
  "INLINE = 4096"

definition encode_parts :: "request \<Rightarrow> int \<Rightarrow> bytes list res" where
  "encode_parts req streamid =
     rbind (header_params req) (\<lambda>ps.
     if length ps \<noteq> 16 then Inl ProtocolError
     else rbind (payload req) (\<lambda>body.
       let tr = trailer req; dlen = int (length body) + int (length (path_data req))
       in if dlen > MAX_FRAME_PAYLOAD then Inl ProtocolError
          else rbind (struct_pack HDR
                 [SInt (streamid mod 65536), SInt (opcode req), SBytes ps, SInt dlen]) (\<lambda>head.
            Inr (if length body + length tr \<le> INLINE
                 then [if body \<noteq> [] \<or> tr \<noteq> [] then head @ body @ tr else head]
                 else [head] @ (if body \<noteq> [] then [body] else []) @ (if tr \<noteq> [] then [tr] else [])))))"

definition encode :: "request \<Rightarrow> int \<Rightarrow> bytes res" where
  "encode req streamid = rbind (encode_parts req streamid) (\<lambda>parts. Inr (concat parts))"

text \<open>\<open>ChkPoint.execute\<close>: the embedded header is the counted payload, its data the trailer.\<close>

definition EXECUTABLE :: "int set" where
  "EXECUTABLE = {kXR_write, kXR_pgwrite, kXR_truncate}"

definition ChkPoint_execute :: "bytes \<Rightarrow> request \<Rightarrow> request res" where
  "ChkPoint_execute fhandle inner =
     (if opcode inner \<notin> EXECUTABLE then Inl ProtocolError
      else rbind (encode inner 0) (\<lambda>frame.
        Inr (ChkPoint fhandle kXR_ckpXeq (py_take REQUEST_HDRLEN frame) (py_drop REQUEST_HDRLEN frame))))"

subsection \<open>Response headers\<close>

record response_header =
  rh_streamid :: int
  rh_status :: int
  rh_dlen :: int

definition header_fields :: "bytes \<Rightarrow> nat \<Rightarrow> (int \<times> int \<times> int) res" where
  "header_fields data offset =
     (if length data < offset + 8 then Inl StructError
      else let streamid = int (be_dec (take 2 (drop offset data)));
               status = int (be_dec (take 2 (drop (offset + 2) data)));
               dlen = int (be_dec (take 4 (drop (offset + 4) data)))
           in if dlen > MAX_RESPONSE_BODY then Inl ProtocolError
              else Inr (streamid, status, dlen))"

definition decode_header :: "bytes \<Rightarrow> response_header res" where
  "decode_header data =
     (if int (length data) < RESPONSE_HDRLEN then Inl ProtocolError
      else rbind (header_fields data 0) (\<lambda>(sid, st, dl).
        Inr \<lparr>rh_streamid = sid, rh_status = st, rh_dlen = dl\<rparr>))"

subsection \<open>The peer's half of the two headers\<close>

text \<open>
  What a server does with a request header (\<open>ClientRequestHdr\<close>) and how it writes a response
  header (\<open>ServerResponseHdr\<close>), as the module's documentation lays them out. They are the
  reference the encoders and decoders are measured against.
\<close>

definition server_request_header :: "bytes \<Rightarrow> int \<times> int \<times> bytes \<times> int" where
  "server_request_header f =
     (int (be_dec (take 2 f)), int (be_dec (take 2 (drop 2 f))), take 16 (drop 4 f),
      int (be_dec (take 4 (drop 20 f))))"

definition server_frame :: "nat \<Rightarrow> nat \<Rightarrow> bytes \<Rightarrow> bytes" where
  "server_frame sid status body = be_enc 2 sid @ be_enc 2 status @ be_enc 4 (length body) @ body"

subsection \<open>Lemmas\<close>

lemma opcode_range: "0 \<le> opcode req \<and> opcode req < 65536"
  by (cases req) auto

lemma HDR_pack:
  assumes "length ps = 16" and "0 \<le> dlen" and "dlen < 4294967296"
  shows "struct_pack HDR [SInt (sid mod 65536), SInt (opcode req), SBytes ps, SInt dlen]
     = Inr (be_enc 2 (nat (sid mod 65536)) @ be_enc 2 (nat (opcode req)) @ ps @ be_enc 4 (nat dlen))"
  using assms opcode_range [of req]
  by (simp add: HDR_def pack_u_def pad_field_id)

text \<open>What \<open>encode_parts\<close> returns, in one equation: the layouts are always sixteen bytes, so
  the only failures are a value out of range, unencodable text, or a payload past the
  protocol's maximum.\<close>

lemma encode_parts_unfold:
  assumes "header_params req = Inr ps" and "payload req = Inr body"
    and "int (length body) + int (length (path_data req)) \<le> MAX_FRAME_PAYLOAD"
  shows "\<exists>parts. encode_parts req sid = Inr parts \<and>
    concat parts = be_enc 2 (nat (sid mod 65536)) @ be_enc 2 (nat (opcode req)) @ ps
       @ be_enc 4 (length body + length (path_data req)) @ body @ trailer req"
proof -
  have n: "nat (int (length body) + int (length (path_data req))) = length body + length (path_data req)"
    by simp
  have p: "length ps = 16" using assms(1) by (rule header_params_length)
  show ?thesis using assms p n by (auto simp: encode_parts_def HDR_pack Let_def)
qed

lemma encode_parts_cases:
  assumes "encode_parts req sid = Inr parts"
  obtains ps body where "header_params req = Inr ps" "payload req = Inr body"
    "int (length body) + int (length (path_data req)) \<le> MAX_FRAME_PAYLOAD"
  using assms by (auto simp: encode_parts_def rbind_eq_Inr Let_def split: if_splits)

lemma encode_frame:
  assumes "encode req sid = Inr frame"
  obtains ps body where "header_params req = Inr ps" "payload req = Inr body"
    "frame = be_enc 2 (nat (sid mod 65536)) @ be_enc 2 (nat (opcode req)) @ ps
       @ be_enc 4 (length body + length (path_data req)) @ body @ trailer req"
    "length body + length (path_data req) < 256 ^ 4" "length ps = 16"
proof -
  obtain parts where parts: "encode_parts req sid = Inr parts" "frame = concat parts"
    using assms by (auto simp: encode_def rbind_eq_Inr)
  obtain ps body where pb: "header_params req = Inr ps" "payload req = Inr body"
    "int (length body) + int (length (path_data req)) \<le> MAX_FRAME_PAYLOAD"
    using parts(1) by (rule encode_parts_cases)
  show ?thesis
    using encode_parts_unfold [OF pb, of sid] parts that [OF pb(1,2)] pb(3)
      header_params_length [OF pb(1)] by auto
qed

lemma encode_ok:
  assumes "header_params req = Inr ps" and "payload req = Inr body"
    and "int (length body) + int (length (path_data req)) \<le> MAX_FRAME_PAYLOAD"
  shows "encode req sid = Inr (be_enc 2 (nat (sid mod 65536)) @ be_enc 2 (nat (opcode req)) @ ps
       @ be_enc 4 (length body + length (path_data req)) @ body @ trailer req)"
  using encode_parts_unfold [OF assms, of sid] by (auto simp: encode_def)

lemma header_fields_frame:
  assumes "sid < 65536" "status < 65536" "int (length body) \<le> MAX_RESPONSE_BODY"
  shows "header_fields (server_frame sid status body @ rest) 0
     = Inr (int sid, int status, int (length body))"
proof -
  have "be_dec (be_enc 2 sid) = sid" "be_dec (be_enc 2 status) = status"
    "be_dec (be_enc 4 (length body)) = length body"
    using assms by (simp_all add: be_dec_enc)
  then show ?thesis using assms by (simp add: header_fields_def server_frame_def Let_def)
qed

lemma header_fields_prefix:
  "header_fields data offset = Inr h \<Longrightarrow> header_fields (data @ xs) offset = Inr h"
  by (auto simp: header_fields_def Let_def split: if_splits)

lemma header_fields_append:
  "8 \<le> length data \<Longrightarrow> header_fields (data @ xs) 0 = header_fields data 0"
  by (auto simp: header_fields_def Let_def)

lemma header_fields_bounds:
  "header_fields data offset = Inr (sid, status, dlen) \<Longrightarrow>
   0 \<le> sid \<and> sid < 65536 \<and> 0 \<le> status \<and> 0 \<le> dlen \<and> dlen \<le> MAX_RESPONSE_BODY"
  using be_dec_bound [of "take 2 (drop offset data)"]
  by (auto simp: header_fields_def Let_def split: if_splits)

lemma encode_text_append:
  "encode_text (s @ t) = rbind (encode_text s) (\<lambda>a. rbind (encode_text t) (\<lambda>b. Inr (a @ b)))"
  by (simp add: encode_text_def utf8_encode_def)

lemma encode_text_space: "encode_text (32 # t) = rbind (encode_text t) (\<lambda>b. Inr (32 # b))"
  by (simp add: encode_text_def utf8_encode_def utf8_char_def surrogate_def)

lemma server_request_header_frame:
  assumes "length ps = 16" "o' < 65536" "n < 256 ^ 4" "s < 65536"
  shows "server_request_header (be_enc 2 s @ be_enc 2 o' @ ps @ be_enc 4 n @ rest)
    = (int s, int o', ps, int n)"
  using assms by (simp add: server_request_header_def be_dec_enc)

subsection \<open>Properties\<close>

text \<open>C16: the precomputed \<open>struct\<close> layouts of the hot requests (\<open>Stat\<close>, \<open>Open\<close>, \<open>Close\<close>,
  \<open>Read\<close>, \<open>Write\<close>, \<open>Sync\<close>, \<open>Clone\<close>, \<open>PgRead\<close>, \<open>Ping\<close>) write the same sixteen bytes as the
  field-by-field writer, and raise the same error when a field is out of range.\<close>

theorem fast_layout_equals_writer:
  "header_params req = default_header_params req \<and>
   (\<forall>ps. header_params req = Inr ps \<longrightarrow> length ps = 16)"
  using header_params_agree header_params_length by (simp add: default_header_params_def)

theorem fast_layout_equals_writer_witness:
  "length ([0, 0, 0, 9] @ [0, 0, 0, 0, 0, 0, 16, 0] @ [0, 0, 1, 0 :: byte]) = 16"
proof -
  have "header_params (Read [0, 0, 0, 9] 4096 256 0)
      = Inr ([0, 0, 0, 9] @ [0, 0, 0, 0, 0, 0, 16, 0] @ [0, 0, 1, 0])"
    by code_simp
  with fast_layout_equals_writer [of "Read [0, 0, 0, 9] 4096 256 0"] show ?thesis by blast
qed

text \<open>C15: what \<open>encode\<close> puts on the wire is what a server reads off it: the stream id, the
  opcode, the sixteen parameter bytes of the request's writer, a length that counts the
  body and the data routed over a bound path, then exactly the body and the trailer.\<close>

theorem encode_read_by_server:
  assumes "encode req sid = Inr frame"
  shows "\<exists>ps body. default_header_params req = Inr ps \<and> payload req = Inr body \<and>
    server_request_header frame
      = (sid mod 65536, opcode req, ps, int (length body) + int (length (path_data req))) \<and>
    drop 24 frame = body @ trailer req"
proof -
  obtain ps body where f: "header_params req = Inr ps" "payload req = Inr body"
    "frame = be_enc 2 (nat (sid mod 65536)) @ be_enc 2 (nat (opcode req)) @ ps
       @ be_enc 4 (length body + length (path_data req)) @ body @ trailer req"
    "length body + length (path_data req) < 256 ^ 4" "length ps = 16"
    using assms by (rule encode_frame)
  have "server_request_header frame
      = (sid mod 65536, opcode req, ps, int (length body) + int (length (path_data req)))"
    using f opcode_range [of req] by (simp add: server_request_header_frame nat_less_iff)
  moreover have "drop 24 frame = body @ trailer req" using f by simp
  ultimately show ?thesis
    using f(1,2) header_params_agree by (metis default_header_params_def)
qed

theorem encode_read_by_server_witness:
  "\<exists>ps body. default_header_params Ping = Inr ps \<and> payload Ping = Inr body \<and>
    server_request_header ([0, 4, 11, 195] @ replicate 20 0)
      = (4 mod 65536, opcode Ping, ps, int (length body) + int (length (path_data Ping))) \<and>
    drop 24 ([0, 4, 11, 195] @ replicate 20 0) = body @ trailer Ping"
proof -
  have "encode Ping 4 = Inr ([0, 4, 11, 195] @ replicate 20 0)"
    by code_simp
  then show ?thesis by (rule encode_read_by_server)
qed

text \<open>C29: when encoding fails and when it does not: a request goes out exactly when its
  fields fit their widths, its text encodes, and the payload is within the protocol's
  maximum. The check that a layout is sixteen bytes never fires.\<close>

theorem encode_succeeds_iff:
  "(\<exists>frame. encode req sid = Inr frame) \<longleftrightarrow>
   (\<exists>ps body. default_header_params req = Inr ps \<and> payload req = Inr body \<and>
      int (length body) + int (length (path_data req)) \<le> MAX_FRAME_PAYLOAD)"
proof
  assume "\<exists>frame. encode req sid = Inr frame"
  then obtain parts where "encode_parts req sid = Inr parts"
    by (auto simp: encode_def rbind_eq_Inr)
  then show "\<exists>ps body. default_header_params req = Inr ps \<and> payload req = Inr body \<and>
      int (length body) + int (length (path_data req)) \<le> MAX_FRAME_PAYLOAD"
    by (rule encode_parts_cases)
       (metis header_params_agree default_header_params_def)
next
  assume "\<exists>ps body. default_header_params req = Inr ps \<and> payload req = Inr body \<and>
      int (length body) + int (length (path_data req)) \<le> MAX_FRAME_PAYLOAD"
  then show "\<exists>frame. encode req sid = Inr frame"
    using encode_parts_unfold [of req _ _ sid] header_params_agree [of req]
    by (fastforce simp: encode_def rbind_eq_Inr default_header_params_def)
qed

text \<open>A response header a server writes is the one \<open>decode_header\<close> reads, whatever
  follows it; a body past the client's maximum is refused before a byte of it is buffered.\<close>

theorem decode_header_of_frame:
  "(sid < 65536 \<and> status < 65536 \<and> int (length body) \<le> MAX_RESPONSE_BODY \<longrightarrow>
      decode_header (server_frame sid status body @ rest)
        = Inr \<lparr>rh_streamid = int sid, rh_status = int status, rh_dlen = int (length body)\<rparr>) \<and>
   (\<forall>h. decode_header data = Inr h \<longrightarrow> 0 \<le> rh_dlen h \<and> rh_dlen h \<le> MAX_RESPONSE_BODY)"
proof (intro conjI impI allI)
  assume "sid < 65536 \<and> status < 65536 \<and> int (length body) \<le> MAX_RESPONSE_BODY"
  then show "decode_header (server_frame sid status body @ rest)
        = Inr \<lparr>rh_streamid = int sid, rh_status = int status, rh_dlen = int (length body)\<rparr>"
    by (simp add: decode_header_def header_fields_frame) (simp add: server_frame_def)
next
  fix h
  assume "decode_header data = Inr h"
  then obtain sid st dl where "header_fields data 0 = Inr (sid, st, dl)" "h = \<lparr>rh_streamid = sid, rh_status = st, rh_dlen = dl\<rparr>"
    by (auto simp: decode_header_def rbind_eq_Inr split: if_splits)
  then show "0 \<le> rh_dlen h" "rh_dlen h \<le> MAX_RESPONSE_BODY"
    using header_fields_bounds [of data 0 sid st dl] by auto
qed

theorem decode_header_of_frame_witness:
  "decode_header (server_frame 4 0 [1, 2] @ [3]) = Inr \<lparr>rh_streamid = 4, rh_status = 0, rh_dlen = 2\<rparr>"
  using decode_header_of_frame [of 4 0 "[1, 2]" "[3]" "[]"] by simp

text \<open>\<open>kXR_mv\<close> and its vendor relatives send two paths in one body; the length in the
  parameters is the encoded length of the first, so a server splits the body exactly where
  the source path ends, spaces in either path included.\<close>

theorem mv_paths_split:
  assumes "encode (Mv src dst) sid = Inr frame"
  shows "\<exists>s d. encode_text src = Inr s \<and> encode_text dst = Inr d \<and>
     be_dec (take 2 (drop 18 frame)) = length s \<and> drop 24 frame = s @ [32] @ d"
proof -
  obtain ps body where f: "header_params (Mv src dst) = Inr ps" "payload (Mv src dst) = Inr body"
    "frame = be_enc 2 (nat (sid mod 65536)) @ be_enc 2 (nat (opcode (Mv src dst))) @ ps
       @ be_enc 4 (length body + length (path_data (Mv src dst))) @ body @ trailer (Mv src dst)"
    "length ps = 16"
    using assms by (rule encode_frame) blast
  obtain s d where sd: "encode_text src = Inr s" "encode_text dst = Inr d" "body = s @ [32] @ d"
    using f(2) by (auto simp: payload_def Mv_payload_def encode_text_append encode_text_space rbind_eq_Inr)
  then obtain b where b: "pack_u 2 (int (length s)) = Inr b" "ps = replicate 14 0 @ b"
    using f(1) by (auto simp: header_params_agree params_def Mv_params_def Writer_def w_defs rbind_eq_Inr)
  have "be_dec b = length s" using pack_u_dec [OF b(1)] by simp
  moreover have "length b = 2" using b(1) by (rule pack_u_length)
  ultimately have "be_dec (take 2 (drop 18 frame)) = length s" using f(3) b(2) by simp
  moreover have "drop 24 frame = s @ [32] @ d"
    using f(3,4) sd(3) by (simp add: trailer_def)
  ultimately show ?thesis using sd by blast
qed

theorem mv_paths_split_witness:
  "\<exists>s d. encode_text (str ''/a'') = Inr s \<and> encode_text (str ''/b'') = Inr d \<and>
     be_dec (take 2 (drop 18 ([0, 4, 11, 193] @ replicate 14 0 @ [0, 2, 0, 0, 0, 5] @ [47, 97, 32, 47, 98]))) = length s \<and>
     drop 24 ([0, 4, 11, 193] @ replicate 14 0 @ [0, 2, 0, 0, 0, 5] @ [47, 97, 32, 47, 98]) = s @ [32] @ d"
proof -
  let ?req = "Mv (str ''/a'') (str ''/b'')"
  have "be_enc 2 2 = [0, 2]" by code_simp
  then have "header_params ?req = Inr (replicate 14 0 @ [0, 2])" "payload ?req = Inr [47, 97, 32, 47, 98]"
    by (simp_all add: header_params_agree params_def Mv_params_def payload_def Mv_payload_def
        encode_text_def utf8_encode_def utf8_char_def surrogate_def Writer_def w_defs pack_u_def)
  then have "encode ?req 4 = Inr (be_enc 2 4 @ be_enc 2 3009 @ (replicate 14 0 @ [0, 2])
      @ be_enc 4 (length ([47, 97, 32, 47, 98] :: bytes)) @ [47, 97, 32, 47, 98])"
    using encode_ok [of ?req "replicate 14 0 @ [0, 2]" "[47, 97, 32, 47, 98]" 4]
    by (simp add: path_data_def trailer_def)
  moreover have "be_enc 2 4 = [0, 4]" "be_enc 2 3009 = [11, 193]" "be_enc 4 (length ([47, 97, 32, 47, 98] :: bytes)) = [0, 0, 0, 5]"
    by code_simp+
  ultimately have "encode ?req 4
    = Inr ([0, 4, 11, 193] @ replicate 14 0 @ [0, 2, 0, 0, 0, 5] @ [47, 97, 32, 47, 98])"
    by simp
  then show ?thesis by (rule mv_paths_split)
qed

end
