(* ===== verification/Sigver.thy ===== *)
theory Sigver
  imports Frames
begin

text \<open>
  \<open>crypto/sigver.py\<close>: which requests are signed at which security level, what is hashed,
  and the per-connection signer with its sequence number. SHA-256 comes from \<open>hashlib\<close>,
  AES-CBC and its block size from the \<open>xrdsec\<close> package and the fresh IV from the operating
  system: they are the fields of \<open>sig_env\<close> and an argument. A method that raises returns
  the state it leaves behind beside the exception.
\<close>

record sig_env =
  sha256 :: "bytes \<Rightarrow> bytes"
  cbc_encrypt :: "bytes \<Rightarrow> bytes \<Rightarrow> bytes \<Rightarrow> bytes res"
  cbc_decrypt :: "bytes \<Rightarrow> bytes \<Rightarrow> bytes \<Rightarrow> bytes res"
  BLOCK_SIZE :: nat

subsection \<open>Which opcodes are signed\<close>

definition SIGNED_OPCODES :: "int set" where
  "SIGNED_OPCODES =
     {kXR_chmod, kXR_fattr, kXR_mkdir, kXR_mv, kXR_open, kXR_pgwrite, kXR_prepare, kXR_rm,
      kXR_rmdir, kXR_set, kXR_truncate, kXR_write, kXR_writev, kXR_chkpoint, kXR_clone}"

definition LEVEL_OPCODES :: "(int \<times> int set) list" where
  "LEVEL_OPCODES =
     [(kXR_secNone, {}), (kXR_secCompatible, {}), (kXR_secStandard, SIGNED_OPCODES),
      (kXR_secIntense, SIGNED_OPCODES \<union> {kXR_close, kXR_dirlist, kXR_locate, kXR_stat}),
      (kXR_secPedantic, {kXR_1stRequest ..< kXR_clone + 1})]"

definition DATA_OPCODES :: "int set" where
  "DATA_OPCODES = {kXR_write, kXR_pgwrite}"

definition is_signed :: "int \<Rightarrow> int \<Rightarrow> (int \<times> int) list \<Rightarrow> bool" where
  "is_signed opc level overrides =
     (case map_of overrides opc of
        Some lv \<Rightarrow> lv \<noteq> kXR_secNone
      | None \<Rightarrow>
          if level \<le> kXR_secCompatible then False
          else opc \<in> (case map_of LEVEL_OPCODES level of None \<Rightarrow> SIGNED_OPCODES | Some s \<Rightarrow> s))"

subsection \<open>Hashing, signing, verifying\<close>

definition sigver_hash :: "sig_env \<Rightarrow> int \<Rightarrow> bytes \<Rightarrow> bytes \<Rightarrow> bool \<Rightarrow> bytes res" where
  "sigver_hash env seqno header body nodata =
     rbind (struct_pack [FQ] [SInt seqno])
       (\<lambda>s. Inr (sha256 env (s @ header @ (if nodata then [] else body))))"

text \<open>\<open>cbc_encrypt\<close> without an IV uses a zero block.\<close>

definition sigver_sign ::
  "sig_env \<Rightarrow> bytes \<Rightarrow> int \<Rightarrow> bytes \<Rightarrow> bytes \<Rightarrow> bool \<Rightarrow> bytes option \<Rightarrow> bytes res" where
  "sigver_sign env key seqno header body nodata iv =
     rbind (sigver_hash env seqno header body nodata) (\<lambda>hashed.
     case iv of
       None \<Rightarrow> cbc_encrypt env key hashed (replicate (BLOCK_SIZE env) 0)
     | Some v \<Rightarrow> rbind (cbc_encrypt env key hashed v) (\<lambda>ct. Inr (v @ ct)))"

text \<open>\<open>hmac.compare_digest\<close> of two byte strings is their equality.\<close>

definition sigver_verify ::
  "sig_env \<Rightarrow> bytes \<Rightarrow> bytes \<Rightarrow> int \<Rightarrow> bytes \<Rightarrow> bytes \<Rightarrow> bool \<Rightarrow> bool \<Rightarrow> bool res" where
  "sigver_verify env key signature seqno header body nodata embedded_iv =
     (if embedded_iv \<and> length signature < BLOCK_SIZE env then Inr False
      else
        let iv = (if embedded_iv then take (BLOCK_SIZE env) signature else replicate (BLOCK_SIZE env) 0);
            ct = (if embedded_iv then drop (BLOCK_SIZE env) signature else signature)
        in case cbc_decrypt env key ct iv of
             Inl ValueError \<Rightarrow> Inr False
           | Inl e \<Rightarrow> Inl e
           | Inr plain \<Rightarrow>
               rbind (sigver_hash env seqno header body nodata) (\<lambda>expected. Inr (plain = expected)))"

subsection \<open>Signer\<close>

record signer =
  sg_key :: bytes
  sg_level :: int
  sg_overrides :: "(int \<times> int) list"
  sg_secodata :: bool
  sg_embedded_iv :: bool
  sg_seqno :: int

definition Signer :: "bytes \<Rightarrow> int \<Rightarrow> (int \<times> int) list \<Rightarrow> bool \<Rightarrow> bool \<Rightarrow> signer" where
  "Signer key level overrides secodata embedded_iv =
     \<lparr>sg_key = key, sg_level = level, sg_overrides = overrides, sg_secodata = secodata,
      sg_embedded_iv = embedded_iv, sg_seqno = 0\<rparr>"

definition sg_required :: "signer \<Rightarrow> int \<Rightarrow> bool" where
  "sg_required sg opc \<longleftrightarrow> sg_key sg \<noteq> [] \<and> is_signed opc (sg_level sg) (sg_overrides sg)"

text \<open>The payload \<open>frame[24:24 + dlen]\<close>, its length the signed integer of the header.\<close>

definition frame_payload :: "bytes \<Rightarrow> bytes" where
  "frame_payload frame =
     drop (nat REQUEST_HDRLEN) (py_take (REQUEST_HDRLEN + be_sdec (take 4 (drop 20 frame))) frame)"

definition sg_sign ::
  "sig_env \<Rightarrow> bytes \<Rightarrow> bytes \<Rightarrow> signer \<Rightarrow> signer \<times> (int \<times> bytes \<times> bool) option res" where
  "sg_sign env urandom frame sg =
     (if length frame < 4 then (sg, Inl StructError)
      else
        let opc = int (be_dec (take 2 (drop 2 frame)))
        in if \<not> sg_required sg opc then (sg, Inr None)
           else
             let sg' = sg\<lparr>sg_seqno := sg_seqno sg + 1\<rparr>;
                 header = py_take REQUEST_HDRLEN frame
             in if int (length frame) < REQUEST_HDRLEN then (sg', Inl StructError)
                else
                  let body = frame_payload frame;
                      nodata = (opc \<in> DATA_OPCODES \<and> \<not> sg_secodata sg);
                      iv = (if sg_embedded_iv sg then Some urandom else None)
                  in (sg', rbind (sigver_sign env (sg_key sg) (sg_seqno sg') header body nodata iv)
                             (\<lambda>signature. Inr (Some (sg_seqno sg', signature, nodata)))))"

text \<open>A connection's signatures, frame after frame, each with the IV drawn for it.\<close>

fun sg_run :: "sig_env \<Rightarrow> (bytes \<times> bytes) list \<Rightarrow> signer \<Rightarrow> signer \<times> (int \<times> bytes \<times> bool) list" where
  "sg_run env [] sg = (sg, [])"
| "sg_run env ((iv, frame) # fs) sg =
     (case sg_sign env iv frame sg of (sg1, r) \<Rightarrow>
        case sg_run env fs sg1 of (sg2, sigs) \<Rightarrow>
          (sg2, (case r of Inr (Some s) \<Rightarrow> s # sigs | _ \<Rightarrow> sigs)))"

subsection \<open>Lemmas\<close>

lemma sg_sign_keeps:
  "sg_sign env iv frame sg = (sg', r) \<Longrightarrow>
   sg_key sg' = sg_key sg \<and> sg_level sg' = sg_level sg \<and> sg_overrides sg' = sg_overrides sg \<and>
   sg_secodata sg' = sg_secodata sg \<and> sg_embedded_iv sg' = sg_embedded_iv sg \<and>
   sg_seqno sg \<le> sg_seqno sg'"
  by (auto simp: sg_sign_def Let_def split: if_splits)

lemma sg_sign_Some:
  assumes "sg_sign env iv frame sg = (sg', Inr (Some (seq, signature, nodata)))"
  shows "seq = sg_seqno sg + 1" "sg_seqno sg' = seq" "24 \<le> length frame"
    "sg_required sg (int (be_dec (take 2 (drop 2 frame))))"
    "nodata = (int (be_dec (take 2 (drop 2 frame))) \<in> DATA_OPCODES \<and> \<not> sg_secodata sg)"
    "sigver_sign env (sg_key sg) seq (take 24 frame) (frame_payload frame) nodata
       (if sg_embedded_iv sg then Some iv else None) = Inr signature"
  using assms
  by (auto simp: sg_sign_def Let_def rbind_eq_Inr py_take_def split: if_splits)

lemma sg_run_bounds:
  "sg_run env fs sg = (sg', sigs) \<Longrightarrow>
   sorted_wrt (<) (map fst sigs) \<and> (\<forall>s \<in> set sigs. sg_seqno sg < fst s) \<and> sg_seqno sg \<le> sg_seqno sg'"
proof (induction fs arbitrary: sg sg' sigs)
  case Nil
  then show ?case by simp
next
  case (Cons f fs)
  obtain iv frame where f: "f = (iv, frame)" by (cases f)
  obtain sg1 r where s: "sg_sign env iv frame sg = (sg1, r)" by (cases "sg_sign env iv frame sg")
  obtain sg2 sigs1 where run: "sg_run env fs sg1 = (sg2, sigs1)" by (cases "sg_run env fs sg1")
  note IH = Cons.IH [OF run] and keep = sg_sign_keeps [OF s]
  have out: "sg' = sg2" "sigs = (case r of Inr (Some x) \<Rightarrow> x # sigs1 | _ \<Rightarrow> sigs1)"
    using Cons.prems by (simp_all add: f s run)
  show ?case
  proof (cases "\<exists>x. r = Inr (Some x)")
    case True
    then obtain q sgn nd where r: "r = Inr (Some (q, sgn, nd))" by (metis prod_cases3)
    note some = sg_sign_Some [OF s [unfolded r]]
    show ?thesis using out IH some(1,2) by (auto simp: r)
  next
    case False
    then have "sigs = sigs1" using out by (auto split: sum.splits option.splits)
    then show ?thesis using out IH keep by fastforce
  qed
qed

text \<open>A concrete environment for evaluation: an additive cipher and a truncated message
  in place of the real primitives.\<close>

definition sample_env :: sig_env where
  "sample_env =
     \<lparr>sha256 = (\<lambda>m. take 32 (m @ replicate 32 7)),
      cbc_encrypt = (\<lambda>k p v. Inr (map (\<lambda>b. b + hd (k @ [0])) p)),
      cbc_decrypt = (\<lambda>k c v. Inr (map (\<lambda>b. b - hd (k @ [0])) c)),
      BLOCK_SIZE = 16\<rparr>"

definition sample_rm_frame :: bytes where
  "sample_rm_frame = [0, 4, 11, 198] @ replicate 16 0 @ [0, 0, 0, 2, 47, 97]"

lemma sample_env_inverse:
  "cbc_encrypt sample_env k p v = Inr ct \<Longrightarrow> cbc_decrypt sample_env k ct v = Inr p"
  by (auto simp: sample_env_def comp_def)

subsection \<open>Properties\<close>

text \<open>C21: the server's check accepts what the signer makes, in both the zero-IV and the
  prepended-IV shape: given that decryption inverts encryption and that a drawn IV is one
  block, a signature made for a frame verifies against that frame's header and declared
  payload under the same key, sequence number and \<open>nodata\<close> flag.\<close>

theorem sigver_verify_accepts_sign:
  assumes inverse: "\<And>k p v ct. cbc_encrypt env k p v = Inr ct \<Longrightarrow> cbc_decrypt env k ct v = Inr p"
    and "length iv = BLOCK_SIZE env"
    and signed: "sg_sign env iv frame sg = (sg', Inr (Some (seq, signature, nodata)))"
  shows "sigver_verify env (sg_key sg) signature seq (take 24 frame) (frame_payload frame) nodata
     (sg_embedded_iv sg) = Inr True"
proof -
  note s = sg_sign_Some(6) [OF signed]
  obtain h where h: "sigver_hash env seq (take 24 frame) (frame_payload frame) nodata = Inr h"
    using s by (auto simp: sigver_sign_def rbind_eq_Inr)
  show ?thesis
  proof (cases "sg_embedded_iv sg")
    case True
    then obtain ct where "cbc_encrypt env (sg_key sg) h iv = Inr ct" "signature = iv @ ct"
      using s h by (auto simp: sigver_sign_def rbind_eq_Inr)
    then show ?thesis using True h assms(2) inverse by (simp add: sigver_verify_def)
  next
    case False
    then have "cbc_encrypt env (sg_key sg) h (replicate (BLOCK_SIZE env) 0) = Inr signature"
      using s h by (simp add: sigver_sign_def)
    then show ?thesis using False h inverse by (simp add: sigver_verify_def)
  qed
qed

theorem sigver_verify_accepts_sign_witness:
  "sigver_verify sample_env [5]
     (replicate 16 9 @ [5, 5, 5, 5, 5, 5, 5, 6, 5, 9, 16, 203] @ replicate 16 5 @ [5, 5, 5, 7])
     1 (take 24 sample_rm_frame) (frame_payload sample_rm_frame) False True = Inr True"
proof -
  have "sg_sign sample_env (replicate 16 9) sample_rm_frame (Signer [5] 2 [] False True)
    = (Signer [5] 2 [] False True\<lparr>sg_seqno := 1\<rparr>,
       Inr (Some (1, replicate 16 9 @ [5, 5, 5, 5, 5, 5, 5, 6, 5, 9, 16, 203] @ replicate 16 5 @ [5, 5, 5, 7], False)))"
    by code_simp
  from sigver_verify_accepts_sign [OF sample_env_inverse _ this] show ?thesis
    by (simp add: sample_env_def Signer_def)
qed

text \<open>C22: sequence numbers are strictly increasing over the life of a connection, whatever
  frames are offered and whichever of them raise, so no signature is ever made twice with
  the same number.\<close>

theorem signer_seqnos_increase:
  "sorted_wrt (<) (map fst (snd (sg_run env fs sg)))"
  using sg_run_bounds [of env fs sg] by (metis prod.collapse)

text \<open>The server's per-opcode table decides before the level does: a level of none there
  exempts an opcode, any other value forces it in; without an entry nothing is signed up to
  the compatible level, every modifying opcode is from the standard level on, and a higher
  level never drops one a lower level signs.\<close>

theorem is_signed_by_level:
  "(\<forall>lv. map_of ov opc = Some lv \<longrightarrow> is_signed opc level ov = (lv \<noteq> 0)) \<and>
   (map_of ov opc = None \<longrightarrow> level \<le> 1 \<longrightarrow> \<not> is_signed opc level ov) \<and>
   (map_of ov opc = None \<longrightarrow> 2 \<le> level \<longrightarrow> opc \<in> SIGNED_OPCODES \<longrightarrow> is_signed opc level ov) \<and>
   (level \<le> level' \<longrightarrow> level' \<le> 4 \<longrightarrow> is_signed opc level ov \<longrightarrow> is_signed opc level' ov)"
  by (auto simp: is_signed_def LEVEL_OPCODES_def SIGNED_OPCODES_def split: option.splits if_splits)

theorem is_signed_by_level_witness:
  "is_signed 3017 2 [] = False \<and> is_signed 3014 4 [] \<and> \<not> is_signed 3014 4 [(3014, 0)]"
proof -
  have a: "is_signed 3014 2 []" "is_signed 3017 2 [] = False"
    by (simp_all add: is_signed_def LEVEL_OPCODES_def SIGNED_OPCODES_def)
  show ?thesis
    using a is_signed_by_level [of "[]" 3014 2 4] is_signed_by_level [of "[(3014, 0)]" 3014 4 4] by simp
qed


end
