(* ===== verification/Auth.thy ===== *)
theory Auth
  imports Errors Complex_Main
begin

text \<open>
  \<open>auth/base.py\<close> and the selection ladder of \<open>auth/__init__.py\<close>: which of the mechanisms a
  server offers are tried, in which order, and what is recorded about the others. The
  mechanisms themselves (\<open>gsi\<close>, \<open>sss\<close>, \<open>krb5\<close>, \<open>ztn\<close>, \<open>unix\<close>, \<open>host\<close>) read files and run
  cryptography of the \<open>xrdsec\<close> package; a mechanism is a record of what its class methods
  answer. Asking a person (\<open>_ask\<close>) is a parameter too.

  \<open>select\<close> is a generator: its state between two values is a \<open>ladder\<close>, and \<open>ladder_next\<close> runs
  it to the next \<open>yield\<close>. The dictionary of rejection reasons is the caller's, so it is
  passed in and out.
\<close>

subsection \<open>Configuration\<close>

text \<open>The fields of \<open>Config\<close> the protocol core reads.\<close>

record config =
  cfg_username :: pystr
  cfg_require_tls :: bool
  cfg_wait_cap :: rat
  cfg_auth_order :: "pystr list"
  cfg_ztn_cleartext :: bool

subsection \<open>Offers (auth/base.py)\<close>

record offer =
  of_name :: pystr
  of_params :: pystr

definition offer_options :: "offer \<Rightarrow> (pystr \<times> pystr) list" where
  "offer_options off =
     foldl (\<lambda>d part. case partition_at 58 part of (key, sep, val) \<Rightarrow>
              if sep then dict_set (strip key) (strip val) d else d)
       [] (split_on 44 (of_params off))"

definition offer_str :: "offer \<Rightarrow> pystr" where
  "offer_str off = (if of_params off \<noteq> [] then of_name off @ [44] @ of_params off else of_name off)"

text \<open>\<open>_OFFER_RE.findall\<close>: every \<open>&P=\<close> followed by a nonempty run up to the next \<open>&\<close>.\<close>

definition offer_clauses :: "pystr \<Rightarrow> pystr list" where
  "offer_clauses sec =
     map (drop 2) (filter (\<lambda>part. take 2 part = str ''P='' \<and> 2 < length part) (drop 1 (split_on 38 sec)))"

definition parse_security_trailer :: "pystr \<Rightarrow> offer list" where
  "parse_security_trailer sec =
     map (\<lambda>clause. case partition_at 44 clause of (name, _, ps) \<Rightarrow>
            \<lparr>of_name = strip name, of_params = strip ps\<rparr>) (offer_clauses sec)"

subsection \<open>Credentials and mechanisms\<close>

text \<open>
  A credential is one login's state: its first blob (or the text of the exception), its
  answer to a challenge given the challenges before it, and the session key the exchange
  has established by then. \<open>cr_seen\<close> are the challenges it has been given.
\<close>

record credential =
  cr_name :: pystr
  cr_initial :: "pystr + bytes"
  cr_step :: "bytes list \<Rightarrow> bytes \<Rightarrow> pystr + bytes option"
  cr_key :: "bytes list \<Rightarrow> bytes option"
  cr_seen :: "bytes list"

record mechanism =
  mech_available :: "offer \<Rightarrow> config \<Rightarrow> pystr \<Rightarrow> pystr \<Rightarrow> pystr + credential option"
  mech_missing :: "offer \<Rightarrow> config \<Rightarrow> pystr \<Rightarrow> pystr \<Rightarrow> pystr + (pystr \<times> pystr) option"

record auth_env =
  registry :: "pystr \<Rightarrow> mechanism option"
  interactive :: "config \<Rightarrow> bool"
  ask :: "pystr \<Rightarrow> offer \<Rightarrow> (pystr \<times> pystr) list \<Rightarrow> credential option \<times> (pystr \<times> pystr) list"

subsection \<open>The ladder (auth/__init__.py)\<close>

definition offer_order :: "offer list \<Rightarrow> (pystr \<times> offer) list \<Rightarrow> config \<Rightarrow> pystr list" where
  "offer_order offers by_name cfg =
     foldl (\<lambda>order off. if of_name off \<notin> set order then order @ [of_name off] else order)
       (filter (\<lambda>name. map_of by_name name \<noteq> None) (cfg_auth_order cfg)) offers"

definition ztn_reason :: pystr where
  "ztn_reason =
     str ''not offered on a cleartext connection - a bearer token is '' @
     str ''replayable by anyone on the path; use roots:// (or xroots://), '' @
     str ''or set ztn_cleartext=True on a rig you trust end to end''"

text \<open>\<open>order.remove(x)\<close> takes out the first occurrence only.\<close>

definition withhold_cleartext_token ::
  "(pystr \<times> offer) list \<Rightarrow> pystr list \<Rightarrow> (pystr \<times> pystr) list \<Rightarrow> bool option \<Rightarrow> config \<Rightarrow>
   (pystr \<times> offer) list \<times> pystr list \<times> (pystr \<times> pystr) list" where
  "withhold_cleartext_token offers order why tls cfg =
     (if tls \<noteq> Some False \<or> cfg_ztn_cleartext cfg \<or> map_of offers (str ''ztn'') = None
      then (offers, order, why)
      else (dict_pop (str ''ztn'') offers, remove1 (str ''ztn'') order,
            dict_set (str ''ztn'') ztn_reason why))"

definition why_not ::
  "mechanism \<Rightarrow> offer \<Rightarrow> config \<Rightarrow> pystr \<Rightarrow> pystr \<Rightarrow> pystr" where
  "why_not mech off cfg username host =
     (case mech_missing mech off cfg username host of
        Inl exc \<Rightarrow> str ''no credential material found ('' @ exc @ str '')''
      | Inr (Some (reason, hint)) \<Rightarrow> reason @ str ''; try: '' @ hint
      | Inr None \<Rightarrow> str ''no credential material found'')"

definition build ::
  "pystr \<Rightarrow> mechanism \<Rightarrow> offer \<Rightarrow> config \<Rightarrow> pystr \<Rightarrow> pystr \<Rightarrow> (pystr \<times> pystr) list \<Rightarrow>
   credential option \<times> (pystr \<times> pystr) list" where
  "build name mech off cfg username host why =
     (case mech_available mech off cfg username host of
        Inl exc \<Rightarrow> (None, dict_set name exc why)
      | Inr None \<Rightarrow> (None, dict_set name (why_not mech off cfg username host) why)
      | Inr (Some cred) \<Rightarrow> (Some cred, dict_pop name why))"

text \<open>\<open>ladder.offers[name]\<close> raises \<open>KeyError\<close> when the name has no offer.\<close>

definition named_credential ::
  "auth_env \<Rightarrow> (pystr \<times> offer) list \<Rightarrow> config \<Rightarrow> pystr \<Rightarrow> pystr \<Rightarrow> pystr \<Rightarrow> (pystr \<times> pystr) list \<Rightarrow>
   credential option res \<times> (pystr \<times> pystr) list" where
  "named_credential env offers cfg username host name why =
     (case registry env name of
        None \<Rightarrow> (Inr None, dict_set name (str ''not supported by this client'') why)
      | Some mech \<Rightarrow>
          (case map_of offers name of
             None \<Rightarrow> (Inl KeyError, why)
           | Some off \<Rightarrow> (case build name mech off cfg username host why of (c, why') \<Rightarrow> (Inr c, why'))))"

text \<open>\<open>_first_prompted\<close>: the first mechanism a person's answer makes usable.\<close>

fun first_prompted ::
  "auth_env \<Rightarrow> (pystr \<times> offer) list \<Rightarrow> pystr list \<Rightarrow> (pystr \<times> pystr) list \<Rightarrow>
   credential option res \<times> (pystr \<times> pystr) list" where
  "first_prompted env offers [] why = (Inr None, why)"
| "first_prompted env offers (name # names) why =
     (case registry env name of
        None \<Rightarrow> first_prompted env offers names why
      | Some mech \<Rightarrow>
          (case map_of offers name of
             None \<Rightarrow> (Inl KeyError, why)
           | Some off \<Rightarrow>
               (case ask env name off why of
                  (Some c, why') \<Rightarrow> (Inr (Some c), why')
                | (None, why') \<Rightarrow> first_prompted env offers names why')))"

text \<open>
  The suspended generator: the arguments of the call, the names still to try, whether a
  credential was found, and whether it has run to its end (an exception ends it too).
\<close>

record ladder =
  ld_offers :: "(pystr \<times> offer) list"
  ld_config :: config
  ld_username :: pystr
  ld_host :: pystr
  ld_all :: "pystr list"
  ld_order :: "pystr list"
  ld_found :: bool
  ld_done :: bool

definition select ::
  "pystr \<Rightarrow> config \<Rightarrow> pystr \<Rightarrow> pystr \<Rightarrow> (pystr \<times> pystr) list \<Rightarrow> bool option \<Rightarrow>
   ladder \<times> (pystr \<times> pystr) list" where
  "select sec cfg username host why tls =
     (let offers = parse_security_trailer sec;
          by_name = foldl (\<lambda>d off. dict_set (of_name off) off d) [] offers;
          order = offer_order offers by_name cfg
      in case withhold_cleartext_token by_name order why tls cfg of (by_name', order', why') \<Rightarrow>
           (\<lparr>ld_offers = by_name', ld_config = cfg, ld_username = username, ld_host = host,
             ld_all = order', ld_order = order', ld_found = False, ld_done = False\<rparr>, why'))"

fun climb ::
  "auth_env \<Rightarrow> ladder \<Rightarrow> pystr list \<Rightarrow> (pystr \<times> pystr) list \<Rightarrow>
   credential option res \<times> pystr list \<times> (pystr \<times> pystr) list" where
  "climb env ld [] why = (Inr None, [], why)"
| "climb env ld (name # names) why =
     (case named_credential env (ld_offers ld) (ld_config ld) (ld_username ld) (ld_host ld) name why of
        (Inl e, why') \<Rightarrow> (Inl e, names, why')
      | (Inr (Some c), why') \<Rightarrow> (Inr (Some c), names, why')
      | (Inr None, why') \<Rightarrow> climb env ld names why')"

definition ladder_next ::
  "auth_env \<Rightarrow> ladder \<Rightarrow> (pystr \<times> pystr) list \<Rightarrow>
   credential option res \<times> ladder \<times> (pystr \<times> pystr) list" where
  "ladder_next env ld why =
     (if ld_done ld then (Inr None, ld, why)
      else (case climb env ld (ld_order ld) why of
          (Inr (Some c), names, why') \<Rightarrow> (Inr (Some c), ld\<lparr>ld_order := names, ld_found := True\<rparr>, why')
        | (Inl e, names, why') \<Rightarrow> (Inl e, ld\<lparr>ld_order := [], ld_done := True\<rparr>, why')
        | (Inr None, names, why') \<Rightarrow>
            if \<not> ld_found ld \<and> interactive env (ld_config ld)
            then (case first_prompted env (ld_offers ld) (ld_all ld) why' of (r, why'') \<Rightarrow>
                    (r, ld\<lparr>ld_order := [], ld_done := True\<rparr>, why''))
            else (Inr None, ld\<lparr>ld_order := [], ld_done := True\<rparr>, why')))"

subsection \<open>Lemmas\<close>

lemma offer_order_fold_mem:
  "set (foldl (\<lambda>order off. if of_name off \<notin> set order then order @ [of_name off] else order) acc offers)
     = set acc \<union> of_name ` set offers"
  by (induction offers arbitrary: acc) auto

lemma by_name_keys:
  "dict_keys (foldl (\<lambda>d off. dict_set (of_name off) off d) acc offers)
     = dict_keys acc \<union> of_name ` set offers"
  by (induction offers arbitrary: acc) auto

lemma offer_order_distinct_fold:
  "distinct acc \<Longrightarrow>
   distinct (foldl (\<lambda>order off. if of_name off \<notin> set order then order @ [of_name off] else order) acc offers)"
  by (induction offers arbitrary: acc) auto

lemma offer_order_prefix_fold:
  "\<exists>rest. foldl (\<lambda>order off. if of_name off \<notin> set order then order @ [of_name off] else order) acc offers
     = acc @ rest"
proof (induction offers arbitrary: acc)
  case (Cons off offers)
  show ?case
  proof (cases "of_name off \<in> set acc")
    case True
    then show ?thesis using Cons [of acc] by simp
  next
    case False
    then show ?thesis using Cons [of "acc @ [of_name off]"] by auto
  qed
qed simp

lemma climb_names:
  "climb env ld order why = (Inr (Some c), names, why') \<Longrightarrow>
   \<exists>pre name. order = pre @ name # names \<and> map_of (ld_offers ld) name \<noteq> None"
proof (induction order arbitrary: why)
  case (Cons n ns)
  consider (err) e w where "named_credential env (ld_offers ld) (ld_config ld) (ld_username ld) (ld_host ld) n why = (Inl e, w)"
    | (skip) w where "named_credential env (ld_offers ld) (ld_config ld) (ld_username ld) (ld_host ld) n why = (Inr None, w)"
    | (got) d w where "named_credential env (ld_offers ld) (ld_config ld) (ld_username ld) (ld_host ld) n why = (Inr (Some d), w)"
    by (metis old.sum.exhaust option.exhaust prod.exhaust)
  then show ?case
  proof cases
    case err
    then show ?thesis using Cons.prems by simp
  next
    case skip
    then obtain pre name where "ns = pre @ name # names" "map_of (ld_offers ld) name \<noteq> None"
      using Cons.IH [of w] Cons.prems by auto
    then show ?thesis by (intro exI [of _ "n # pre"] exI [of _ name]) simp
  next
    case got
    then have "ns = names" "map_of (ld_offers ld) n \<noteq> None"
      using Cons.prems by (auto simp: named_credential_def split: option.splits prod.splits)
    then have "n # ns = [] @ n # names \<and> map_of (ld_offers ld) n \<noteq> None" by simp
    then show ?thesis by blast
  qed
qed simp

text \<open>What a caller gets from asking \<open>n\<close> times.\<close>

fun ladder_take ::
  "auth_env \<Rightarrow> nat \<Rightarrow> ladder \<Rightarrow> (pystr \<times> pystr) list \<Rightarrow> credential option res list \<times> (pystr \<times> pystr) list" where
  "ladder_take env 0 ld why = ([], why)"
| "ladder_take env (Suc n) ld why =
     (case ladder_next env ld why of (r, ld', why') \<Rightarrow>
        case ladder_take env n ld' why' of (rs, why'') \<Rightarrow> (r # rs, why''))"

text \<open>An environment with another mechanism registered, and other answers given, under one name.\<close>

definition with_mech ::
  "pystr \<Rightarrow> mechanism option \<Rightarrow>
   (offer \<Rightarrow> (pystr \<times> pystr) list \<Rightarrow> credential option \<times> (pystr \<times> pystr) list) \<Rightarrow> auth_env \<Rightarrow> auth_env" where
  "with_mech name mech answer env =
     env\<lparr>registry := (registry env)(name := mech), ask := (ask env)(name := answer)\<rparr>"

lemma climb_with_mech:
  "nm \<notin> set order \<Longrightarrow> climb (with_mech nm m a env) ld order why = climb env ld order why"
proof (induction order arbitrary: why)
  case (Cons n ns)
  have "named_credential (with_mech nm m a env) offs cfg u h n w = named_credential env offs cfg u h n w"
    for offs cfg u h w
    using Cons.prems by (auto simp: named_credential_def with_mech_def)
  with Cons show ?case by (simp split: prod.splits sum.splits option.splits)
qed simp

lemma first_prompted_with_mech:
  "nm \<notin> set order \<Longrightarrow>
   first_prompted (with_mech nm m a env) offers order why = first_prompted env offers order why"
proof (induction order arbitrary: why)
  case (Cons n ns)
  then have "n \<noteq> nm" "\<And>w. first_prompted (with_mech nm m a env) offers ns w = first_prompted env offers ns w"
    by auto
  moreover have "registry (with_mech nm m a env) n = registry env n" "ask (with_mech nm m a env) n = ask env n"
    using Cons.prems by (auto simp: with_mech_def)
  ultimately show ?case by (simp split: option.splits prod.splits)
qed simp

lemma climb_suffix:
  "climb env ld order why = (r, names, why') \<Longrightarrow> set names \<subseteq> set order"
proof (induction order arbitrary: why)
  case (Cons n ns)
  then show ?case by (fastforce split: prod.splits sum.splits option.splits)
qed simp

lemma ladder_next_names:
  "ladder_next env ld why = (r, ld', why') \<Longrightarrow>
   set (ld_order ld') \<subseteq> set (ld_order ld) \<and> ld_all ld' = ld_all ld"
  by (auto simp: ladder_next_def split: if_splits prod.splits sum.splits option.splits
      dest!: climb_suffix)

lemma ladder_next_with_mech:
  "nm \<notin> set (ld_order ld) \<Longrightarrow> nm \<notin> set (ld_all ld) \<Longrightarrow>
   ladder_next (with_mech nm m a env) ld why = ladder_next env ld why"
proof -
  assume n: "nm \<notin> set (ld_order ld)" "nm \<notin> set (ld_all ld)"
  have "interactive (with_mech nm m a env) = interactive env" by (simp add: with_mech_def)
  with n show ?thesis
    by (simp add: ladder_next_def climb_with_mech first_prompted_with_mech
        split: prod.splits sum.splits option.splits)
qed

lemma ladder_take_with_mech:
  "nm \<notin> set (ld_order ld) \<Longrightarrow> nm \<notin> set (ld_all ld) \<Longrightarrow>
   ladder_take (with_mech nm m a env) n ld why = ladder_take env n ld why"
proof (induction n arbitrary: ld why)
  case (Suc n)
  obtain r ld' why' where nx: "ladder_next env ld why = (r, ld', why')"
    by (metis prod_cases3)
  have "ladder_take (with_mech nm m a env) n ld' why' = ladder_take env n ld' why'"
    by (rule Suc.IH) (use Suc.prems ladder_next_names [OF nx] in auto)
  then show ?case using Suc.prems nx by (simp add: ladder_next_with_mech)
qed simp

lemma select_cleartext_names:
  assumes "distinct (cfg_auth_order cfg)" "\<not> cfg_ztn_cleartext cfg"
    and "select sec cfg user host why (Some False) = (ld, why')"
  shows "str ''ztn'' \<notin> set (ld_order ld)" "ld_all ld = ld_order ld"
proof -
  define by_name where "by_name = foldl (\<lambda>d off. dict_set (of_name off) off d) [] (parse_security_trailer sec)"
  define order where "order = offer_order (parse_security_trailer sec) by_name cfg"
  have d: "distinct order"
    unfolding order_def offer_order_def using assms(1) by (intro offer_order_distinct_fold) simp
  have mem: "set order \<subseteq> dict_keys by_name"
    using by_name_keys [of "[]" "parse_security_trailer sec"]
    by (auto simp: order_def offer_order_def by_name_def map_of_eq_None_keys offer_order_fold_mem)
  show "ld_all ld = ld_order ld"
    using assms(3) by (auto simp: select_def Let_def split: prod.splits)
  show "str ''ztn'' \<notin> set (ld_order ld)"
  proof (cases "map_of by_name (str ''ztn'') = None")
    case True
    then have "str ''ztn'' \<notin> set order" using mem unfolding map_of_eq_None_keys by blast
    moreover have "ld_order ld = order"
      using assms True unfolding select_def Let_def by_name_def order_def withhold_cleartext_token_def by auto
    ultimately show ?thesis by simp
  next
    case False
    then have "ld_order ld = remove1 (str ''ztn'') order"
      using assms unfolding select_def Let_def by_name_def order_def withhold_cleartext_token_def by auto
    then show ?thesis using d by simp
  qed
qed

text \<open>Concrete values for evaluation.\<close>

definition sample_config :: config where
  "sample_config = \<lparr>cfg_username = str ''u'', cfg_require_tls = False, cfg_wait_cap = 600,
     cfg_auth_order = [str ''ztn'', str ''unix''], cfg_ztn_cleartext = False\<rparr>"

definition sample_credential :: "pystr \<Rightarrow> credential" where
  "sample_credential name = \<lparr>cr_name = name, cr_initial = Inr [117], cr_step = (\<lambda>_ _. Inr None),
     cr_key = (\<lambda>_. None), cr_seen = []\<rparr>"

definition sample_mech :: "pystr \<Rightarrow> mechanism" where
  "sample_mech name = \<lparr>mech_available = (\<lambda>_ _ _ _. Inr (Some (sample_credential name))),
     mech_missing = (\<lambda>_ _ _ _. Inr None)\<rparr>"

definition sample_auth :: auth_env where
  "sample_auth = \<lparr>registry = (\<lambda>n. Some (sample_mech n)), interactive = (\<lambda>_. False),
     ask = (\<lambda>_ _ w. (None, w))\<rparr>"

subsection \<open>Properties\<close>

text \<open>The order mechanisms are tried in: every mechanism the server offers is tried, and
  nothing else; those the client ranks come first in the client's order, and the rest follow.
  With no repetition in the client's ranking none is tried twice.\<close>

theorem offer_order_complete:
  "set (offer_order offers (foldl (\<lambda>d off. dict_set (of_name off) off d) [] offers) cfg) = of_name ` set offers \<and>
   (\<exists>rest. offer_order offers (foldl (\<lambda>d off. dict_set (of_name off) off d) [] offers) cfg
      = filter (\<lambda>n. n \<in> of_name ` set offers) (cfg_auth_order cfg) @ rest) \<and>
   (distinct (cfg_auth_order cfg) \<longrightarrow>
      distinct (offer_order offers (foldl (\<lambda>d off. dict_set (of_name off) off d) [] offers) cfg))"
proof -
  have k: "(map_of (foldl (\<lambda>d off. dict_set (of_name off) off d) [] offers) name \<noteq> None) = (name \<in> of_name ` set offers)" for name
    using by_name_keys [of "[]" offers] by (auto simp: map_of_eq_None_keys)
  show ?thesis
    unfolding offer_order_def k offer_order_fold_mem
    using offer_order_prefix_fold by (auto intro!: offer_order_distinct_fold)
qed

theorem offer_order_complete_witness:
  "distinct (offer_order [\<lparr>of_name = str ''ztn'', of_params = []\<rparr>, \<lparr>of_name = str ''krb5'', of_params = []\<rparr>]
     (foldl (\<lambda>d off. dict_set (of_name off) off d) []
        [\<lparr>of_name = str ''ztn'', of_params = []\<rparr>, \<lparr>of_name = str ''krb5'', of_params = []\<rparr>]) sample_config)"
  using offer_order_complete [of
    "[\<lparr>of_name = str ''ztn'', of_params = []\<rparr>, \<lparr>of_name = str ''krb5'', of_params = []\<rparr>]" sample_config]
  by (simp add: sample_config_def)

text \<open>C23: on a cleartext connection a bearer token is never used: whatever the token
  mechanism would answer, or a person would type for it, the ladder yields the same
  credentials and records the same reasons, so the mechanism is not consulted at all.\<close>

theorem cleartext_never_consults_token:
  assumes "distinct (cfg_auth_order cfg)" "\<not> cfg_ztn_cleartext cfg"
    and "select sec cfg user host why (Some False) = (ld, why')"
  shows "ladder_take (with_mech (str ''ztn'') mech answer env) n ld why' = ladder_take env n ld why'"
  using select_cleartext_names [OF assms] by (intro ladder_take_with_mech) simp_all

theorem cleartext_never_consults_token_witness:
  "ladder_take (with_mech (str ''ztn'') None (\<lambda>_ w. (None, w)) sample_auth) 3
      (fst (select (str ''&P=ztn&P=unix'') sample_config [] [] [] (Some False)))
      (snd (select (str ''&P=ztn&P=unix'') sample_config [] [] [] (Some False)))
   = ladder_take sample_auth 3
      (fst (select (str ''&P=ztn&P=unix'') sample_config [] [] [] (Some False)))
      (snd (select (str ''&P=ztn&P=unix'') sample_config [] [] [] (Some False)))"
  by (rule cleartext_never_consults_token [of sample_config "str ''&P=ztn&P=unix''" "[]" "[]" "[]"])
     (simp_all add: sample_config_def)



end
