(* ===== verification/Value_Types.thy ===== *)
theory Value_Types
  imports Errors
begin

text \<open>
  \<open>types.py\<close> and the flag word of \<open>flags.py\<close> the response parsers build: one record per
  frozen dataclass, one definition per property that computes something. Rendering
  (\<open>__str__\<close>, \<open>human_bytes\<close>), the synthesised POSIX mode and the plain aliases are left out.

  \<open>ChecksumInfo\<close> is a class of the \<open>xrdcore\<close> package; what is kept here is the two
  arguments its constructor is called with.
\<close>

unbundle bit_operations_syntax

subsection \<open>Flag words\<close>

fun bit_length :: "nat \<Rightarrow> nat" where
  "bit_length n = (if n = 0 then 0 else Suc (bit_length (n div 2)))"

declare bit_length.simps [simp del]

text \<open>
  \<open>StatInfoFlags(value)\<close>, an \<open>IntFlag\<close> with the eight low bits named: a nonnegative integer
  is itself, a negative one is read as a complement within the named bits or, outside
  them, within its own width.
\<close>

definition StatInfoFlags :: "int \<Rightarrow> int" where
  "StatInfoFlags v =
     (if 0 \<le> v then v
      else if - 256 \<le> v then 256 + v
      else max 256 (2 ^ bit_length (nat (- v))) + v)"

text \<open>The members, in declaration order.\<close>

abbreviation X_SET :: int where "X_SET \<equiv> 1"
abbreviation IS_DIR :: int where "IS_DIR \<equiv> 2"
abbreviation OTHER :: int where "OTHER \<equiv> 4"
abbreviation OFFLINE :: int where "OFFLINE \<equiv> 8"
abbreviation IS_READABLE :: int where "IS_READABLE \<equiv> 16"
abbreviation IS_WRITABLE :: int where "IS_WRITABLE \<equiv> 32"
abbreviation POSC_PENDING :: int where "POSC_PENDING \<equiv> 64"
abbreviation BACKUP_EXISTS :: int where "BACKUP_EXISTS \<equiv> 128"

subsection \<open>StatInfo, DirEntry\<close>

datatype checksum_info = ChecksumInfo pystr pystr

record stat_info =
  st_id :: pystr
  st_size :: int
  st_flags :: int
  st_mtime :: int
  st_ctime :: int
  st_atime :: int
  st_path :: pystr
  mode_str :: pystr
  st_owner :: pystr
  st_group :: pystr

definition stat_is_dir :: "stat_info \<Rightarrow> bool" where
  "stat_is_dir s \<longleftrightarrow> st_flags s AND IS_DIR \<noteq> 0"

definition stat_is_file :: "stat_info \<Rightarrow> bool" where
  "stat_is_file s \<longleftrightarrow> \<not> (st_flags s AND (IS_DIR OR OTHER) \<noteq> 0)"

definition stat_is_offline :: "stat_info \<Rightarrow> bool" where
  "stat_is_offline s \<longleftrightarrow> st_flags s AND OFFLINE \<noteq> 0"

definition stat_is_readable :: "stat_info \<Rightarrow> bool" where
  "stat_is_readable s \<longleftrightarrow> st_flags s AND IS_READABLE \<noteq> 0"

definition stat_is_writable :: "stat_info \<Rightarrow> bool" where
  "stat_is_writable s \<longleftrightarrow> st_flags s AND IS_WRITABLE \<noteq> 0"

record dir_entry =
  de_name :: pystr
  de_parent :: pystr
  de_stat :: "stat_info option"
  de_checksum :: "checksum_info option"

definition rstrip_slash :: "pystr \<Rightarrow> pystr" where
  "rstrip_slash p = rstrip_by (\<lambda>c. c = 47) p"

definition de_path :: "dir_entry \<Rightarrow> pystr" where
  "de_path e =
     (if de_parent e \<noteq> [] then rstrip_slash (de_parent e) @ [47] @ de_name e else de_name e)"

definition de_is_dir :: "dir_entry \<Rightarrow> bool" where
  "de_is_dir e = (case de_stat e of None \<Rightarrow> False | Some s \<Rightarrow> stat_is_dir s)"

definition de_is_file :: "dir_entry \<Rightarrow> bool" where
  "de_is_file e = (case de_stat e of None \<Rightarrow> False | Some s \<Rightarrow> stat_is_file s)"

subsection \<open>VFSInfo, SpaceInfo, LocationInfo\<close>

record vfs_info =
  nodes_rw :: int
  free_rw :: int
  utilization_rw :: int
  nodes_staging :: int
  free_staging :: int
  utilization_staging :: int

record space_info =
  sp_name :: pystr
  sp_total :: int
  sp_free :: int
  sp_largest_free :: int
  sp_used :: int
  sp_quota :: int

definition sp_unlimited :: "space_info \<Rightarrow> bool" where
  "sp_unlimited s \<longleftrightarrow> sp_quota s < 0"

record location_info =
  loc_address :: pystr
  loc_type :: pystr
  loc_access :: pystr

text \<open>\<open>sub in s\<close>, and \<open>s.islower()\<close>.\<close>

definition contains :: "pystr \<Rightarrow> pystr \<Rightarrow> bool" where
  "contains sub s \<longleftrightarrow> sub = [] \<or> fst (snd (partition_sub sub s))"

definition islower :: "pystr \<Rightarrow> bool" where
  "islower s \<longleftrightarrow> list_ex (\<lambda>c. 97 \<le> c \<and> c \<le> 122) s \<and> \<not> list_ex (\<lambda>c. 65 \<le> c \<and> c \<le> 90) s"

definition loc_has_port :: "location_info \<Rightarrow> bool" where
  "loc_has_port l = (case rpartition_at 58 (loc_address l) of (_, sep, port) \<Rightarrow> sep \<and> isdigit port)"

text \<open>\<open>rsplit(":", 1)[0]\<close> is what precedes the last colon.\<close>

definition loc_host :: "location_info \<Rightarrow> pystr" where
  "loc_host l =
     (let host = (if loc_has_port l then fst (rpartition_at 58 (loc_address l)) else loc_address l)
      in if take 1 host = [91] \<and> take 1 (rev host) = [93] then rev (drop 1 (rev (drop 1 host))) else host)"

text \<open>\<open>int(port)\<close> of a run of digits; past the interpreter's limit of 4300 digits it raises.\<close>

definition loc_port :: "location_info \<Rightarrow> int res" where
  "loc_port l =
     (case rpartition_at 58 (loc_address l) of (_, sep, port) \<Rightarrow>
        if sep \<and> isdigit port then (case py_int port of None \<Rightarrow> Inl ValueError | Some n \<Rightarrow> Inr n)
        else Inr 1094)"

definition loc_is_manager :: "location_info \<Rightarrow> bool" where
  "loc_is_manager l \<longleftrightarrow> contains (loc_type l) (str ''Mm'')"

definition loc_is_server :: "location_info \<Rightarrow> bool" where
  "loc_is_server l \<longleftrightarrow> contains (loc_type l) (str ''Ss'')"

definition loc_is_pending :: "location_info \<Rightarrow> bool" where
  "loc_is_pending l \<longleftrightarrow> islower (loc_type l)"

definition loc_is_writable :: "location_info \<Rightarrow> bool" where
  "loc_is_writable l \<longleftrightarrow> loc_access l = str ''w''"

subsection \<open>ProtocolInfo, CheckpointInfo\<close>

record protocol_info =
  pi_version :: int
  pi_flags :: int
  security_level :: int
  security_version :: int
  security_options :: int
  security_overrides :: "(int \<times> int) list"

definition version_str :: "protocol_info \<Rightarrow> pystr" where
  "version_str p =
     show_int (drop_bit 8 (pi_version p) AND 15) @ [46] @
     show_int (drop_bit 4 (pi_version p) AND 15) @ [46] @
     show_int (pi_version p AND 15)"

definition has_tls :: "protocol_info \<Rightarrow> bool" where
  "has_tls p \<longleftrightarrow> pi_flags p AND 0x80000000 \<noteq> 0"

definition pi_is_manager :: "protocol_info \<Rightarrow> bool" where
  "pi_is_manager p \<longleftrightarrow> pi_flags p AND 0x00000002 \<noteq> 0"

definition pi_is_server :: "protocol_info \<Rightarrow> bool" where
  "pi_is_server p \<longleftrightarrow> pi_flags p AND 0x00000001 \<noteq> 0"

definition pi_is_meta :: "protocol_info \<Rightarrow> bool" where
  "pi_is_meta p \<longleftrightarrow> pi_flags p AND 0x00000100 \<noteq> 0"

definition pi_is_proxy :: "protocol_info \<Rightarrow> bool" where
  "pi_is_proxy p \<longleftrightarrow> pi_flags p AND 0x00000200 \<noteq> 0"

definition pi_is_supervisor :: "protocol_info \<Rightarrow> bool" where
  "pi_is_supervisor p \<longleftrightarrow> pi_flags p AND 0x00000400 \<noteq> 0"

definition pi_is_cache :: "protocol_info \<Rightarrow> bool" where
  "pi_is_cache p \<longleftrightarrow> pi_flags p AND 0x00000080 \<noteq> 0"

definition supports_posc :: "protocol_info \<Rightarrow> bool" where
  "supports_posc p \<longleftrightarrow> pi_flags p AND 0x00100000 \<noteq> 0"

definition supports_pgio :: "protocol_info \<Rightarrow> bool" where
  "supports_pgio p \<longleftrightarrow> pi_flags p AND 0x00200000 \<noteq> 0"

definition supports_gpfile :: "protocol_info \<Rightarrow> bool" where
  "supports_gpfile p \<longleftrightarrow> pi_flags p AND 0x00400000 \<noteq> 0"

definition allows_anonymous_gpfile :: "protocol_info \<Rightarrow> bool" where
  "allows_anonymous_gpfile p \<longleftrightarrow> pi_flags p AND 0x00800000 \<noteq> 0"

definition requires_tls_for_data :: "protocol_info \<Rightarrow> bool" where
  "requires_tls_for_data p \<longleftrightarrow> pi_flags p AND 0x01000000 \<noteq> 0"

record checkpoint_info =
  ck_capacity :: int
  ck_used :: int

definition ck_free :: "checkpoint_info \<Rightarrow> int" where
  "ck_free c = max 0 (ck_capacity c - ck_used c)"

subsection \<open>Lemmas\<close>

text \<open>A flag word is never negative, whatever a server sends, and a real one is unchanged.\<close>

lemma bit_length_bound: "n < 2 ^ bit_length n"
proof (induction n rule: bit_length.induct)
  case (1 n)
  show ?case
  proof (cases "n = 0")
    case False
    then have "n div 2 < 2 ^ bit_length (n div 2)" using "1" by simp
    then show ?thesis using False by (subst bit_length.simps) simp
  qed (simp add: bit_length.simps)
qed

lemma StatInfoFlags_nonneg: "0 \<le> StatInfoFlags v"
proof -
  have "nat (- v) < 2 ^ bit_length (nat (- v))" by (rule bit_length_bound)
  then have "int (nat (- v)) < 2 ^ bit_length (nat (- v))"
    by (metis of_nat_less_iff of_nat_numeral of_nat_power)
  then show ?thesis by (auto simp: StatInfoFlags_def)
qed

lemma StatInfoFlags_id [simp]: "0 \<le> v \<Longrightarrow> StatInfoFlags v = v"
  by (simp add: StatInfoFlags_def)

end
