(* ===== verification/Responses.thy ===== *)
theory Responses
  imports Value_Types Wire_Buffer Wire_Constants
begin

text \<open>
  \<open>proto/responses.py\<close>: the decoders of control bodies (\<open>kXR_error\<close>, \<open>kXR_redirect\<close>,
  \<open>kXR_wait\<close>, \<open>kXR_attn\<close>, \<open>kXR_status\<close>), of the bring-up replies, and of the \<open>kXR_ok\<close>
  payloads of requests. Every decoder is a function of its bytes into a result or the
  exception it raises. \<open>parse_prepare_status\<close>, which reads a JSON document, is not modelled.

  The lemmas at the end say what the decoders promise their callers: which exceptions they
  can raise, that the loops end, and that the wire forms a server writes are read back.
\<close>

subsection \<open>Control-status bodies\<close>

record error_info =
  ei_code :: int
  ei_message :: pystr

definition parse_error :: "bytes \<Rightarrow> error_info res" where
  "parse_error data =
     rbind (r_i32 (Reader data)) (\<lambda>(code, r).
     rbind (r_cstring None r) (\<lambda>(msg, _).
     Inr \<lparr>ei_code = code, ei_message = msg\<rparr>))"

record redirect_info =
  rd_host :: pystr
  rd_port :: int
  rd_token :: pystr

definition rd_url :: "redirect_info \<Rightarrow> pystr" where
  "rd_url i =
     (if rd_port i < 0 then rd_host i
      else if rd_port i = 0 then str ''root://'' @ rd_host i @ str ''/''
      else str ''root://'' @ rd_host i @ str '':'' @ show_int (rd_port i) @ str ''/'')"

text \<open>\<open>_TARGET_END.split(s, 1)[0]\<close>: up to the first NUL, CR or LF.\<close>

definition target_field :: "pystr \<Rightarrow> pystr" where
  "target_field s = takeWhile (\<lambda>c. c \<noteq> 0 \<and> c \<noteq> 13 \<and> c \<noteq> 10) s"

definition parse_redirect :: "bytes \<Rightarrow> redirect_info res" where
  "parse_redirect data =
     rbind (r_i32 (Reader data)) (\<lambda>(port, r).
     rbind (r_rest r) (\<lambda>(raw, _).
     case partition_at 63 (target_field (utf8_decode raw)) of (host, sep, token) \<Rightarrow>
       if host = [] then Inl ProtocolError
       else Inr \<lparr>rd_host = host, rd_port = port,
                 rd_token = (if sep then dropWhile (\<lambda>c. c = 63 \<or> c = 38) token else [])\<rparr>))"

record wait_info =
  wi_seconds :: int
  wi_message :: pystr

definition parse_wait :: "bytes \<Rightarrow> wait_info res" where
  "parse_wait data =
     rbind (r_i32 (Reader data)) (\<lambda>(seconds, r).
     rbind (r_cstring None r) (\<lambda>(msg, _).
     Inr \<lparr>wi_seconds = seconds, wi_message = msg\<rparr>))"

definition parse_waitresp :: "bytes \<Rightarrow> wait_info res" where
  "parse_waitresp data =
     rbind (r_i32 (Reader data)) (\<lambda>(seconds, _). Inr \<lparr>wi_seconds = seconds, wi_message = []\<rparr>)"

record attn_info =
  at_action :: int
  at_params :: bytes

definition at_message :: "attn_info \<Rightarrow> pystr" where
  "at_message i = utf8_decode (until_nul (at_params i))"

definition parse_attn :: "bytes \<Rightarrow> attn_info res" where
  "parse_attn data =
     rbind (r_i32 (Reader data)) (\<lambda>(action, r).
     rbind (r_rest r) (\<lambda>(ps, _). Inr \<lparr>at_action = action, at_params = ps\<rparr>))"

record status_info =
  si_crc32c :: int
  si_streamid :: int
  si_requestid :: int
  si_resptype :: int
  si_dlen :: int
  si_info :: bytes

definition si_is_final :: "status_info \<Rightarrow> bool" where
  "si_is_final i \<longleftrightarrow> si_resptype i = kXR_FinalResult"

definition si_offset :: "status_info \<Rightarrow> int res" where
  "si_offset i =
     (if length (si_info i) < 8 then Inl ProtocolError
      else rbind (r_i64 (Reader (si_info i))) (\<lambda>(off, _). Inr off))"

definition parse_status :: "bytes \<Rightarrow> status_info res" where
  "parse_status data =
     rbind (r_u32 (Reader data)) (\<lambda>(crc, r1).
     rbind (r_u16 r1) (\<lambda>(streamid, r2).
     rbind (r_u8 r2) (\<lambda>(rid, r3).
     rbind (r_u8 r3) (\<lambda>(resptype, r4).
     rbind (r_skip 4 r4) (\<lambda>r5.
     rbind (r_i32 r5) (\<lambda>(dlen, r6).
     rbind (r_rest r6) (\<lambda>(info, _).
     Inr \<lparr>si_crc32c = crc, si_streamid = streamid, si_requestid = rid + kXR_1stRequest,
          si_resptype = resptype, si_dlen = dlen, si_info = info\<rparr>)))))))"

definition parse_pgwrite_cse :: "bytes \<Rightarrow> int list res" where
  "parse_pgwrite_cse data =
     (let n = int (length data)
      in if n < PGW_CSE_HDRLEN \<or> (n - PGW_CSE_HDRLEN) mod 8 \<noteq> 0 then Inl ProtocolError
         else rbind (r_skip PGW_CSE_HDRLEN (Reader data)) (\<lambda>r.
              rbind (r_many r_i64 (nat ((n - PGW_CSE_HDRLEN) div 8)) r) (\<lambda>(offs, _). Inr offs)))"

subsection \<open>Session bring-up\<close>

definition find_sec_reqs :: "bytes \<Rightarrow> bytes option" where
  "find_sec_reqs trailer =
     (if length trailer \<ge> 6 \<and> take 1 trailer = [0x53] then Some trailer
      else if length trailer \<ge> 4
           then (let off = 4 + unat (trailer ! 2) * 8
                 in if length trailer \<ge> off + 6 \<and> take 1 (drop off trailer) = [0x53]
                    then Some (drop off trailer) else None)
           else None)"

text \<open>The loop over \<open>secvec\<close>: pairs of request index and level, as far as the body goes.\<close>

fun sec_overrides :: "nat \<Rightarrow> bytes \<Rightarrow> (int \<times> int) list \<Rightarrow> (int \<times> int) list" where
  "sec_overrides (Suc n) (i # lv # rest) d =
     sec_overrides n rest (dict_set (uint i + kXR_1stRequest) (uint lv) d)"
| "sec_overrides _ _ d = d"

definition parse_protocol :: "bytes \<Rightarrow> protocol_info res" where
  "parse_protocol data =
     rbind (r_i32 (Reader data)) (\<lambda>(version, r1).
     rbind (r_u32 r1) (\<lambda>(flags, r2).
     rbind (r_rest r2) (\<lambda>(trailer, _).
     Inr (case find_sec_reqs trailer of
        None \<Rightarrow> \<lparr>pi_version = version, pi_flags = flags, security_level = kXR_secNone,
                 security_version = 0, security_options = 0, security_overrides = []\<rparr>
      | Some reqs \<Rightarrow>
          \<lparr>pi_version = version, pi_flags = flags, security_level = uint (reqs ! 4),
           security_version = uint (reqs ! 2), security_options = uint (reqs ! 3),
           security_overrides = sec_overrides (unat (reqs ! 5)) (drop 6 reqs) []\<rparr>))))"

record login_info =
  li_sessid :: bytes
  li_sec :: pystr

definition mechanisms :: "login_info \<Rightarrow> pystr list" where
  "mechanisms i =
     map (\<lambda>part. fst (partition_at 44 (drop 2 part)))
       (filter (\<lambda>part. take 2 part = str ''P='') (split_on 38 (li_sec i)))"

definition parse_login :: "bytes \<Rightarrow> login_info res" where
  "parse_login data =
     rbind (r_bytes (min SESSION_ID_LEN (int (remaining (Reader data)))) (Reader data)) (\<lambda>(sessid, r).
     rbind (r_rest r) (\<lambda>(raw, _).
     Inr \<lparr>li_sessid = sessid, li_sec = utf8_decode (until_nul raw)\<rparr>))"

definition parse_bind :: "bytes \<Rightarrow> int res" where
  "parse_bind data =
     rbind (r_u8 (Reader data)) (\<lambda>(pathid, _).
     if pathid = 0 then Inl ProtocolError else Inr pathid)"

subsection \<open>Metadata\<close>

text \<open>\<open>_flags\<close> with its memo table \<open>_FLAGS\<close>, which stops growing at 256 entries.\<close>

definition flags_memo :: "(int \<times> int) list \<Rightarrow> int \<Rightarrow> int \<times> (int \<times> int) list" where
  "flags_memo cache value =
     (case map_of cache value of
        Some flags \<Rightarrow> (flags, cache)
      | None \<Rightarrow> (let flags = StatInfoFlags value
                 in (flags, if length cache < 256 then dict_set value flags cache else cache)))"

text \<open>
  What a call of \<open>_flags\<close> returns does not depend on the table (\<open>flags_memo_value\<close> below), so
  the parsers use the word itself. \<open>int_of\<close> is \<open>int()\<close> with its \<open>ValueError\<close>.
\<close>

definition int_of :: "pystr \<Rightarrow> int res" where
  "int_of s = (case py_int s of None \<Rightarrow> Inl ValueError | Some n \<Rightarrow> Inr n)"

definition parse_stat_fields :: "pystr \<Rightarrow> pystr \<Rightarrow> stat_info res" where
  "parse_stat_fields s path =
     (let parts = split_ws s
      in if length parts \<ge> 9 then
           rbind (int_of (parts ! 3)) (\<lambda>mtime.
           rbind (int_of (parts ! 1)) (\<lambda>size'.
           rbind (int_of (parts ! 2)) (\<lambda>fl.
           rbind (int_of (parts ! 4)) (\<lambda>ctime.
           rbind (int_of (parts ! 5)) (\<lambda>atime.
           Inr \<lparr>st_id = parts ! 0, st_size = size', st_flags = StatInfoFlags fl, st_mtime = mtime,
                st_ctime = ctime, st_atime = atime, st_path = path, mode_str = parts ! 6,
                st_owner = parts ! 7, st_group = parts ! 8\<rparr>)))))
         else if length parts < 4 then Inl ProtocolError
         else
           rbind (int_of (parts ! 3)) (\<lambda>mtime.
           rbind (int_of (parts ! 1)) (\<lambda>size'.
           rbind (int_of (parts ! 2)) (\<lambda>fl.
           Inr \<lparr>st_id = parts ! 0, st_size = size', st_flags = StatInfoFlags fl, st_mtime = mtime,
                st_ctime = mtime, st_atime = mtime, st_path = path, mode_str = [],
                st_owner = [], st_group = []\<rparr>))))"

definition stat_fields :: "pystr \<Rightarrow> pystr \<Rightarrow> stat_info res" where
  "stat_fields s path =
     (case parse_stat_fields s path of
        Inl ValueError \<Rightarrow> Inl ProtocolError
      | r \<Rightarrow> r)"

definition nul_text :: "bytes \<Rightarrow> pystr" where
  "nul_text data = utf8_decode (until_nul data)"

definition parse_stat :: "bytes \<Rightarrow> pystr \<Rightarrow> stat_info res" where
  "parse_stat data path = stat_fields (nul_text data) path"

definition parse_statvfs :: "bytes \<Rightarrow> vfs_info res" where
  "parse_statvfs data =
     (let parts = split_ws (nul_text data)
      in if length parts = 4 \<and> list_all isdigit (drop 1 parts)
         then Inl (ServerException UnsupportedError kXR_Unsupported
                     (str ''server answered kXR_stat vfs with a plain stat'') None)
         else if length parts < 6 then Inl ProtocolError
         else (case rmap int_of (take 6 parts) of
                 Inl _ \<Rightarrow> Inl ProtocolError
               | Inr ns \<Rightarrow>
                   Inr \<lparr>nodes_rw = ns ! 0, free_rw = ns ! 1, utilization_rw = ns ! 2,
                        nodes_staging = ns ! 3, free_staging = ns ! 4,
                        utilization_staging = ns ! 5\<rparr>))"

definition parse_statx :: "bytes \<Rightarrow> int list" where
  "parse_statx data = map (\<lambda>b. StatInfoFlags (uint b)) data"

definition checked :: "pystr \<Rightarrow> pystr \<Rightarrow> pystr res" where
  "checked name path =
     (if 47 \<in> set name \<or> name = str ''..'' then Inl ProtocolError else Inr name)"

definition cksum_token :: "pystr \<Rightarrow> pystr \<times> checksum_info option" where
  "cksum_token line =
     (if 91 \<notin> set line then (line, None)
      else (case rpartition_at 91 line of (head, _, rest) \<Rightarrow>
        if \<not> (take 1 (rev (rstrip_by is_ws rest)) = [93]) then (line, None)
        else (case partition_at 58 (strip (rstrip_by (\<lambda>c. c = 93) (rstrip_by is_ws rest))) of
                (algorithm, colon, value) \<Rightarrow>
           if \<not> colon \<or> algorithm = [] then (line, None)
           else (head, if value = [] \<or> value = str ''none'' then None
                       else Some (ChecksumInfo (lower algorithm) value)))))"

text \<open>The pairs of \<open>zip(lines[::2], lines[1::2])\<close>: an odd last line is dropped.\<close>

fun line_pairs :: "'a list \<Rightarrow> ('a \<times> 'a) list" where
  "line_pairs (x # y # zs) = (x, y) # line_pairs zs"
| "line_pairs _ = []"

definition dirlist_entry :: "pystr \<Rightarrow> pystr \<times> pystr \<Rightarrow> dir_entry list res" where
  "dirlist_entry path p =
     (case p of (name, statline) \<Rightarrow>
        if name = str ''.'' then Inr []
        else rbind (checked name path) (\<lambda>_.
          case cksum_token statline of (line, checksum) \<Rightarrow>
            let prefix = (if path \<noteq> [] then rstrip_slash path @ [47] else [])
            in rbind (stat_fields line (prefix @ name)) (\<lambda>st.
               Inr [\<lparr>de_name = name, de_parent = path, de_stat = Some st, de_checksum = checksum\<rparr>])))"

definition parse_dirlist :: "bytes \<Rightarrow> pystr \<Rightarrow> bool \<Rightarrow> dir_entry list res" where
  "parse_dirlist data path with_stat =
     (let lines = filter (\<lambda>ln. ln \<noteq> []) (split_on 10 (nul_text data))
      in if \<not> with_stat \<or> take 1 lines \<noteq> [str ''.'']
         then rmap (\<lambda>n. rbind (checked n path) (\<lambda>nm.
                Inr \<lparr>de_name = nm, de_parent = path, de_stat = None, de_checksum = None\<rparr>)) lines
         else rbind (rmap (dirlist_entry path) (line_pairs lines)) (\<lambda>es. Inr (concat es)))"

definition parse_locate :: "bytes \<Rightarrow> location_info list" where
  "parse_locate data =
     map (\<lambda>token. \<lparr>loc_address = drop 2 token, loc_type = take 1 token,
                   loc_access = take 1 (drop 1 token)\<rparr>)
       (filter (\<lambda>token. \<not> length token < 3) (split_ws (nul_text data)))"

definition parse_open :: "bytes \<Rightarrow> pystr \<Rightarrow> (bytes \<times> stat_info option \<times> (int \<times> pystr)) res" where
  "parse_open data path =
     rbind (r_bytes FHANDLE_LEN (Reader data)) (\<lambda>(fhandle, r).
     if remaining r < 8 then Inr (fhandle, None, (0, []))
     else rbind (r_i32 r) (\<lambda>(page, r1).
          rbind (r_bytes 4 r1) (\<lambda>(alg, r2).
          rbind (r_rest r2) (\<lambda>(raw, _).
          let tail = strip (nul_text raw)
          in if tail \<noteq> []
             then rbind (stat_fields tail path) (\<lambda>st. Inr (fhandle, Some st, (page, nul_text alg)))
             else Inr (fhandle, None, (page, nul_text alg))))))"

definition parse_checksum :: "bytes \<Rightarrow> checksum_info res" where
  "parse_checksum data =
     (case partition_at 32 (strip (nul_text data)) of (name, _, value) \<Rightarrow>
        if value = [] then Inl ProtocolError
        else Inr (ChecksumInfo (lower name) (lower (strip value))))"

definition space_fields :: "pystr \<Rightarrow> (pystr \<times> pystr) list" where
  "space_fields s =
     foldl (\<lambda>d pair. case partition_at 61 pair of (key, sep, value) \<Rightarrow>
              if sep then dict_set (strip key) (strip value) d else d)
       [] (split_on 38 (map (\<lambda>c. if c = 10 then 38 else c) s))"

definition space_number :: "(pystr \<times> pystr) list \<Rightarrow> pystr \<Rightarrow> int \<Rightarrow> int res" where
  "space_number flds key dflt =
     (case map_of flds key of
        None \<Rightarrow> Inr dflt
      | Some raw \<Rightarrow> if raw = [] then Inr dflt
                    else (case py_int raw of None \<Rightarrow> Inl ProtocolError | Some n \<Rightarrow> Inr n))"

definition parse_space :: "bytes \<Rightarrow> space_info res" where
  "parse_space data =
     (let flds = space_fields (strip (nul_text data))
      in rbind (space_number flds (str ''oss.space'') 0) (\<lambda>total.
         rbind (space_number flds (str ''oss.free'') 0) (\<lambda>free.
         rbind (space_number flds (str ''oss.maxf'') 0) (\<lambda>largest.
         rbind (space_number flds (str ''oss.used'') 0) (\<lambda>used.
         rbind (space_number flds (str ''oss.quota'') (- 1)) (\<lambda>quota.
         Inr \<lparr>sp_name = (case map_of flds (str ''oss.cgroup'') of None \<Rightarrow> [] | Some n \<Rightarrow> n),
              sp_total = total, sp_free = free, sp_largest_free = largest, sp_used = used,
              sp_quota = quota\<rparr>))))))"

definition parse_checkpoint :: "bytes \<Rightarrow> checkpoint_info res" where
  "parse_checkpoint data =
     rbind (r_u32 (Reader data)) (\<lambda>(capacity, r).
     rbind (r_u32 r) (\<lambda>(used, _). Inr \<lparr>ck_capacity = capacity, ck_used = used\<rparr>))"

definition parse_readlink :: "bytes \<Rightarrow> pystr res" where
  "parse_readlink data =
     (let target = strip (nul_text data) in if target = [] then Inl ProtocolError else Inr target)"

subsection \<open>Vector reads\<close>

record readv_segment =
  seg_fhandle :: bytes
  seg_offset :: int
  seg_data :: bytes

lemma r_take_remaining:
  "r_take n r = Inr (bs, r') \<Longrightarrow> remaining r = remaining r' + nat n"
  using r_take_step reader_step_remaining by blast

lemma r_unpack_remaining:
  "r_unpack n conv r = Inr (v, r') \<Longrightarrow> remaining r = remaining r' + n"
  using r_unpack_step reader_step_remaining by blast

function readv_loop :: "reader \<Rightarrow> readv_segment list res" where
  "readv_loop r =
     (if remaining r = 0 then Inr []
      else rbind (r_bytes FHANDLE_LEN r) (\<lambda>(fhandle, r1).
           rbind (r_i32 r1) (\<lambda>(len, r2).
           rbind (r_i64 r2) (\<lambda>(offset, r3).
           if len < 0 then Inl ProtocolError
           else rbind (r_bytes len r3) (\<lambda>(d, r4).
                rbind (readv_loop r4) (\<lambda>rest.
                Inr (\<lparr>seg_fhandle = fhandle, seg_offset = offset, seg_data = d\<rparr> # rest)))))))"
  by auto
termination
  by (relation "measure remaining")
     (auto simp: r_bytes_def r_int_defs dest!: r_take_remaining r_unpack_remaining)

declare readv_loop.simps [simp del]

definition parse_readv :: "bytes \<Rightarrow> readv_segment list res" where
  "parse_readv data = readv_loop (Reader data)"

subsection \<open>Extended attributes\<close>

record fattr_item =
  fi_name :: pystr
  fi_code :: int
  fi_value :: "bytes option"

record fattr_result =
  fr_errors :: int
  fr_items :: "fattr_item list"

definition as_dict :: "fattr_result \<Rightarrow> (pystr \<times> bytes) list" where
  "as_dict f =
     foldl (\<lambda>d i. case fi_value i of None \<Rightarrow> d | Some v \<Rightarrow> dict_set (fi_name i) v d) [] (fr_items f)"

text \<open>\<open>_read_name\<close>: the bytes collected up to the NUL, then their text.\<close>

function read_name_raw :: "bytes \<Rightarrow> reader \<Rightarrow> (bytes \<times> reader) res" where
  "read_name_raw raw r =
     rbind (r_u8 r) (\<lambda>(b, r'). if b = 0 then Inr (raw, r') else read_name_raw (raw @ [word_of_int b]) r')"
  by auto
termination
  by (relation "measure (\<lambda>(_, r). remaining r)") (auto simp: r_int_defs dest!: r_unpack_remaining)

declare read_name_raw.simps [simp del]

definition read_name :: "reader \<Rightarrow> (pystr \<times> reader) res" where
  "read_name r = rbind (read_name_raw [] r) (\<lambda>(raw, r'). Inr (utf8_decode raw, r'))"

definition read_value :: "reader \<Rightarrow> (bytes option \<times> reader) res" where
  "read_value r =
     rbind (r_i32 r) (\<lambda>(n, r1). rbind (r_bytes n r1) (\<lambda>(v, r2). Inr (Some v, r2)))"

fun fattr_loop :: "bool \<Rightarrow> nat \<Rightarrow> reader \<Rightarrow> fattr_item list res" where
  "fattr_loop values 0 r = Inr []"
| "fattr_loop values (Suc n) r =
     (if remaining r < 3 then Inr []
      else rbind (r_u16 r) (\<lambda>(code, r1).
           rbind (read_name r1) (\<lambda>(name, r2).
           rbind (if values \<and> remaining r2 \<ge> 4 then read_value r2 else Inr (None, r2)) (\<lambda>(value, r3).
           rbind (fattr_loop values n r3) (\<lambda>rest.
           Inr (\<lparr>fi_name = name, fi_code = code, fi_value = value\<rparr> # rest))))))"

definition parse_fattr :: "bytes \<Rightarrow> bool \<Rightarrow> fattr_result res" where
  "parse_fattr data values =
     (if length data < 2 then Inr \<lparr>fr_errors = 0, fr_items = []\<rparr>
      else rbind (r_u8 (Reader data)) (\<lambda>(errors, r1).
           rbind (r_u8 r1) (\<lambda>(count, r2).
           rbind (fattr_loop values (nat count) r2) (\<lambda>items.
           Inr \<lparr>fr_errors = errors, fr_items = items\<rparr>))))"

lemma read_name_raw_remaining:
  "read_name_raw raw r = Inr (nm, r') \<Longrightarrow> remaining r' < remaining r"
proof (induction raw r rule: read_name_raw.induct)
  case (1 raw r)
  show ?case
  proof (cases "r_u8 r")
    case (Inl e)
    with "1.prems" show ?thesis by (simp add: read_name_raw.simps [of raw r])
  next
    case (Inr br)
    then obtain b r1 where b: "r_u8 r = Inr (b, r1)" by (cases br) auto
    then have "remaining r = remaining r1 + 1"
      unfolding r_u8_def by (rule r_unpack_remaining)
    with "1.IH" [OF b refl] "1.prems" b show ?thesis
      by (auto simp: read_name_raw.simps [of raw r] split: if_splits)
  qed
qed

lemma read_name_remaining: "read_name r = Inr (nm, r') \<Longrightarrow> remaining r' < remaining r"
  by (auto simp: read_name_def rbind_eq_Inr dest: read_name_raw_remaining)

lemma read_value_remaining: "read_value r = Inr (v, r') \<Longrightarrow> remaining r' \<le> remaining r"
  by (auto simp: read_value_def rbind_eq_Inr r_int_defs r_bytes_def
      dest!: r_take_remaining r_unpack_remaining)

function fattr_list_loop :: "bool \<Rightarrow> reader \<Rightarrow> fattr_item list res" where
  "fattr_list_loop values r =
     (if remaining r = 0 then Inr []
      else rbind (read_name r) (\<lambda>(name, r1).
           rbind (if values then read_value r1 else Inr (None, r1)) (\<lambda>(value, r2).
           rbind (fattr_list_loop values r2) (\<lambda>rest.
           Inr (\<lparr>fi_name = name, fi_code = 0, fi_value = value\<rparr> # rest)))))"
  by auto
termination
  by (relation "measure (\<lambda>(_, r). remaining r)")
     (auto dest!: read_name_remaining read_value_remaining split: if_splits)

declare fattr_list_loop.simps [simp del]

definition parse_fattr_list :: "bytes \<Rightarrow> bool \<Rightarrow> fattr_result res" where
  "parse_fattr_list data values =
     rbind (fattr_list_loop values (Reader data)) (\<lambda>items. Inr \<lparr>fr_errors = 0, fr_items = items\<rparr>)"

text \<open>\<open>tree.setdefault(path, []).append(name)\<close> for each entry that has a colon.\<close>

definition tree_add :: "bytes \<Rightarrow> (pystr \<times> pystr list) list \<Rightarrow> (pystr \<times> pystr list) list" where
  "tree_add entry tree =
     (if entry = [] then tree
      else (case rpartition_at 58 (utf8_decode entry) of (path, sep, name) \<Rightarrow>
        if \<not> sep then tree
        else dict_set path ((case map_of tree path of None \<Rightarrow> [] | Some ns \<Rightarrow> ns) @ [name]) tree))"

definition parse_fattr_tree :: "bytes \<Rightarrow> (pystr \<times> pystr list) list" where
  "parse_fattr_tree data = foldl (\<lambda>t e. tree_add e t) [] (split_on 0 data)"

subsection \<open>Which exceptions a decoder can raise\<close>

definition raises_only :: "exn set \<Rightarrow> 'a res \<Rightarrow> bool" where
  "raises_only E r \<longleftrightarrow> (\<forall>e. r = Inl e \<longrightarrow> e \<in> E)"

named_theorems raises \<open>which exceptions a call can raise\<close>

lemma raises_only_Inr [raises]: "raises_only E (Inr x)"
  by (simp add: raises_only_def)

lemma raises_only_Inl [raises]: "e \<in> E \<Longrightarrow> raises_only E (Inl e)"
  by (simp add: raises_only_def)

lemma raises_only_rbind [raises]:
  "raises_only E r \<Longrightarrow> (\<And>x. r = Inr x \<Longrightarrow> raises_only E (f x)) \<Longrightarrow> raises_only E (rbind r f)"
  by (cases r) (auto simp: raises_only_def)

lemma raises_only_prod [raises]:
  "(\<And>a b. p = (a, b) \<Longrightarrow> raises_only E (f a b)) \<Longrightarrow> raises_only E (case p of (a, b) \<Rightarrow> f a b)"
  by (cases p) auto

lemma raises_only_if [raises]:
  "(c \<Longrightarrow> raises_only E x) \<Longrightarrow> (\<not> c \<Longrightarrow> raises_only E y) \<Longrightarrow> raises_only E (if c then x else y)"
  by simp

lemma raises_only_take [raises]:
  "raises_only {ProtocolError} (r_take n r)"
  "raises_only {ProtocolError} (r_bytes n r)"
  "raises_only {ProtocolError} (r_rest r)"
  "raises_only {ProtocolError} (r_unpack k conv r)"
  by (auto simp: raises_only_def r_bytes_def r_rest_def dest: r_take_errors r_unpack_errors)

lemma raises_only_fields [raises]:
  "raises_only {ProtocolError} (r_u8 r)"
  "raises_only {ProtocolError} (r_u16 r)"
  "raises_only {ProtocolError} (r_u32 r)"
  "raises_only {ProtocolError} (r_i32 r)"
  "raises_only {ProtocolError} (r_i64 r)"
  by (simp_all add: r_int_defs raises_only_take)

lemma raises_only_skip [raises]: "raises_only {ProtocolError} (r_skip n r)"
  unfolding r_skip_def by (intro raises)

lemma raises_only_cstring [raises]: "raises_only {ProtocolError} (r_cstring None r)"
  by (simp add: r_cstring_def raises_only_Inr Let_def)

lemma raises_only_rmap [raises]:
  "(\<And>x. x \<in> set xs \<Longrightarrow> raises_only E (f x)) \<Longrightarrow> raises_only E (rmap f xs)"
  by (induction xs) (auto intro!: raises)

lemma raises_only_stat_fields [raises]: "raises_only {ProtocolError} (stat_fields s path)"
proof -
  have "raises_only {ProtocolError, ValueError} (int_of t)" for t
    by (auto simp: raises_only_def int_of_def split: option.splits)
  then have "raises_only {ProtocolError, ValueError} (parse_stat_fields s path)"
    unfolding parse_stat_fields_def Let_def
    by (intro raises_only_if raises_only_rbind raises_only_Inr raises_only_Inl) auto
  then show ?thesis
    by (auto simp: raises_only_def stat_fields_def split: sum.splits exn.splits)
qed

lemma raises_only_checked [raises]: "raises_only {ProtocolError} (checked n path)"
  unfolding checked_def by (intro raises) auto

lemma raises_only_space_number [raises]: "raises_only {ProtocolError} (space_number d k v)"
  by (auto simp: raises_only_def space_number_def split: option.splits if_splits)

lemma raises_only_many [raises]: "raises_only {ProtocolError} (r_many r_i64 n r)"
  by (auto simp: raises_only_def dest: i64.r_many_errors)

lemma raises_only_readv [raises]: "raises_only {ProtocolError} (readv_loop r)"
proof (induction r rule: readv_loop.induct)
  case (1 r)
  show ?case
    by (subst readv_loop.simps) (intro raises; auto intro: "1")
qed

lemma raises_only_read_name_raw [raises]: "raises_only {ProtocolError} (read_name_raw raw r)"
proof (induction raw r rule: read_name_raw.induct)
  case (1 raw r)
  show ?case
    by (subst read_name_raw.simps) (intro raises; auto intro: "1")
qed

lemma raises_only_read_name [raises]: "raises_only {ProtocolError} (read_name r)"
  unfolding read_name_def by (intro raises)

lemma raises_only_read_value [raises]: "raises_only {ProtocolError} (read_value r)"
  unfolding read_value_def by (intro raises)

lemma raises_only_fattr_loop [raises]: "raises_only {ProtocolError} (fattr_loop v n r)"
proof (induction n arbitrary: r)
  case (Suc n)
  then show ?case by (auto intro!: raises)
qed (simp add: raises_only_Inr)

lemma raises_only_fattr_list_loop [raises]: "raises_only {ProtocolError} (fattr_list_loop v r)"
proof (induction v r rule: fattr_list_loop.induct)
  case (1 v r)
  show ?case
    by (subst fattr_list_loop.simps) (intro raises; auto intro: "1")
qed

lemma raises_only_dirlist [raises]: "raises_only {ProtocolError} (parse_dirlist data path w)"
  unfolding parse_dirlist_def Let_def dirlist_entry_def
  by (intro raises)

lemmas decoder_defs =
  parse_error_def parse_redirect_def parse_wait_def parse_waitresp_def parse_attn_def
  parse_status_def parse_pgwrite_cse_def parse_protocol_def parse_login_def parse_bind_def
  parse_stat_def parse_open_def parse_checksum_def parse_space_def parse_checkpoint_def
  parse_readlink_def parse_readv_def parse_fattr_def parse_fattr_list_def

subsection \<open>Text a server sends\<close>

text \<open>A string that survives the wire: it encodes, and has no NUL that would cut it short.\<close>

definition wire_text :: "pystr \<Rightarrow> bool" where
  "wire_text s \<longleftrightarrow> list_all scalar s \<and> 0 \<notin> set s"

definition text_bytes :: "pystr \<Rightarrow> bytes" where
  "text_bytes s = map word_of_nat (concat (map utf8_char s))"

lemma text_bytes_append [simp]: "text_bytes (s @ t) = text_bytes s @ text_bytes t"
  by (simp add: text_bytes_def)

lemma wire_text_encode: "wire_text s \<Longrightarrow> utf8_encode s = Some (text_bytes s)"
  by (auto simp: wire_text_def utf8_encode_def text_bytes_def list_all_iff list_ex_iff scalar_def)

lemma wire_text_bound: "wire_text s \<Longrightarrow> list_all (\<lambda>c. c < 1114112) s"
  by (auto simp: wire_text_def list_all_iff scalar_def)

lemma decode_text_bytes: "wire_text s \<Longrightarrow> utf8_decode (text_bytes s) = s"
  using utf8_decode_encode wire_text_encode wire_text_bound by blast

lemma text_bytes_no_nul: "wire_text s \<Longrightarrow> 0 \<notin> set (text_bytes s)"
  using utf8_encode_no_nul [OF wire_text_encode wire_text_bound] by (simp add: wire_text_def)

lemma until_nul_id: "0 \<notin> set bs \<Longrightarrow> until_nul bs = bs"
  by (auto simp: until_nul_def takeWhile_eq_all_conv)

lemma until_nul_append: "0 \<notin> set bs \<Longrightarrow> until_nul (bs @ 0 # rest) = bs"
  by (induction bs) (auto simp: until_nul_def)

lemma nul_text_bytes: "wire_text s \<Longrightarrow> nul_text (text_bytes s) = s"
  by (simp add: nul_text_def until_nul_id text_bytes_no_nul decode_text_bytes)

lemma wire_text_join:
  "(\<And>s. s \<in> set ss \<Longrightarrow> wire_text s) \<Longrightarrow> wire_text sep \<Longrightarrow> wire_text (join sep ss)"
  by (induction sep ss rule: join.induct) (auto simp: wire_text_def)

subsection \<open>Segments of a vector read\<close>

interpretation len_offset: codec_pair "pack_i 4" r_i32 4 "pack_i 8" r_i64 8
  by unfold_locales

interpretation readahead: codec_pair
  "put_fixed 4" "r_bytes 4" 4 "put_pair (pack_i 4) (pack_i 8)" "get_pair r_i32 r_i64" "4 + 8"
  by unfold_locales

text \<open>A server's \<open>readahead_list\<close> entry: handle, length, offset, then the data.\<close>

definition readv_entry :: "readv_segment \<Rightarrow> bytes res" where
  "readv_entry seg =
     rbind (put_pair (put_fixed 4) (put_pair (pack_i 4) (pack_i 8))
              (seg_fhandle seg, int (length (seg_data seg)), seg_offset seg))
       (\<lambda>h. Inr (h @ seg_data seg))"

lemma readv_loop_header:
  "readv_loop r =
     (if remaining r = 0 then Inr []
      else rbind (get_pair (r_bytes 4) (get_pair r_i32 r_i64) r) (\<lambda>((fhandle, len, offset), r3).
           if len < 0 then Inl ProtocolError
           else rbind (r_bytes len r3) (\<lambda>(d, r4).
                rbind (readv_loop r4) (\<lambda>rest.
                Inr (\<lparr>seg_fhandle = fhandle, seg_offset = offset, seg_data = d\<rparr> # rest)))))"
  by (subst readv_loop.simps) (simp add: get_pair_def rbind_assoc case_prod_unfold cong: if_cong)

lemma readv_loop_entries:
  "rmap readv_entry segs = Inr bss \<Longrightarrow>
   readv_loop \<lparr>rbuf = pre @ concat bss, rpos = length pre\<rparr> = Inr segs"
proof (induction segs arbitrary: pre bss)
  case Nil
  then show ?case by (simp add: readv_loop.simps remaining_def)
next
  case (Cons seg segs)
  then obtain h bss' where
    h: "put_pair (put_fixed 4) (put_pair (pack_i 4) (pack_i 8))
          (seg_fhandle seg, int (length (seg_data seg)), seg_offset seg) = Inr h"
    and rest: "rmap readv_entry segs = Inr bss'" "bss = (h @ seg_data seg) # bss'"
    by (auto simp: rbind_eq_Inr readv_entry_def [of seg])
  let ?d = "seg_data seg"
  let ?buf = "pre @ h @ ?d @ concat bss'"
  have len: "length h = 16" using readahead.pair.put_width [OF h] by simp
  have g: "get_pair (r_bytes 4) (get_pair r_i32 r_i64) \<lparr>rbuf = ?buf, rpos = length pre\<rparr>
    = Inr ((seg_fhandle seg, int (length ?d), seg_offset seg), \<lparr>rbuf = ?buf, rpos = length pre + 16\<rparr>)"
    using readahead.pair.get_put [OF h, of pre "?d @ concat bss'"] by simp
  have "readv_loop \<lparr>rbuf = (pre @ h @ ?d) @ concat bss', rpos = length (pre @ h @ ?d)\<rparr> = Inr segs"
    using rest(1) by (rule Cons.IH)
  then show ?case
    using rest(2) len
    by (subst readv_loop_header) (simp add: g r_bytes_def r_take_def remaining_def add.assoc)
qed

subsection \<open>Extended attribute lists\<close>

text \<open>One entry of a list reply: a NUL-terminated name and, when asked for, a counted value.\<close>

definition fattr_entry :: "bool \<Rightarrow> pystr \<times> bytes \<Rightarrow> bytes" where
  "fattr_entry values e =
     text_bytes (fst e) @ [0] @ (if values then be_enc 4 (length (snd e)) @ snd e else [])"

lemma r_u8_at:
  "r_u8 \<lparr>rbuf = pre @ b # post, rpos = length pre\<rparr>
     = Inr (uint b, \<lparr>rbuf = pre @ b # post, rpos = length pre + 1\<rparr>)"
  by (simp add: r_u8_def r_unpack_def r_take_def be_dec_def)

lemma read_name_raw_at:
  "0 \<notin> set bs \<Longrightarrow>
   read_name_raw acc \<lparr>rbuf = pre @ bs @ 0 # post, rpos = length pre\<rparr>
     = Inr (acc @ bs, \<lparr>rbuf = pre @ bs @ 0 # post, rpos = length pre + length bs + 1\<rparr>)"
proof (induction bs arbitrary: pre acc)
  case Nil
  show ?case by (subst read_name_raw.simps) (simp add: r_u8_at)
next
  case (Cons b bs)
  have "read_name_raw (acc @ [b]) \<lparr>rbuf = (pre @ [b]) @ bs @ 0 # post, rpos = length (pre @ [b])\<rparr>
    = Inr ((acc @ [b]) @ bs,
        \<lparr>rbuf = (pre @ [b]) @ bs @ 0 # post, rpos = length (pre @ [b]) + length bs + 1\<rparr>)"
    using Cons.prems by (intro Cons.IH) simp
  moreover have "uint b \<noteq> 0" using Cons.prems by (auto simp: uint_0_iff)
  ultimately show ?case
    by (subst read_name_raw.simps) (simp add: r_u8_at)
qed

lemma read_name_at:
  "wire_text s \<Longrightarrow>
   read_name \<lparr>rbuf = pre @ text_bytes s @ 0 # post, rpos = length pre\<rparr>
     = Inr (s, \<lparr>rbuf = pre @ text_bytes s @ 0 # post, rpos = length pre + length (text_bytes s) + 1\<rparr>)"
  by (simp add: read_name_def read_name_raw_at text_bytes_no_nul decode_text_bytes)

lemma read_value_at:
  assumes "length v < 2147483648"
  shows "read_value \<lparr>rbuf = pre @ be_enc 4 (length v) @ v @ post, rpos = length pre\<rparr>
     = Inr (Some v, \<lparr>rbuf = pre @ be_enc 4 (length v) @ v @ post, rpos = length pre + 4 + length v\<rparr>)"
proof -
  have "pack_i 4 (int (length v)) = Inr (be_enc 4 (length v))"
    using assms by (simp add: pack_i_def)
  then have "r_i32 \<lparr>rbuf = pre @ be_enc 4 (length v) @ v @ post, rpos = length pre\<rparr>
    = Inr (int (length v), \<lparr>rbuf = pre @ be_enc 4 (length v) @ v @ post, rpos = length pre + 4\<rparr>)"
    by (rule i32.get_put)
  then show ?thesis by (simp add: read_value_def r_bytes_def r_take_def)
qed

definition fattr_expected :: "bool \<Rightarrow> pystr \<times> bytes \<Rightarrow> fattr_item" where
  "fattr_expected values e =
     \<lparr>fi_name = fst e, fi_code = 0, fi_value = (if values then Some (snd e) else None)\<rparr>"

lemma fattr_list_loop_entries:
  assumes "\<And>e. e \<in> set es \<Longrightarrow> wire_text (fst e) \<and> length (snd e) < 2147483648"
  shows "fattr_list_loop values \<lparr>rbuf = pre @ concat (map (fattr_entry values) es), rpos = length pre\<rparr>
    = Inr (map (fattr_expected values) es)"
  using assms
proof (induction es arbitrary: pre)
  case Nil
  show ?case by (simp add: fattr_list_loop.simps remaining_def)
next
  case (Cons e es)
  obtain s v where e: "e = (s, v)" by (cases e)
  have ok: "wire_text s" "length v < 2147483648" using Cons.prems [of e] e by simp_all
  let ?tl = "concat (map (fattr_entry values) es)"
  have IH: "fattr_list_loop values \<lparr>rbuf = (pre @ x) @ ?tl, rpos = length (pre @ x)\<rparr>
      = Inr (map (fattr_expected values) es)" for x
    by (rule Cons.IH) (simp add: Cons.prems)
  show ?case
  proof (cases "values")
    case True
    let ?n = "pre @ text_bytes s @ [0]"
    have "read_value \<lparr>rbuf = ?n @ be_enc 4 (length v) @ v @ ?tl, rpos = length ?n\<rparr>
      = Inr (Some v, \<lparr>rbuf = ?n @ be_enc 4 (length v) @ v @ ?tl, rpos = length ?n + 4 + length v\<rparr>)"
      using ok(2) by (rule read_value_at)
    then show ?thesis
      using True IH [of "text_bytes s @ 0 # be_enc 4 (length v) @ v"]
      by (subst fattr_list_loop.simps)
         (simp add: e fattr_entry_def fattr_expected_def remaining_def read_name_at [OF ok(1)] add_ac)
  next
    case False
    then show ?thesis
      using IH [of "text_bytes s @ [0]"]
      by (subst fattr_list_loop.simps)
         (simp add: e fattr_entry_def fattr_expected_def remaining_def read_name_at [OF ok(1)])
  qed
qed

subsection \<open>Names, lines and numbers\<close>

lemma flags_memo_value:
  "(\<And>k v. map_of cache k = Some v \<Longrightarrow> v = StatInfoFlags k) \<Longrightarrow>
   fst (flags_memo cache value) = StatInfoFlags value \<and>
   (\<forall>k v. map_of (snd (flags_memo cache value)) k = Some v \<longrightarrow> v = StatInfoFlags k) \<and>
   length (snd (flags_memo cache value)) \<le> max 256 (length cache)"
proof -
  assume inv: "\<And>k v. map_of cache k = Some v \<Longrightarrow> v = StatInfoFlags k"
  have "length (dict_set k v d) \<le> Suc (length d)" for k v and d :: "(int \<times> int) list"
    by (induction k v d rule: dict_set.induct) auto
  from this [of "value" "StatInfoFlags value" cache] show ?thesis
    by (auto simp: flags_memo_def Let_def map_of_dict_set inv split: option.splits if_splits)
qed

text \<open>The stat line of a protocol-4 server, as a server prints it.\<close>

definition stat_line :: "pystr \<Rightarrow> nat \<Rightarrow> nat \<Rightarrow> nat \<Rightarrow> pystr" where
  "stat_line ident size' flags mtime =
     join [32] [ident, show_nat size', show_nat flags, show_nat mtime]"

definition word_text :: "pystr \<Rightarrow> bool" where
  "word_text s \<longleftrightarrow> s \<noteq> [] \<and> list_all (\<lambda>c. \<not> is_ws c) s"

definition short_number :: "nat \<Rightarrow> bool" where
  "short_number n \<longleftrightarrow> length (show_nat n) \<le> 4300"

lemma word_text_show: "word_text (show_nat n)"
  using show_nat_digits [of n] by (auto simp: word_text_def list_all_iff digit_not_ws)

lemma split_ws_stat_line:
  "word_text ident \<Longrightarrow>
   split_ws (stat_line ident a b c) = [ident, show_nat a, show_nat b, show_nat c]"
  unfolding stat_line_def using word_text_show
  by (intro split_ws_join) (auto simp: word_text_def)

lemma stat_fields_line:
  assumes "word_text ident" "short_number sz" "short_number fl" "short_number mt"
  shows "stat_fields (stat_line ident sz fl mt) path =
     Inr \<lparr>st_id = ident, st_size = int sz, st_flags = int fl, st_mtime = int mt,
          st_ctime = int mt, st_atime = int mt, st_path = path, mode_str = [],
          st_owner = [], st_group = []\<rparr>"
  using assms
  by (simp add: stat_fields_def parse_stat_fields_def split_ws_stat_line int_of_def
      py_int_show_nat short_number_def)

lemma partition_at_parts:
  "partition_at c xs = (a, f, b) \<Longrightarrow> set a \<subseteq> set xs \<and> set b \<subseteq> set xs \<and> c \<notin> set a"
  by (auto simp: partition_at_def dest: set_takeWhileD set_dropWhileD in_set_dropD)

text \<open>What \<open>_checked\<close> guarantees of a name.\<close>

definition component_name :: "pystr \<Rightarrow> bool" where
  "component_name n \<longleftrightarrow> n \<noteq> [] \<and> 47 \<notin> set n \<and> 10 \<notin> set n \<and> n \<noteq> str ''..''"

lemma checked_Inr: "checked n path = Inr m \<longleftrightarrow> m = n \<and> 47 \<notin> set n \<and> n \<noteq> str ''..''"
  by (auto simp: checked_def)

lemma line_pairs_mem: "(x, y) \<in> set (line_pairs xs) \<Longrightarrow> x \<in> set xs \<and> y \<in> set xs"
  by (induction xs rule: line_pairs.induct) auto

lemma rmap_mem: "rmap f xs = Inr ys \<Longrightarrow> y \<in> set ys \<Longrightarrow> \<exists>x \<in> set xs. f x = Inr y"
  by (fastforce simp: rmap_Inr_iff in_set_conv_nth)

lemma dirlist_entry_name:
  "dirlist_entry path (name, line) = Inr es \<Longrightarrow> e \<in> set es \<Longrightarrow>
   de_name e = name \<and> de_parent e = path \<and> 47 \<notin> set name \<and> name \<noteq> str ''..'' \<and>
   (\<exists>st. de_stat e = Some st \<and> st_path st = de_path e)"
proof -
  assume "dirlist_entry path (name, line) = Inr es" "e \<in> set es"
  then obtain l c st where ok: "checked name path = Inr name" "cksum_token line = (l, c)"
    "stat_fields l ((if path \<noteq> [] then rstrip_slash path @ [47] else []) @ name) = Inr st"
    "e = \<lparr>de_name = name, de_parent = path, de_stat = Some st, de_checksum = c\<rparr>"
    by (auto simp: dirlist_entry_def rbind_eq_Inr checked_Inr Let_def split: if_splits prod.splits)
  moreover have "st_path st = (if path \<noteq> [] then rstrip_slash path @ [47] else []) @ name"
    using ok(3) by (auto simp: stat_fields_def parse_stat_fields_def Let_def rbind_eq_Inr
        split: if_splits sum.splits exn.splits)
  ultimately show ?thesis by (auto simp: checked_Inr de_path_def)
qed

lemma rmap_pack_length: "rmap (pack_i n) vs = Inr bss \<Longrightarrow> length (concat bss) = n * length vs"
  by (induction vs arbitrary: bss) (auto simp: rbind_eq_Inr dest: pack_i_length)

lemma r_many_enough:
  "reader_ok r \<Longrightarrow> 8 * n \<le> remaining r \<Longrightarrow> \<exists>vs r'. r_many r_i64 n r = Inr (vs, r')"
proof (induction n arbitrary: r)
  case 0
  show ?case by simp
next
  case (Suc n)
  then obtain v r1 where g: "r_i64 r = Inr (v, r1)"
    using r_take_enough [of r 8] by (auto simp: r_i64_def r_unpack_def)
  then have "reader_step r 8 r1" by (rule i64.get_step)
  then have "reader_ok r1" "remaining r = remaining r1 + 8"
    by (simp_all add: reader_step_ok reader_step_remaining)
  then show ?case using Suc g by fastforce
qed

lemma pgwrite_cse_accepts:
  "(\<exists>offs. parse_pgwrite_cse data = Inr offs) \<longleftrightarrow> 8 \<le> length data \<and> 8 dvd length data"
proof -
  have acc: "\<exists>offs. parse_pgwrite_cse data = Inr offs" if "length data = 8 + 8 * k" for k
  proof -
    have "\<exists>vs r'. r_many r_i64 k \<lparr>rbuf = data, rpos = 8\<rparr> = Inr (vs, r')"
      using that by (intro r_many_enough) (simp_all add: reader_ok_def remaining_def)
    then show ?thesis
      using that by (auto simp: parse_pgwrite_cse_def r_skip_def r_take_def Reader_def)
  qed
  have "\<exists>k. length data = 8 + 8 * k" if "8 \<le> length data" "8 dvd length data"
  proof -
    from that obtain j where "length data = 8 * j" "j \<noteq> 0" by (auto elim!: dvdE)
    then show ?thesis by (intro exI [of _ "j - 1"]) (cases j; simp)
  qed
  with acc show ?thesis
    by (auto simp: parse_pgwrite_cse_def Let_def split: if_splits) presburger
qed

subsection \<open>Properties\<close>

text \<open>C17: a malformed reply surfaces as \<open>ProtocolError\<close> and nothing else: whatever bytes a
  server sends, the decoders of control bodies, bring-up replies and request payloads raise
  no \<open>IndexError\<close>, \<open>ValueError\<close> or \<open>struct.error\<close>; only the vfs stat may also answer that
  the server does not support it.\<close>

theorem response_decoder_errors:
  "raises_only {ProtocolError} (parse_error data) \<and>
   raises_only {ProtocolError} (parse_redirect data) \<and>
   raises_only {ProtocolError} (parse_wait data) \<and>
   raises_only {ProtocolError} (parse_waitresp data) \<and>
   raises_only {ProtocolError} (parse_attn data) \<and>
   raises_only {ProtocolError} (parse_status data) \<and>
   raises_only {ProtocolError} (parse_pgwrite_cse data) \<and>
   raises_only {ProtocolError} (parse_protocol data) \<and>
   raises_only {ProtocolError} (parse_login data) \<and>
   raises_only {ProtocolError} (parse_bind data) \<and>
   raises_only {ProtocolError} (parse_stat data path) \<and>
   raises_only {ProtocolError, ServerException UnsupportedError 3013
     (str ''server answered kXR_stat vfs with a plain stat'') None} (parse_statvfs data) \<and>
   raises_only {ProtocolError} (parse_dirlist data path with_stat) \<and>
   raises_only {ProtocolError} (parse_open data path) \<and>
   raises_only {ProtocolError} (parse_checksum data) \<and>
   raises_only {ProtocolError} (parse_space data) \<and>
   raises_only {ProtocolError} (parse_checkpoint data) \<and>
   raises_only {ProtocolError} (parse_readlink data) \<and>
   raises_only {ProtocolError} (parse_readv data) \<and>
   raises_only {ProtocolError} (parse_fattr data values) \<and>
   raises_only {ProtocolError} (parse_fattr_list data values)"
proof (intro conjI)
  show "raises_only {ProtocolError, ServerException UnsupportedError 3013
     (str ''server answered kXR_stat vfs with a plain stat'') None} (parse_statvfs data)"
    by (auto simp: raises_only_def parse_statvfs_def Let_def kXR_Unsupported_def
        split: sum.splits if_splits)
qed (((unfold decoder_defs Let_def)?; intro raises; simp)+)

text \<open>\<open>parse_readv\<close> reads back what a server sent: for segments whose handle is four bytes
  and whose length and offset fit their fields, the concatenated \<open>readahead_list\<close> entries
  decode to exactly those segments, in order.\<close>

theorem parse_readv_roundtrip:
  assumes "rmap readv_entry segs = Inr bss"
  shows "parse_readv (concat bss) = Inr segs"
  using readv_loop_entries [OF assms, of "[]"] by (simp add: parse_readv_def Reader_def)

theorem parse_readv_roundtrip_witness:
  "rmap readv_entry [\<lparr>seg_fhandle = [0, 0, 0, 1], seg_offset = 258, seg_data = [7, 8]\<rparr>]
     = Inr [[0, 0, 0, 1, 0, 0, 0, 2, 0, 0, 0, 0, 0, 0, 1, 2, 7, 8]] \<and>
   parse_readv (concat [[0, 0, 0, 1, 0, 0, 0, 2, 0, 0, 0, 0, 0, 0, 1, 2, 7, 8]])
     = Inr [\<lparr>seg_fhandle = [0, 0, 0, 1], seg_offset = 258, seg_data = [7, 8]\<rparr>]"
proof -
  have h: "rmap readv_entry [\<lparr>seg_fhandle = [0, 0, 0, 1], seg_offset = 258, seg_data = [7, 8]\<rparr>]
     = Inr [[0, 0, 0, 1, 0, 0, 0, 2, 0, 0, 0, 0, 0, 0, 1, 2, 7, 8]]"
    by code_simp
  show ?thesis using h parse_readv_roundtrip [OF h] by blast
qed

text \<open>\<open>parse_fattr_list\<close> reads back a list reply, with and without values, for any names
  that survive the wire and values whose length fits the counter.\<close>

theorem parse_fattr_list_roundtrip:
  assumes "\<And>e. e \<in> set es \<Longrightarrow> wire_text (fst e) \<and> length (snd e) < 2147483648"
  shows "parse_fattr_list (concat (map (fattr_entry values) es)) values
     = Inr \<lparr>fr_errors = 0, fr_items = map (fattr_expected values) es\<rparr>"
  using fattr_list_loop_entries [OF assms, where pre = "[]"]
  by (simp add: parse_fattr_list_def Reader_def)

theorem parse_fattr_list_roundtrip_witness:
  "parse_fattr_list (concat (map (fattr_entry True) [(str ''U.a'', [1, 2]), (str ''U.b'', [])])) True
     = Inr \<lparr>fr_errors = 0, fr_items = map (fattr_expected True) [(str ''U.a'', [1, 2]), (str ''U.b'', [])]\<rparr>"
  by (rule parse_fattr_list_roundtrip) (auto simp: wire_text_def scalar_def surrogate_def)

text \<open>The checksum-error trailer of a paged write: \<open>parse_pgwrite_cse\<close> returns the offsets
  a server wrote after any eight-byte header, and refuses exactly the trailers whose length
  is not eight bytes and whole offsets.\<close>

theorem parse_pgwrite_cse_exact:
  "(length hdr = 8 \<and> rmap (pack_i 8) offs = Inr bss \<longrightarrow>
      parse_pgwrite_cse (hdr @ concat bss) = Inr offs) \<and>
   ((\<exists>offs. parse_pgwrite_cse data = Inr offs) \<longleftrightarrow> 8 \<le> length data \<and> 8 dvd length data)"
proof (intro conjI impI)
  assume h: "length hdr = 8 \<and> rmap (pack_i 8) offs = Inr bss"
  then have len: "length (concat bss) = 8 * length offs" by (simp add: rmap_pack_length)
  then show "parse_pgwrite_cse (hdr @ concat bss) = Inr offs"
    using h i64.r_many_put [of offs bss hdr "[]"]
    by (simp add: parse_pgwrite_cse_def r_skip_def r_take_def Reader_def)
next
  show "(\<exists>offs. parse_pgwrite_cse data = Inr offs) \<longleftrightarrow> 8 \<le> length data \<and> 8 dvd length data"
    by (rule pgwrite_cse_accepts)
qed

theorem parse_pgwrite_cse_exact_witness:
  "parse_pgwrite_cse ([9, 9, 9, 9, 0, 0, 0, 0] @ concat [[0, 0, 0, 0, 0, 0, 16, 0]]) = Inr [4096]"
proof -
  have h: "length [9, 9, 9, 9, 0, 0, 0, 0 :: byte] = 8 \<and>
      rmap (pack_i 8) [4096] = Inr [[0, 0, 0, 0, 0, 0, 16, 0]]"
    by code_simp
  show ?thesis using parse_pgwrite_cse_exact h by blast
qed

text \<open>C18: every entry of a directory listing is a single path component: no slash, not
  \<open>..\<close>, not empty, and its full path is the directory asked about joined with it, so a
  recursive copy cannot be steered outside its destination.\<close>

theorem parse_dirlist_components:
  assumes "parse_dirlist data path with_stat = Inr es" and "e \<in> set es"
  shows "component_name (de_name e) \<and> de_parent e = path \<and>
    (\<forall>st. de_stat e = Some st \<longrightarrow> st_path st = de_path e)"
proof -
  let ?lines = "filter (\<lambda>ln. ln \<noteq> []) (split_on 10 (nul_text data))"
  have lines: "n \<in> set ?lines \<Longrightarrow> n \<noteq> [] \<and> 10 \<notin> set n" for n
    by (auto dest: split_on_elems)
  show ?thesis
  proof (cases "\<not> with_stat \<or> take 1 ?lines \<noteq> [str ''.'']")
    case True
    then have "rmap (\<lambda>n. rbind (checked n path) (\<lambda>nm.
        Inr \<lparr>de_name = nm, de_parent = path, de_stat = None, de_checksum = None\<rparr>)) ?lines = Inr es"
      using assms(1) unfolding parse_dirlist_def Let_def by (simp only: if_True)
    from rmap_mem [OF this assms(2)] show ?thesis
      by (auto simp: rbind_eq_Inr checked_Inr component_name_def dest: split_on_elems)
  next
    case False
    then have "rbind (rmap (dirlist_entry path) (line_pairs ?lines)) (\<lambda>es. Inr (concat es)) = Inr es"
      using assms(1) unfolding parse_dirlist_def Let_def by (simp only: if_False)
    then obtain ess where ess: "rmap (dirlist_entry path) (line_pairs ?lines) = Inr ess" "es = concat ess"
      by (auto simp: rbind_eq_Inr)
    then obtain es' where es': "es' \<in> set ess" "e \<in> set es'" using assms(2) by auto
    obtain name line where nl: "(name, line) \<in> set (line_pairs ?lines)"
      "dirlist_entry path (name, line) = Inr es'"
      using rmap_mem [OF ess(1) es'(1)] by auto
    have "name \<in> set ?lines" using line_pairs_mem [OF nl(1)] by (rule conjunct1)
    then have "name \<noteq> [] \<and> 10 \<notin> set name" by (rule lines)
    with dirlist_entry_name [OF nl(2) es'(2)] show ?thesis by (auto simp: component_name_def)
  qed
qed

theorem parse_dirlist_components_witness:
  "component_name (str ''a'')"
proof -
  have h: "parse_dirlist [97, 10, 98, 10] (str ''/d'') True
     = Inr [\<lparr>de_name = str ''a'', de_parent = str ''/d'', de_stat = None, de_checksum = None\<rparr>,
            \<lparr>de_name = str ''b'', de_parent = str ''/d'', de_stat = None, de_checksum = None\<rparr>]"
    by code_simp
  show ?thesis using parse_dirlist_components [OF h, of "\<lparr>de_name = str ''a'', de_parent = str ''/d'',
      de_stat = None, de_checksum = None\<rparr>"] by simp
qed

text \<open>C30: a \<open>kXR_redirect\<close> that decodes names a host, and neither the host nor the token
  contains a line ending or NUL; the host has no \<open>?\<close> and the token no leading separator.\<close>

theorem parse_redirect_target:
  assumes "parse_redirect data = Inr i"
  shows "rd_host i \<noteq> [] \<and> 63 \<notin> set (rd_host i) \<and>
     set (rd_host i) \<inter> {0, 10, 13} = {} \<and> set (rd_token i) \<inter> {0, 10, 13} = {} \<and>
     take 1 (rd_token i) \<noteq> [63] \<and> take 1 (rd_token i) \<noteq> [38]"
proof -
  obtain port r raw r' where rd: "r_i32 (Reader data) = Inr (port, r)" "r_rest r = Inr (raw, r')"
    using assms by (auto simp: parse_redirect_def rbind_eq_Inr)
  obtain host sep token where pt: "partition_at 63 (target_field (utf8_decode raw)) = (host, sep, token)"
    by (metis prod_cases3)
  then have p: "partition_at 63 (target_field (utf8_decode raw)) = (host, sep, token)" "host \<noteq> []"
    "rd_host i = host" "rd_token i = (if sep then dropWhile (\<lambda>c. c = 63 \<or> c = 38) token else [])"
    using assms by (auto simp: parse_redirect_def rd split: if_splits)
  have t: "c \<in> set (target_field s) \<Longrightarrow> c \<notin> {0, 10, 13}" for c s
    by (auto simp: target_field_def dest: set_takeWhileD)
  have parts: "set host \<subseteq> set (target_field (utf8_decode raw))"
    "set token \<subseteq> set (target_field (utf8_decode raw))" "63 \<notin> set host"
    using partition_at_parts [OF p(1)] by blast+
  have d: "take 1 (dropWhile P xs) \<noteq> [x]" if "P x" for P and x :: nat and xs
    using that by (induction xs) auto
  show ?thesis
    using p parts t d [of "\<lambda>c. c = 63 \<or> c = 38" 63 token] d [of "\<lambda>c. c = 63 \<or> c = 38" 38 token]
    by (auto dest!: set_dropWhileD)
qed

theorem parse_redirect_target_witness:
  "parse_redirect ([0, 0, 4, 70] @ map word_of_nat (str ''host?&cap=1'') @ [13, 10])
     = Inr \<lparr>rd_host = str ''host'', rd_port = 1094, rd_token = str ''cap=1''\<rparr> \<and>
   set (str ''cap=1'') \<inter> {0, 10, 13} = {}"
proof -
  have h: "parse_redirect ([0, 0, 4, 70] @ map word_of_nat (str ''host?&cap=1'') @ [13, 10])
     = Inr \<lparr>rd_host = str ''host'', rd_port = 1094, rd_token = str ''cap=1''\<rparr>"
    by code_simp
  show ?thesis using h parse_redirect_target [OF h] by simp
qed

text \<open>The stat line a protocol-4 server prints is read back field by field, wherever it
  arrives, with the modification time standing in for the other two times.\<close>

theorem parse_stat_line:
  assumes "word_text ident" "wire_text ident"
    and "short_number sz" "short_number fl" "short_number mt"
  shows "parse_stat (text_bytes (stat_line ident sz fl mt) @ [0]) path =
     Inr \<lparr>st_id = ident, st_size = int sz, st_flags = int fl, st_mtime = int mt,
          st_ctime = int mt, st_atime = int mt, st_path = path, mode_str = [],
          st_owner = [], st_group = []\<rparr>"
proof -
  have "wire_text (show_nat n)" for n
    using show_nat_digits [of n] by (auto simp: wire_text_def list_all_iff is_digit_def scalar_def surrogate_def)
  then have "wire_text (stat_line ident sz fl mt)"
    unfolding stat_line_def using assms(2)
    by (intro wire_text_join) (auto simp: wire_text_def scalar_def surrogate_def)
  then have "nul_text (text_bytes (stat_line ident sz fl mt) @ [0]) = stat_line ident sz fl mt"
    by (simp add: nul_text_def until_nul_append text_bytes_no_nul decode_text_bytes)
  with assms show ?thesis by (simp add: parse_stat_def stat_fields_line)
qed

theorem parse_stat_line_witness:
  "parse_stat (text_bytes (stat_line (str ''7'') 1536 16 99) @ [0]) (str ''/f'') =
     Inr \<lparr>st_id = str ''7'', st_size = int 1536, st_flags = int 16, st_mtime = int 99,
          st_ctime = int 99, st_atime = int 99, st_path = str ''/f'', mode_str = [],
          st_owner = [], st_group = []\<rparr>"
  by (rule parse_stat_line)
     (simp_all add: word_text_def wire_text_def scalar_def surrogate_def is_ws_def short_number_def show_nat.simps)

end
