(* ===== verification/Machine_State.thy ===== *)
theory Machine_State
  imports Sigver Auth Responses
begin

text \<open>
  \<open>proto/machine.py\<close>, the sans-I/O protocol machine of one connection: its states, events
  and records, and everything a driver calls to send. The machine's attributes are the
  fields of one record; an operation takes the machine and returns the machine it leaves
  behind with its result or the exception it raises, because a Python method that raises
  keeps the assignments it made before.

  Dictionaries whose order matters (\<open>_pending\<close>, \<open>_framers\<close>, \<open>_out_path\<close>) are ordered
  association lists. Log lines are left out.
\<close>

subsection \<open>States and events\<close>

datatype State = NEW | HANDSHAKING | PROTOCOL | TLS | LOGIN | AUTH | READY | FAILED | CLOSED | BIND

datatype event =
    Negotiated protocol_info
  | NeedTLS pystr
  | Ready bytes pystr
  | Completed int request bytes "status_info option"
  | Chunk int request bytes
  | Redirected int request redirect_info
  | Waiting int request rat pystr bool
  | Attention attn_info
  | Failed "int option" "request option" exn
  | PathLost int pystr
  | Disconnected pystr

subsection \<open>Per-stream and per-link state\<close>

record pending =
  pd_request :: request
  pd_parts :: "bytes list"
  pd_buffer :: bytes
  pd_status :: "status_info option"
  pd_path :: pystr
  pd_pathid :: int
  pd_path_bytes :: bytes
  pd_cap :: int

record framer =
  fm_buffer :: bytes
  fm_dlen :: int
  fm_sid :: int
  fm_status :: int
  fm_need_trailer :: int
  fm_trailer_for :: "int option"

definition Framer :: framer where
  "Framer = \<lparr>fm_buffer = [], fm_dlen = - 1, fm_sid = 0, fm_status = 0, fm_need_trailer = 0,
     fm_trailer_for = None\<rparr>"

subsection \<open>The machine\<close>

record machine =
  m_host :: pystr
  m_port :: int
  m_config :: config
  m_username :: pystr
  m_want_tls :: bool
  m_bind_to :: bytes
  m_pathid :: int
  m_state :: State
  m_protocol_info :: protocol_info
  m_handshake_version :: int
  m_session_id :: bytes
  m_mechanism :: pystr
  m_signer :: "signer option"
  m_tls_active :: bool
  m_out :: "bytes list"
  m_out_path :: "(int \<times> bytes list) list"
  m_events :: "event list"
  m_pending :: "(int \<times> pending) list"
  m_free :: "int list"
  m_retired :: "int set"
  m_leased :: "int set"
  m_next_sid :: int
  m_framers :: "(int \<times> framer) list"
  m_credentials :: "ladder option"
  m_credential :: "credential option"
  m_auth_rejected :: "(pystr \<times> pystr) list"
  m_offered :: "pystr list"
  m_auth_refusal :: "(int \<times> pystr) option"

text \<open>What the machine reads from outside: the signing primitives, the mechanisms, the
  process id \<open>Login\<close> sends.\<close>

record env =
  e_sig :: sig_env
  e_auth :: auth_env
  e_getpid :: int

type_synonym 'a op = "machine \<Rightarrow> machine \<times> 'a res"

definition SID_PROTOCOL :: int where "SID_PROTOCOL = 1"
definition SID_LOGIN :: int where "SID_LOGIN = 2"
definition SID_AUTH :: int where "SID_AUTH = 3"
definition SID_BIND :: int where "SID_BIND = 2"
definition FIRST_SID :: int where "FIRST_SID = 4"

definition SessionMachine :: "pystr \<Rightarrow> int \<Rightarrow> config \<Rightarrow> pystr \<Rightarrow> bool \<Rightarrow> machine" where
  "SessionMachine host port cfg username want_tls =
     \<lparr>m_host = host, m_port = port, m_config = cfg,
      m_username = (if username \<noteq> [] then username else cfg_username cfg),
      m_want_tls = (want_tls \<or> cfg_require_tls cfg), m_bind_to = [], m_pathid = 0,
      m_state = NEW,
      m_protocol_info = \<lparr>pi_version = 0, pi_flags = 0, security_level = 0, security_version = 0,
        security_options = 0, security_overrides = []\<rparr>,
      m_handshake_version = 0, m_session_id = [], m_mechanism = [], m_signer = None,
      m_tls_active = False, m_out = [], m_out_path = [], m_events = [], m_pending = [],
      m_free = [], m_retired = {}, m_leased = {}, m_next_sid = FIRST_SID,
      m_framers = [(0, Framer)], m_credentials = None, m_credential = None,
      m_auth_rejected = [], m_offered = [], m_auth_refusal = None\<rparr>"

definition data_path :: "machine \<Rightarrow> bytes \<Rightarrow> config \<Rightarrow> bool \<Rightarrow> machine" where
  "data_path primary session_id cfg want_tls =
     (SessionMachine (m_host primary) (m_port primary) cfg (m_username primary) want_tls)
       \<lparr>m_bind_to := session_id\<rparr>"

subsection \<open>Sequencing\<close>

definition mret :: "'a \<Rightarrow> 'a op" where
  "mret x m = (m, Inr x)"

definition mraise :: "exn \<Rightarrow> 'a op" where
  "mraise e m = (m, Inl e)"

definition mlift :: "'a res \<Rightarrow> 'a op" where
  "mlift r m = (m, r)"

definition mupd :: "(machine \<Rightarrow> machine) \<Rightarrow> unit op" where
  "mupd f m = (f m, Inr ())"

definition mbind :: "'a op \<Rightarrow> ('a \<Rightarrow> 'b op) \<Rightarrow> 'b op" where
  "mbind p f m = (case p m of (m', Inl e) \<Rightarrow> (m', Inl e) | (m', Inr x) \<Rightarrow> f x m')"

text \<open>An operation that looks at the machine first.\<close>

definition mread :: "(machine \<Rightarrow> 'a op) \<Rightarrow> 'a op" where
  "mread p m = p m m"

definition emit :: "event \<Rightarrow> unit op" where
  "emit e = mupd (\<lambda>m. m\<lparr>m_events := m_events m @ [e]\<rparr>)"

definition send_out :: "bytes list \<Rightarrow> unit op" where
  "send_out parts = mupd (\<lambda>m. m\<lparr>m_out := m_out m @ parts\<rparr>)"

text \<open>\<open>self._out_path.setdefault(pathid, []).extend(parts)\<close>.\<close>

definition send_path :: "int \<Rightarrow> bytes list \<Rightarrow> unit op" where
  "send_path pathid parts = mupd (\<lambda>m. m\<lparr>m_out_path :=
     dict_set pathid ((case map_of (m_out_path m) pathid of None \<Rightarrow> [] | Some q \<Rightarrow> q) @ parts)
       (m_out_path m)\<rparr>)"

lemma mbind_simps [simp]:
  "p m = (m', Inl e) \<Longrightarrow> mbind p f m = (m', Inl e)"
  "p m = (m', Inr x) \<Longrightarrow> mbind p f m = f x m'"
  by (simp_all add: mbind_def)

lemma op_simps [simp]:
  "mret x m = (m, Inr x)" "mraise e m = (m, Inl e)" "mlift r m = (m, r)" "mupd f m = (f m, Inr ())"
  "mread p m = p m m"
  by (simp_all add: mret_def mraise_def mlift_def mupd_def mread_def)

subsection \<open>Outbound\<close>

definition start :: "unit op" where
  "start = mread (\<lambda>m.
      if m_state m \<noteq> NEW then mraise ProtocolError
      else
        let flags = kXR_secreqs OR kXR_ableTLS OR (if m_want_tls m then kXR_wantTLS else 0)
        in mbind (send_out [HANDSHAKE]) (\<lambda>_.
           mbind (mlift (encode (Protocol flags) SID_PROTOCOL)) (\<lambda>frame.
           mbind (send_out [frame]) (\<lambda>_.
           mupd (\<lambda>m. m\<lparr>m_state := HANDSHAKING\<rparr>)))))"

definition buffers_to_send :: "machine \<Rightarrow> machine \<times> bytes list" where
  "buffers_to_send m = (m\<lparr>m_out := []\<rparr>, m_out m)"

definition data_to_send :: "machine \<Rightarrow> machine \<times> bytes" where
  "data_to_send m = (case buffers_to_send m of (m', bs) \<Rightarrow> (m', concat bs))"

definition path_buffers_to_send :: "int \<Rightarrow> machine \<Rightarrow> machine \<times> bytes list" where
  "path_buffers_to_send pathid m =
     (m\<lparr>m_out_path := dict_pop pathid (m_out_path m)\<rparr>,
      case map_of (m_out_path m) pathid of None \<Rightarrow> [] | Some q \<Rightarrow> q)"

definition path_data_to_send :: "int \<Rightarrow> machine \<Rightarrow> machine \<times> bytes" where
  "path_data_to_send pathid m =
     (case path_buffers_to_send pathid m of (m', bs) \<Rightarrow> (m', concat bs))"

definition has_data_to_send :: "machine \<Rightarrow> bool" where
  "has_data_to_send m \<longleftrightarrow> m_out m \<noteq> []"

definition has_path_data :: "machine \<Rightarrow> bool" where
  "has_path_data m \<longleftrightarrow> m_out_path m \<noteq> []"

definition acquire_sid :: "int op" where
  "acquire_sid m =
     (case m_free m of
        sid # rest \<Rightarrow> (m\<lparr>m_free := rest\<rparr>, Inr sid)
      | [] \<Rightarrow>
          let sid = m_next_sid m;
              nxt = (if m_next_sid m + 1 > 0xFFFF then FIRST_SID else m_next_sid m + 1);
              m' = m\<lparr>m_next_sid := nxt\<rparr>
          in if sid \<in> dict_keys (m_pending m) \<or> sid \<in> m_leased m \<or> sid \<in> m_retired m
             then (m', Inl ProtocolError) else (m', Inr sid))"

text \<open>\<open>_frame\<close>: the signer's sequence number advances even when what follows raises.\<close>

definition frame :: "env \<Rightarrow> request \<Rightarrow> int \<Rightarrow> bytes list op" where
  "frame env req sid m =
     (case encode_parts req sid of
        Inl e \<Rightarrow> (m, Inl e)
      | Inr parts \<Rightarrow>
          (case m_signer m of
             None \<Rightarrow> (m, Inr parts)
           | Some sg \<Rightarrow>
               (case sg_sign (e_sig env) [] (concat parts) sg of (sg', r) \<Rightarrow>
                  let m' = m\<lparr>m_signer := Some sg'\<rparr>
                  in case r of
                       Inl e \<Rightarrow> (m', Inl e)
                     | Inr None \<Rightarrow> (m', Inr [concat parts])
                     | Inr (Some (seqno, signature, nodata)) \<Rightarrow>
                         (m', rbind (encode (Sigver (opcode req) seqno signature kXR_SHA256_sig nodata) sid)
                                (\<lambda>sv. Inr [sv @ concat parts])))))"

definition send :: "env \<Rightarrow> request \<Rightarrow> int \<Rightarrow> pystr \<Rightarrow> bool \<Rightarrow> unit op" where
  "send env req sid path arrive_on_path =
     mbind (frame env req sid) (\<lambda>parts.
       let data = path_data req; pathid = req_pathid req
       in mbind (mupd (\<lambda>m. m\<lparr>m_pending := dict_set sid
              \<lparr>pd_request = req, pd_parts = parts, pd_buffer = [], pd_status = None, pd_path = path,
               pd_pathid = pathid, pd_path_bytes = data, pd_cap = reply_cap req\<rparr> (m_pending m)\<rparr>)) (\<lambda>_.
          if arrive_on_path \<and> pathid \<noteq> 0
          then send_path pathid (parts @ (if data \<noteq> [] then [data] else []))
          else mbind (send_out parts) (\<lambda>_.
               if data \<noteq> [] then send_path pathid [data] else mret ())))"

definition submit :: "env \<Rightarrow> request \<Rightarrow> pystr \<Rightarrow> bool \<Rightarrow> int op" where
  "submit env req path arrive_on_path = mread (\<lambda>m.
      if m_state m \<noteq> READY then mraise ProtocolError
      else mbind acquire_sid (\<lambda>sid.
           mbind (send env req sid path arrive_on_path) (\<lambda>_. mret sid)))"

definition resume :: "int \<Rightarrow> unit op" where
  "resume streamid = mread (\<lambda>m.
      case map_of (m_pending m) streamid of
        None \<Rightarrow> mraise ProtocolError
      | Some p \<Rightarrow>
          mbind (send_out (pd_parts p)) (\<lambda>_.
            if pd_path_bytes p \<noteq> [] then send_path (pd_pathid p) [pd_path_bytes p] else mret ()))"

definition release :: "int \<Rightarrow> machine \<Rightarrow> machine" where
  "release streamid m =
     (let m' = m\<lparr>m_pending := dict_pop streamid (m_pending m)\<rparr>
      in if streamid \<in> dict_keys (m_pending m) \<and> streamid \<ge> FIRST_SID
         then m'\<lparr>m_free := m_free m @ [streamid]\<rparr> else m')"

definition abandon :: "int \<Rightarrow> machine \<Rightarrow> machine" where
  "abandon streamid m =
     (let m' = m\<lparr>m_pending := dict_pop streamid (m_pending m)\<rparr>
      in if streamid \<in> dict_keys (m_pending m)
         then m'\<lparr>m_retired := insert streamid (m_retired m)\<rparr> else m')"

definition close :: "bool \<Rightarrow> unit op" where
  "close graceful = mread (\<lambda>m.
     mbind (if m_state m = READY \<and> graceful \<and> m_session_id m \<noteq> []
            then mbind acquire_sid (\<lambda>sid.
                 mbind (mlift (encode (EndSession (m_session_id m)) sid)) (\<lambda>f. send_out [f]))
            else mret ())
       (\<lambda>_. mbind (mupd (\<lambda>m. m\<lparr>m_state := CLOSED\<rparr>)) (\<lambda>_.
            emit (Disconnected (str ''closed by client'')))))"

subsection \<open>Bulk data plane\<close>

definition idle :: "machine \<Rightarrow> bool" where
  "idle m \<longleftrightarrow> m_state m = READY \<and> m_pending m = [] \<and> m_retired m = {}"

fun lease_loop :: "nat \<Rightarrow> int list op" where
  "lease_loop 0 = mret []"
| "lease_loop (Suc n) =
     mbind acquire_sid (\<lambda>sid.
     mbind (mupd (\<lambda>m. m\<lparr>m_leased := insert sid (m_leased m)\<rparr>)) (\<lambda>_.
     mbind (lease_loop n) (\<lambda>sids. mret (sid # sids))))"

definition lease_sids :: "int \<Rightarrow> int list op" where
  "lease_sids count = (if count < 1 then mraise ValueError else lease_loop (nat count))"

definition release_sid :: "int \<Rightarrow> machine \<Rightarrow> machine" where
  "release_sid sid m = m\<lparr>m_leased := m_leased m - {sid}, m_free := m_free m @ [sid]\<rparr>"

definition release_sids :: "int list \<Rightarrow> machine \<Rightarrow> machine" where
  "release_sids sids m = fold release_sid sids m"

definition retire_sid :: "int set \<Rightarrow> int \<Rightarrow> machine \<Rightarrow> machine" where
  "retire_sid owed sid m =
     (let m' = m\<lparr>m_leased := m_leased m - {sid}\<rparr>
      in if sid \<in> owed then m'\<lparr>m_retired := insert sid (m_retired m)\<rparr>
         else m'\<lparr>m_free := m_free m @ [sid]\<rparr>)"

definition retire_sids :: "int list \<Rightarrow> int set \<Rightarrow> machine \<Rightarrow> machine" where
  "retire_sids sids owed m = fold (retire_sid owed) sids m"

definition frame_parts_for :: "env \<Rightarrow> request \<Rightarrow> int \<Rightarrow> bytes list op" where
  "frame_parts_for env req sid = mread (\<lambda>m.
      if sid \<notin> m_leased m then mraise ProtocolError else frame env req sid)"

definition frame_for :: "env \<Rightarrow> request \<Rightarrow> int \<Rightarrow> bytes op" where
  "frame_for env req sid = mbind (frame_parts_for env req sid) (\<lambda>parts. mret (concat parts))"

subsection \<open>Events and accounting\<close>

definition next_event :: "machine \<Rightarrow> machine \<times> event option" where
  "next_event m =
     (case m_events m of [] \<Rightarrow> (m, None) | e # es \<Rightarrow> (m\<lparr>m_events := es\<rparr>, Some e))"

definition drain :: "machine \<Rightarrow> machine \<times> event list" where
  "drain m = (m\<lparr>m_events := []\<rparr>, m_events m)"

definition in_flight :: "machine \<Rightarrow> nat" where
  "in_flight m = length (m_pending m)"

definition streams_on :: "int \<Rightarrow> machine \<Rightarrow> int list" where
  "streams_on pathid m = map fst (filter (\<lambda>(sid, p). pd_pathid p = pathid) (m_pending m))"

definition forget_path :: "int \<Rightarrow> machine \<Rightarrow> machine" where
  "forget_path pathid m =
     (let m' = fold release (streams_on pathid m) m
      in m'\<lparr>m_framers := dict_pop pathid (m_framers m'), m_out_path := dict_pop pathid (m_out_path m')\<rparr>)"

end
