(* ===== verification/Machine_Inbound.thy ===== *)
theory Machine_Inbound
  imports Machine_State
begin

text \<open>
  The inbound half of \<open>proto/machine.py\<close>: bring-up, the handlers of each reply status,
  dispatch, and the framer that cuts a byte stream into frames and trailers.

  A handler that assigns \<open>framer.need_trailer\<close> and \<open>framer.trailer_for\<close> returns the two
  values (nothing else of the framer is read or written by a handler), and the parser
  applies them to the framer it holds. The parser's \<open>while\<close> loop is \<open>parse\<close>, one turn of it
  \<open>parse_step\<close>; it ends because every turn that goes on consumes input.
\<close>

subsection \<open>Bring-up\<close>

definition fail :: "exn \<Rightarrow> unit op" where
  "fail e = mbind (mupd (\<lambda>m. m\<lparr>m_state := FAILED\<rparr>)) (\<lambda>_. emit (Failed None None e))"

definition handshaken :: "bytes \<Rightarrow> unit op" where
  "handshaken body =
     mupd (\<lambda>m. m\<lparr>m_handshake_version := int (be_dec (take 4 body)), m_state := PROTOCOL\<rparr>)"

definition begin_login :: "env \<Rightarrow> unit op" where
  "begin_login env = mread (\<lambda>m.
      if m_bind_to m \<noteq> []
      then mbind (mupd (\<lambda>m. m\<lparr>m_state := BIND\<rparr>)) (\<lambda>_.
           mbind (mlift (encode (Bind (m_bind_to m)) SID_BIND)) (\<lambda>f. send_out [f]))
      else mbind (mupd (\<lambda>m. m\<lparr>m_state := LOGIN\<rparr>)) (\<lambda>_.
           mbind (mlift (encode (Login_default (e_getpid env) (m_username m)) SID_LOGIN)) (\<lambda>f.
             send_out [f])))"

definition tls_established :: "env \<Rightarrow> unit op" where
  "tls_established env = mread (\<lambda>m.
      if m_state m \<noteq> TLS then mraise ProtocolError
      else mbind (mupd (\<lambda>m. m\<lparr>m_tls_active := True\<rparr>)) (\<lambda>_. begin_login env))"

definition tls_demanded :: "int \<Rightarrow> bool" where
  "tls_demanded flags \<longleftrightarrow> flags AND (kXR_gotoTLS OR kXR_tlsLogin OR kXR_tlsSess OR kXR_tlsData) \<noteq> 0"

definition after_protocol :: "env \<Rightarrow> unit op" where
  "after_protocol env = mread (\<lambda>m.
      let flags = pi_flags (m_protocol_info m); demanded = tls_demanded flags
      in if m_want_tls m \<or> demanded
         then if flags AND kXR_haveTLS = 0 then fail ProtocolError
              else mbind (mupd (\<lambda>m. m\<lparr>m_state := TLS\<rparr>)) (\<lambda>_.
                   emit (NeedTLS (if demanded then str ''server requested TLS'' else str ''client policy'')))
         else begin_login env)"

definition become_ready :: "unit op" where
  "become_ready = mread (\<lambda>m.
      let key = (case m_credential m of None \<Rightarrow> None | Some c \<Rightarrow> cr_key c (cr_seen c));
          pinfo = m_protocol_info m
      in mbind (mupd (\<lambda>m. m\<lparr>m_state := READY\<rparr>)) (\<lambda>_.
         mbind (case key of
                  Some (k # ks) \<Rightarrow>
                    mupd (\<lambda>m. m\<lparr>m_signer := Some (Signer (k # ks) (security_level pinfo)
                      (security_overrides pinfo) (security_options pinfo AND kXR_secOData \<noteq> 0) False)\<rparr>)
                | _ \<Rightarrow> mret ()) (\<lambda>_.
         emit (Ready (m_session_id m) (m_mechanism m)))))"

text \<open>The loop over the ladder: a credential whose first blob raises is recorded and passed over.\<close>

lemma ladder_next_shrinks:
  assumes "ladder_next env ld why = (Inr (Some c), ld', why')"
  shows "2 * length (ld_order ld') + (if ld_done ld' then 0 else 1)
     < 2 * length (ld_order ld) + (if ld_done ld then 0 else (1 :: nat))"
proof -
  have nd: "\<not> ld_done ld" using assms by (auto simp: ladder_next_def)
  obtain r names w where cl: "climb env ld (ld_order ld) why = (r, names, w)"
    by (metis prod_cases3)
  show ?thesis
  proof (cases "\<exists>c. r = Inr (Some c)")
    case True
    then obtain d where r: "r = Inr (Some d)" ..
    then have "\<exists>pre name. ld_order ld = pre @ name # names"
      using climb_names cl by blast
    then have "length names < length (ld_order ld)" by auto
    then show ?thesis using assms nd cl r by (auto simp: ladder_next_def)
  next
    case False
    then show ?thesis
      using assms nd cl
      by (auto simp: ladder_next_def split: sum.splits option.splits if_splits prod.splits)
  qed
qed

function cred_loop ::
  "auth_env \<Rightarrow> ladder \<Rightarrow> (pystr \<times> pystr) list \<Rightarrow>
   (credential \<times> bytes) option res \<times> ladder \<times> (pystr \<times> pystr) list" where
  "cred_loop env ld why =
     (case ladder_next env ld why of
        (Inl e, ld', why') \<Rightarrow> (Inl e, ld', why')
      | (Inr None, ld', why') \<Rightarrow> (Inr None, ld', why')
      | (Inr (Some c), ld', why') \<Rightarrow>
          (case cr_initial c of
             Inl exc \<Rightarrow> cred_loop env ld' (dict_set (cr_name c) exc why')
           | Inr blob \<Rightarrow> (Inr (Some (c, blob)), ld', why')))"
  by auto
termination
  by (relation "measure (\<lambda>(_, ld, _). 2 * length (ld_order ld) + (if ld_done ld then 0 else 1))")
     (auto dest!: ladder_next_shrinks [OF sym])

declare cred_loop.simps [simp del]

definition auth_detail :: "(pystr \<times> pystr) list \<Rightarrow> pystr" where
  "auth_detail rejected = join (str ''; '') (map (\<lambda>(k, v). k @ str '': '' @ v) rejected)"

definition send_auth :: "pystr \<Rightarrow> bytes \<Rightarrow> unit op" where
  "send_auth name blob =
     mbind (mlift (rbind (Auth_init name blob) (\<lambda>req. encode req SID_AUTH))) (\<lambda>f. send_out [f])"

definition climb_ladder ::
  "env \<Rightarrow> pystr \<Rightarrow> machine \<Rightarrow> (credential \<times> bytes) option res \<times> ladder \<times> (pystr \<times> pystr) list" where
  "climb_ladder env sec m =
     (case (case m_credentials m of
              None \<Rightarrow> select sec (m_config m) (m_username m) (m_host m) (m_auth_rejected m) (Some (m_tls_active m))
            | Some ld \<Rightarrow> (ld, m_auth_rejected m)) of
        (ld, why) \<Rightarrow> cred_loop (e_auth env) ld why)"

definition next_credential :: "env \<Rightarrow> pystr \<Rightarrow> unit op" where
  "next_credential env sec = mread (\<lambda>m.
     case climb_ladder env sec m of (r, ld, why) \<Rightarrow>
       mbind (mupd (\<lambda>m. m\<lparr>m_credentials := Some ld, m_auth_rejected := why\<rparr>)) (\<lambda>_.
       case r of
         Inl e \<Rightarrow> mraise e
       | Inr (Some (c, blob)) \<Rightarrow>
           mbind (mupd (\<lambda>m. m\<lparr>m_credential := Some c, m_mechanism := cr_name c\<rparr>)) (\<lambda>_.
           send_auth (cr_name c) blob)
       | Inr None \<Rightarrow>
           (case m_auth_refusal m of
              Some (code, msg) \<Rightarrow>
                fail (ServerException ServerError code
                  (strip (strip msg @ str '' ['' @ auth_detail why @ str '']'')) None)
            | None \<Rightarrow> fail (NoMechanismError (m_offered m) why))))"

definition auth_refused :: "env \<Rightarrow> int \<Rightarrow> pystr \<Rightarrow> unit op" where
  "auth_refused env code msg = mread (\<lambda>m.
     case m_credential m of
       None \<Rightarrow> mraise AssertionError
     | Some c \<Rightarrow>
         let why = str ''refused by the server: ['' @ show_int code @ str ''] '' @
               (if strip msg \<noteq> [] then strip msg else str ''no reason given'')
         in mbind (mupd (\<lambda>m. m\<lparr>m_auth_rejected := dict_set (cr_name c) why (m_auth_rejected m),
                               m_auth_refusal := Some (code, msg), m_credential := None\<rparr>)) (\<lambda>_.
            next_credential env []))"

definition auth_step :: "env \<Rightarrow> bytes \<Rightarrow> unit op" where
  "auth_step env challenge = mread (\<lambda>m.
     case m_credential m of
       None \<Rightarrow> fail AuthenticationError
     | Some c \<Rightarrow>
         mbind (mupd (\<lambda>m. m\<lparr>m_credential := Some (c\<lparr>cr_seen := cr_seen c @ [challenge]\<rparr>)\<rparr>)) (\<lambda>_.
         case cr_step c (cr_seen c) challenge of
           Inl exc \<Rightarrow>
             mbind (mupd (\<lambda>m. m\<lparr>m_auth_rejected := dict_set (cr_name c) exc (m_auth_rejected m)\<rparr>)) (\<lambda>_.
             next_credential env [])
         | Inr None \<Rightarrow>
             mbind (mupd (\<lambda>m. m\<lparr>m_auth_rejected := dict_setdefault (cr_name c)
               (str ''server asked for another round the mechanism cannot answer'') (m_auth_rejected m)\<rparr>)) (\<lambda>_.
             next_credential env [])
         | Inr (Some blob) \<Rightarrow> send_auth (cr_name c) blob))"

definition bringup_error :: "env \<Rightarrow> bytes \<Rightarrow> unit op" where
  "bringup_error env body =
     mbind (mlift (parse_error body)) (\<lambda>info. mread (\<lambda>m.
       if m_state m = AUTH \<and> m_credential m \<noteq> None
       then auth_refused env (ei_code info) (ei_message info)
       else fail (ServerException ServerError (ei_code info) (ei_message info) None)))"

definition BRINGUP :: "State set" where
  "BRINGUP = {HANDSHAKING, PROTOCOL, LOGIN, AUTH, BIND}"

definition bringup :: "env \<Rightarrow> int \<Rightarrow> bytes \<Rightarrow> unit op" where
  "bringup env status body = mread (\<lambda>m.
      if status = kXR_error then bringup_error env body
      else if status \<noteq> kXR_ok \<and> status \<noteq> kXR_authmore then fail ProtocolError
      else if m_state m = HANDSHAKING then handshaken body
      else if m_state m = PROTOCOL then
        mbind (mlift (parse_protocol body)) (\<lambda>info.
        mbind (mupd (\<lambda>m. m\<lparr>m_protocol_info := info\<rparr>)) (\<lambda>_.
        mbind (emit (Negotiated info)) (\<lambda>_. after_protocol env)))
      else if m_state m = BIND then
        mbind (mlift (parse_bind body)) (\<lambda>pathid.
        mbind (mupd (\<lambda>m. m\<lparr>m_pathid := pathid\<rparr>)) (\<lambda>_. become_ready))
      else if m_state m = LOGIN then
        mbind (mlift (parse_login body)) (\<lambda>login.
        mbind (mupd (\<lambda>m. m\<lparr>m_session_id := li_sessid login, m_offered := mechanisms login\<rparr>)) (\<lambda>_.
        if li_sec login = [] then become_ready
        else mbind (mupd (\<lambda>m. m\<lparr>m_state := AUTH\<rparr>)) (\<lambda>_. next_credential env (li_sec login))))
      else if status = kXR_authmore then auth_step env body
      else become_ready)"

subsection \<open>Request responses\<close>

definition finish :: "int \<Rightarrow> event \<Rightarrow> unit op" where
  "finish sid ev = mbind (mupd (release sid)) (\<lambda>_. emit ev)"

definition within_cap :: "int \<Rightarrow> pending \<Rightarrow> nat \<Rightarrow> bool op" where
  "within_cap sid p extra =
     (if pd_cap p = 0 \<or> int (length (pd_buffer p) + extra) \<le> pd_cap p then mret True
      else mbind (finish sid (Failed (Some sid) (Some (pd_request p)) ProtocolError)) (\<lambda>_. mret False))"

definition append_buffer :: "int \<Rightarrow> pending \<Rightarrow> bytes \<Rightarrow> unit op" where
  "append_buffer sid p body =
     mupd (\<lambda>m. m\<lparr>m_pending := dict_set sid (p\<lparr>pd_buffer := pd_buffer p @ body\<rparr>) (m_pending m)\<rparr>)"

definition response_ok :: "int \<Rightarrow> bytes \<Rightarrow> pending \<Rightarrow> unit op" where
  "response_ok sid body p =
     mbind (if pd_cap p \<noteq> 0 then within_cap sid p (length body) else mret True) (\<lambda>ok.
       if \<not> ok then mret ()
       else finish sid (Completed sid (pd_request p)
              (if pd_buffer p \<noteq> [] then pd_buffer p @ body else body) (pd_status p)))"

definition response_chunk :: "int \<Rightarrow> bytes \<Rightarrow> pending \<Rightarrow> unit op" where
  "response_chunk sid body p =
     mbind (within_cap sid p (length body)) (\<lambda>ok.
       if ok then mbind (append_buffer sid p body) (\<lambda>_. emit (Chunk sid (pd_request p) body))
       else mret ())"

text \<open>\<open>server_error\<close>: the exception of \<open>raise_for_status\<close>, or a plain \<open>ServerError\<close> for code 0.\<close>

definition server_error :: "error_info \<Rightarrow> pystr \<Rightarrow> exn" where
  "server_error info path =
     (let p = (if path \<noteq> [] then Some path else None)
      in case raise_for_status (ei_code info) (ei_message info) p of
           Inl e \<Rightarrow> e
         | Inr _ \<Rightarrow> ServerException ServerError (ei_code info) (ei_message info) p)"

definition response_error :: "int \<Rightarrow> bytes \<Rightarrow> pending \<Rightarrow> unit op" where
  "response_error sid body p =
     mbind (mlift (parse_error body)) (\<lambda>info.
       finish sid (Failed (Some sid) (Some (pd_request p)) (server_error info (pd_path p))))"

definition response_redirect :: "int \<Rightarrow> bytes \<Rightarrow> pending \<Rightarrow> unit op" where
  "response_redirect sid body p =
     mbind (mlift (parse_redirect body)) (\<lambda>t. emit (Redirected sid (pd_request p) t))"

definition response_wait :: "int \<Rightarrow> bytes \<Rightarrow> pending \<Rightarrow> unit op" where
  "response_wait sid body p =
     mbind (mlift (parse_wait body)) (\<lambda>w. mread (\<lambda>m.
       emit (Waiting sid (pd_request p) (min (of_int (wi_seconds w)) (cfg_wait_cap (m_config m)))
         (wi_message w) True)))"

definition response_waitresp :: "int \<Rightarrow> bytes \<Rightarrow> pending \<Rightarrow> unit op" where
  "response_waitresp sid body p =
     mbind (mlift (parse_waitresp body)) (\<lambda>w.
       emit (Waiting sid (pd_request p) (of_int (wi_seconds w)) [] False))"

definition response_unexpected :: "int \<Rightarrow> pending \<Rightarrow> unit op" where
  "response_unexpected sid p = finish sid (Failed (Some sid) (Some (pd_request p)) ProtocolError)"

definition on_status_data :: "int \<Rightarrow> bytes \<Rightarrow> unit op" where
  "on_status_data sid data = mread (\<lambda>m.
     case map_of (m_pending m) sid of
       None \<Rightarrow> mret ()
     | Some p \<Rightarrow>
         (case pd_status p of
            None \<Rightarrow> mret ()
          | Some info \<Rightarrow>
              mbind (within_cap sid p (length data)) (\<lambda>ok.
                if \<not> ok then mret ()
                else if si_is_final info
                then finish sid (Completed sid (pd_request p)
                       (if pd_buffer p \<noteq> [] then pd_buffer p @ data else data) (Some info))
                else mbind (append_buffer sid p data) (\<lambda>_. emit (Chunk sid (pd_request p) data)))))"

text \<open>What a handler assigns to \<open>need_trailer\<close> and \<open>trailer_for\<close>, if it does.\<close>

type_synonym trailer_set = "(int \<times> int option) option"

definition no_trailer :: "machine \<times> unit res \<Rightarrow> machine \<times> trailer_set \<times> unit res" where
  "no_trailer mr = (fst mr, None, snd mr)"

definition response_status :: "int \<Rightarrow> bytes \<Rightarrow> pending \<Rightarrow> machine \<Rightarrow> machine \<times> trailer_set \<times> unit res" where
  "response_status sid body p m =
     (case parse_status body of
        Inl e \<Rightarrow> (m, None, Inl e)
      | Inr st \<Rightarrow>
          let m' = m\<lparr>m_pending := dict_set sid (p\<lparr>pd_status := Some st\<rparr>) (m_pending m)\<rparr>
          in if si_dlen st \<noteq> 0 then (m', Some (si_dlen st, Some sid), Inr ())
             else no_trailer (on_status_data sid [] m'))"

definition retired_reply :: "int \<Rightarrow> int \<Rightarrow> bytes \<Rightarrow> machine \<Rightarrow> machine \<times> trailer_set \<times> unit res" where
  "retired_reply sid status body m =
     (let free = m\<lparr>m_retired := m_retired m - {sid}, m_free := m_free m @ [sid]\<rparr>
      in if status = kXR_status
         then (case parse_status body of
                 Inl e \<Rightarrow> (m, None, Inl e)
               | Inr st \<Rightarrow>
                   (if si_is_final st then free else m,
                    Some (si_dlen st, if si_dlen st \<noteq> 0 then Some sid else None), Inr ()))
         else (if status \<noteq> kXR_oksofar \<and> status \<noteq> kXR_waitresp then free else m, None, Inr ()))"

subsection \<open>Dispatch\<close>

definition unwrap_attn :: "bytes \<Rightarrow> (int \<times> int \<times> bytes) option op" where
  "unwrap_attn body =
     mbind (mlift (parse_attn body)) (\<lambda>info.
       if at_action info = kXR_asynresp \<and> length body \<ge> 16
       then mbind (mlift (header_fields body 8)) (\<lambda>(sid, status, _).
            mret (Some (sid, status, drop 16 body)))
       else mbind (emit (Attention info)) (\<lambda>_. mret None))"

definition handle ::
  "int \<Rightarrow> int \<Rightarrow> bytes \<Rightarrow> pending \<Rightarrow> machine \<Rightarrow> machine \<times> trailer_set \<times> unit res" where
  "handle sid status body p m =
     (if status = kXR_ok then no_trailer (response_ok sid body p m)
      else if status = kXR_oksofar then no_trailer (response_chunk sid body p m)
      else if status = kXR_error then no_trailer (response_error sid body p m)
      else if status = kXR_redirect then no_trailer (response_redirect sid body p m)
      else if status = kXR_wait then no_trailer (response_wait sid body p m)
      else if status = kXR_waitresp then no_trailer (response_waitresp sid body p m)
      else if status = kXR_status then response_status sid body p m
      else no_trailer (response_unexpected sid p m))"

definition route ::
  "env \<Rightarrow> int \<Rightarrow> int \<Rightarrow> bytes \<Rightarrow> machine \<Rightarrow> machine \<times> trailer_set \<times> unit res" where
  "route env sid status body m =
     (if m_state m \<in> BRINGUP then no_trailer (bringup env status body m)
      else (case map_of (m_pending m) sid of
              None \<Rightarrow> if sid \<in> m_retired m then retired_reply sid status body m else (m, None, Inr ())
            | Some p \<Rightarrow> handle sid status body p m))"

definition dispatch ::
  "env \<Rightarrow> int \<Rightarrow> int \<Rightarrow> bytes \<Rightarrow> machine \<Rightarrow> machine \<times> trailer_set \<times> unit res" where
  "dispatch env sid status body m =
     (if status = kXR_attn
      then (case unwrap_attn body m of
              (m', Inl e) \<Rightarrow> (m', None, Inl e)
            | (m', Inr None) \<Rightarrow> (m', None, Inr ())
            | (m', Inr (Some (sid', status', body'))) \<Rightarrow> route env sid' status' body' m')
      else route env sid status body m)"

subsection \<open>Framing\<close>

definition set_trailer :: "trailer_set \<Rightarrow> framer \<Rightarrow> framer" where
  "set_trailer t f =
     (case t of None \<Rightarrow> f | Some (n, who) \<Rightarrow> f\<lparr>fm_need_trailer := n, fm_trailer_for := who\<rparr>)"

definition run_dispatch ::
  "env \<Rightarrow> int \<Rightarrow> int \<Rightarrow> bytes \<Rightarrow> framer \<times> machine \<Rightarrow> (framer \<times> machine) \<times> unit res" where
  "run_dispatch env sid status body fm =
     (case dispatch env sid status body (snd fm) of (m', t, r) \<Rightarrow> ((set_trailer t (fst fm), m'), r))"

text \<open>One turn of the parser's loop; \<open>True\<close> means the loop goes on.\<close>

definition parse_body :: "env \<Rightarrow> framer \<times> machine \<Rightarrow> (framer \<times> machine) \<times> bool res" where
  "parse_body env fm =
     (case fm of (f, m) \<Rightarrow>
        if int (length (fm_buffer f)) < fm_dlen f then ((f, m), Inr False)
        else
          let f' = f\<lparr>fm_dlen := - 1, fm_buffer := py_drop (fm_dlen f) (fm_buffer f)\<rparr>
          in case run_dispatch env (fm_sid f) (fm_status f) (py_take (fm_dlen f) (fm_buffer f)) (f', m) of
               (fm', r) \<Rightarrow> (fm', rbind r (\<lambda>_. Inr True)))"

definition parse_step :: "env \<Rightarrow> framer \<times> machine \<Rightarrow> (framer \<times> machine) \<times> bool res" where
  "parse_step env fm =
     (case fm of (f, m) \<Rightarrow>
        if fm_need_trailer f \<noteq> 0 then
          if int (length (fm_buffer f)) < fm_need_trailer f then ((f, m), Inr False)
          else
            let f' = f\<lparr>fm_need_trailer := 0, fm_trailer_for := None,
                       fm_buffer := py_drop (fm_need_trailer f) (fm_buffer f)\<rparr>
            in case fm_trailer_for f of
                 None \<Rightarrow> ((f', m), Inl AssertionError)
               | Some sid \<Rightarrow>
                   (case on_status_data sid (py_take (fm_need_trailer f) (fm_buffer f)) m of
                      (m', r) \<Rightarrow> ((f', m'), rbind r (\<lambda>_. Inr True)))
        else if fm_dlen f < 0 then
          if int (length (fm_buffer f)) < RESPONSE_HDRLEN then ((f, m), Inr False)
          else (case header_fields (fm_buffer f) 0 of
                  Inl e \<Rightarrow> ((f, m), Inl e)
                | Inr (sid, status, dlen) \<Rightarrow>
                    parse_body env
                      (f\<lparr>fm_sid := sid, fm_status := status, fm_dlen := dlen,
                         fm_buffer := drop (nat RESPONSE_HDRLEN) (fm_buffer f)\<rparr>, m))
        else parse_body env (f, m))"

definition fsize :: "framer \<Rightarrow> nat" where
  "fsize f = 4 * length (fm_buffer f) + (if fm_dlen f < 0 then 0 else 2) +
     (if fm_need_trailer f = 0 then 0 else 1)"

lemma fsize_set_trailer: "fsize (set_trailer t f) \<le> 4 * length (fm_buffer f) + (if fm_dlen f < 0 then 0 else 2) + 1"
  by (auto simp: fsize_def set_trailer_def split: option.splits prod.splits)

lemma parse_body_shrinks:
  assumes "parse_body env (f, m) = ((f', m'), Inr True)" and "0 \<le> fm_dlen f"
  shows "fsize f' < 4 * length (fm_buffer f) + 2"
proof -
  have "f' = set_trailer t (f\<lparr>fm_dlen := - 1, fm_buffer := py_drop (fm_dlen f) (fm_buffer f)\<rparr>)"
    if "dispatch env (fm_sid f) (fm_status f) (py_take (fm_dlen f) (fm_buffer f)) m = (x, t, r)" for x t r
    using assms(1) that
    by (auto simp: parse_body_def run_dispatch_def Let_def rbind_eq_Inr split: if_splits prod.splits)
  then obtain t where
    "f' = set_trailer t (f\<lparr>fm_dlen := - 1, fm_buffer := py_drop (fm_dlen f) (fm_buffer f)\<rparr>)"
    by (metis prod_cases3)
  then have "fsize f' \<le> 4 * length (py_drop (fm_dlen f) (fm_buffer f)) + 1"
    using fsize_set_trailer [of t "f\<lparr>fm_dlen := - 1, fm_buffer := py_drop (fm_dlen f) (fm_buffer f)\<rparr>"] by simp
  then show ?thesis using length_py_drop_le [of "fm_dlen f" "fm_buffer f"] by simp
qed

lemma parse_step_shrinks:
  assumes "parse_step env (f, m) = ((f', m'), Inr True)"
  shows "fsize f' < fsize f"
proof (cases "fm_need_trailer f = 0")
  case False
  then show ?thesis
    using assms length_py_drop_le [of "fm_need_trailer f" "fm_buffer f"]
    by (auto simp: parse_step_def fsize_def Let_def rbind_eq_Inr split: if_splits option.splits prod.splits)
next
  case need: True
  show ?thesis
  proof (cases "fm_dlen f < 0")
    case True
    then obtain sid status dlen where h: "header_fields (fm_buffer f) 0 = Inr (sid, status, dlen)"
      "8 \<le> length (fm_buffer f)"
      "parse_body env (f\<lparr>fm_sid := sid, fm_status := status, fm_dlen := dlen,
         fm_buffer := drop 8 (fm_buffer f)\<rparr>, m) = ((f', m'), Inr True)"
      using assms need by (auto simp: parse_step_def split: if_splits sum.splits prod.splits)
    have "0 \<le> dlen" using header_fields_bounds [OF h(1)] by simp
    then have "fsize f' < 4 * (length (fm_buffer f) - 8) + 2"
      using parse_body_shrinks [OF h(3)] by simp
    then show ?thesis using h(2) True need by (simp add: fsize_def)
  next
    case False
    then show ?thesis
      using assms need parse_body_shrinks [of env f m f' m'] by (simp add: parse_step_def fsize_def)
  qed
qed

function parse :: "env \<Rightarrow> framer \<times> machine \<Rightarrow> (framer \<times> machine) \<times> unit res" where
  "parse env fm =
     (case parse_step env fm of
        (fm', Inl e) \<Rightarrow> (fm', Inl e)
      | (fm', Inr False) \<Rightarrow> (fm', Inr ())
      | (fm', Inr True) \<Rightarrow> parse env fm')"
  by auto
termination
  by (relation "measure (\<lambda>(_, fm). fsize (fst fm))")
     (auto dest: parse_step_shrinks [OF sym])

declare parse.simps [simp del]

definition whole_frame :: "env \<Rightarrow> bytes \<Rightarrow> framer \<times> machine \<Rightarrow> (framer \<times> machine) \<times> bool res" where
  "whole_frame env data fm =
     (case fm of (f, m) \<Rightarrow>
        if fm_buffer f \<noteq> [] \<or> fm_dlen f \<ge> 0 \<or> fm_need_trailer f \<noteq> 0 \<or> length data < 8
        then ((f, m), Inr False)
        else (case header_fields data 0 of
                Inl e \<Rightarrow> ((f, m), Inl e)
              | Inr (sid, status, dlen) \<Rightarrow>
                  if int (length data) \<noteq> RESPONSE_HDRLEN + dlen then ((f, m), Inr False)
                  else (case run_dispatch env sid status (drop (nat RESPONSE_HDRLEN) data) (f, m) of
                          (fm', r) \<Rightarrow> (fm', rbind r (\<lambda>_. Inr True)))))"

definition feed :: "env \<Rightarrow> bytes \<Rightarrow> framer \<times> machine \<Rightarrow> (framer \<times> machine) \<times> unit res" where
  "feed env data fm =
     (case whole_frame env data fm of
        (fm', Inl e) \<Rightarrow> (fm', Inl e)
      | (fm', Inr True) \<Rightarrow> (fm', Inr ())
      | ((f, m), Inr False) \<Rightarrow> parse env (f\<lparr>fm_buffer := fm_buffer f @ data\<rparr>, m))"

subsection \<open>End of input\<close>

definition on_eof :: "machine \<Rightarrow> machine" where
  "on_eof m =
     (if m_state m = CLOSED \<or> m_state m = FAILED then m
      else m\<lparr>m_state := CLOSED, m_pending := [],
             m_events := m_events m
               @ map (\<lambda>(sid, p). Failed (Some sid) (Some (pd_request p))
                       (XrdConnectionError (str ''connection closed by peer''))) (m_pending m)
               @ [Disconnected (str ''connection closed by peer'')]\<rparr>)"

definition on_path_eof :: "int \<Rightarrow> machine \<Rightarrow> machine" where
  "on_path_eof pathid m =
     (let reason = str ''data path '' @ show_int pathid @ str '' closed by peer'';
          m1 = m\<lparr>m_events := m_events m
            @ map (\<lambda>(sid, p). Failed (Some sid) (Some (pd_request p)) (XrdConnectionError reason))
                (filter (\<lambda>(sid, p). pd_pathid p = pathid) (m_pending m))\<rparr>;
          m2 = forget_path pathid m1
      in m2\<lparr>m_events := m_events m2 @ [PathLost pathid reason]\<rparr>)"

text \<open>\<open>receive_data\<close>: \<open>None\<close> and the empty string are both the end of the link. The framer a
  link gets on its first use is the same object the dictionary holds.\<close>

definition the_framer :: "int \<Rightarrow> machine \<Rightarrow> framer" where
  "the_framer pathid m = (case map_of (m_framers m) pathid of None \<Rightarrow> Framer | Some f \<Rightarrow> f)"

definition put_framer :: "int \<Rightarrow> framer \<Rightarrow> machine \<Rightarrow> machine" where
  "put_framer pathid f m = m\<lparr>m_framers := dict_set pathid f (m_framers m)\<rparr>"

definition receive_data :: "env \<Rightarrow> bytes \<Rightarrow> int \<Rightarrow> unit op" where
  "receive_data env data pathid m =
     (let f = the_framer pathid m; m0 = put_framer pathid f m
      in if data = [] then (if pathid = 0 then on_eof m0 else on_path_eof pathid m0, Inr ())
         else (case feed env data (f, m0) of ((f', m'), r) \<Rightarrow> (put_framer pathid f' m', r)))"

subsection \<open>Evaluation\<close>

text \<open>The loops as equations without a bound continuation, for evaluation inside the kernel.\<close>

definition parse_from :: "env \<Rightarrow> (framer \<times> machine) \<times> bool res \<Rightarrow> (framer \<times> machine) \<times> unit res" where
  "parse_from env p =
     (case p of (fm, Inl e) \<Rightarrow> (fm, Inl e) | (fm, Inr False) \<Rightarrow> (fm, Inr ()) | (fm, Inr True) \<Rightarrow> parse env fm)"

lemma parse_from_code [code]:
  "parse_from env (fm, Inl e) = (fm, Inl e)"
  "parse_from env (fm, Inr False) = (fm, Inr ())"
  "parse_from env (fm, Inr True) = parse env fm"
  by (simp_all add: parse_from_def)

lemma parse_code [code]: "parse env fm = parse_from env (parse_step env fm)"
  by (subst parse.simps) (simp add: parse_from_def)

definition feed_from ::
  "env \<Rightarrow> bytes \<Rightarrow> (framer \<times> machine) \<times> bool res \<Rightarrow> (framer \<times> machine) \<times> unit res" where
  "feed_from env data p =
     (case p of (fm, Inl e) \<Rightarrow> (fm, Inl e) | (fm, Inr True) \<Rightarrow> (fm, Inr ())
      | ((f, m), Inr False) \<Rightarrow> parse env (f\<lparr>fm_buffer := fm_buffer f @ data\<rparr>, m))"

lemma feed_from_code [code]:
  "feed_from env data (fm, Inl e) = (fm, Inl e)"
  "feed_from env data (fm, Inr True) = (fm, Inr ())"
  "feed_from env data ((f, m), Inr False) = parse env (f\<lparr>fm_buffer := fm_buffer f @ data\<rparr>, m)"
  by (simp_all add: feed_from_def)

lemma feed_code [code]: "feed env data fm = feed_from env data (whole_frame env data fm)"
  by (simp add: feed_def feed_from_def)

definition cred_from ::
  "auth_env \<Rightarrow> credential option res \<times> ladder \<times> (pystr \<times> pystr) list \<Rightarrow>
   (credential \<times> bytes) option res \<times> ladder \<times> (pystr \<times> pystr) list" where
  "cred_from env p =
     (case p of
        (Inl e, ld', why') \<Rightarrow> (Inl e, ld', why')
      | (Inr None, ld', why') \<Rightarrow> (Inr None, ld', why')
      | (Inr (Some c), ld', why') \<Rightarrow>
          (case cr_initial c of
             Inl exc \<Rightarrow> cred_loop env ld' (dict_set (cr_name c) exc why')
           | Inr blob \<Rightarrow> (Inr (Some (c, blob)), ld', why')))"

definition cred_try ::
  "auth_env \<Rightarrow> pystr + bytes \<Rightarrow> credential \<Rightarrow> ladder \<Rightarrow> (pystr \<times> pystr) list \<Rightarrow>
   (credential \<times> bytes) option res \<times> ladder \<times> (pystr \<times> pystr) list" where
  "cred_try env b c ld why =
     (case b of Inl exc \<Rightarrow> cred_loop env ld (dict_set (cr_name c) exc why)
      | Inr blob \<Rightarrow> (Inr (Some (c, blob)), ld, why))"

lemma cred_code [code]:
  "cred_from env (Inl e, ld, why) = (Inl e, ld, why)"
  "cred_from env (Inr None, ld, why) = (Inr None, ld, why)"
  "cred_from env (Inr (Some c), ld, why) = cred_try env (cr_initial c) c ld why"
  "cred_try env (Inl exc) c ld why = cred_loop env ld (dict_set (cr_name c) exc why)"
  "cred_try env (Inr blob) c ld why = (Inr (Some (c, blob)), ld, why)"
  by (simp_all add: cred_from_def cred_try_def)

lemma cred_loop_code [code]: "cred_loop env ld why = cred_from env (ladder_next env ld why)"
  by (subst cred_loop.simps) (simp add: cred_from_def)

end
