(* ===== verification/Machine_Invariants.thy ===== *)
theory Machine_Invariants
  imports Machine_Inbound
begin

text \<open>
  Invariants of the protocol machine over every sequence of calls a driver can make. The
  locale \<open>stream_invariant\<close> states what a predicate on machines must satisfy at the places
  where stream bookkeeping changes, and derives that every operation keeps it. It is
  interpreted twice on the model: for the stream-id pool and for the caps on replies.
\<close>

subsection \<open>Driver calls\<close>

datatype call =
    Start
  | Submit request pystr bool
  | Resume int
  | Release int
  | Abandon int
  | Close bool
  | TlsEstablished
  | Lease int
  | ReleaseSids "int list"
  | RetireSids "int list" "int set"
  | FrameFor request int
  | TakeOut
  | TakePathOut int
  | NextEvent
  | Drain
  | ForgetPath int
  | Receive bytes int

fun exec :: "env \<Rightarrow> call \<Rightarrow> machine \<Rightarrow> machine" where
  "exec env Start m = fst (start m)"
| "exec env (Submit req path arrive) m = fst (submit env req path arrive m)"
| "exec env (Resume sid) m = fst (resume sid m)"
| "exec env (Release sid) m = release sid m"
| "exec env (Abandon sid) m = abandon sid m"
| "exec env (Close graceful) m = fst (close graceful m)"
| "exec env TlsEstablished m = fst (tls_established env m)"
| "exec env (Lease n) m = fst (lease_sids n m)"
| "exec env (ReleaseSids sids) m = release_sids sids m"
| "exec env (RetireSids sids owed) m = retire_sids sids owed m"
| "exec env (FrameFor req sid) m = fst (frame_for env req sid m)"
| "exec env TakeOut m = fst (buffers_to_send m)"
| "exec env (TakePathOut pathid) m = fst (path_buffers_to_send pathid m)"
| "exec env NextEvent m = fst (next_event m)"
| "exec env Drain m = fst (drain m)"
| "exec env (ForgetPath pathid) m = forget_path pathid m"
| "exec env (Receive data pathid) m = fst (receive_data env data pathid m)"

text \<open>A lease is given back once, and only by whoever holds it: the contract of
  \<open>release_sids\<close> and \<open>retire_sids\<close>. Nothing else is asked of a driver.\<close>

fun allowed :: "call \<Rightarrow> machine \<Rightarrow> bool" where
  "allowed (ReleaseSids sids) m \<longleftrightarrow> distinct sids \<and> set sids \<subseteq> m_leased m"
| "allowed (RetireSids sids owed) m \<longleftrightarrow> distinct sids \<and> set sids \<subseteq> m_leased m"
| "allowed _ m \<longleftrightarrow> True"

inductive reachable :: "env \<Rightarrow> machine \<Rightarrow> bool" for env where
  control: "reachable env (SessionMachine host port cfg user tls)"
| data: "reachable env (data_path primary session_id cfg tls)"
| step: "reachable env m \<Longrightarrow> allowed c m \<Longrightarrow> reachable env (exec env c m)"

subsection \<open>Operations that leave streams alone\<close>

text \<open>The part of the machine the stream invariants are about.\<close>

definition core :: "machine \<Rightarrow> (int \<times> pending) list \<times> int list \<times> int set \<times> int set \<times> int" where
  "core m = (m_pending m, m_free m, m_retired m, m_leased m, m_next_sid m)"

definition keeps_core :: "'a op \<Rightarrow> bool" where
  "keeps_core p \<longleftrightarrow> (\<forall>m. core (fst (p m)) = core m)"

text \<open>Preservation of a predicate by an operation, whether it returns or raises.\<close>

definition preserves :: "(machine \<Rightarrow> bool) \<Rightarrow> 'a op \<Rightarrow> bool" where
  "preserves I p \<longleftrightarrow> (\<forall>m. I m \<longrightarrow> I (fst (p m)))"

named_theorems pres \<open>operations that preserve a predicate\<close>

lemma preservesD: "preserves I p \<Longrightarrow> I m \<Longrightarrow> p m = (m', r) \<Longrightarrow> I m'"
  by (auto simp: preserves_def dest: spec [of _ m])

lemma preserves_basic [pres]:
  "preserves I (mret x)" "preserves I (mraise e)" "preserves I (mlift r)"
  by (simp_all add: preserves_def)

lemma preserves_mbind [pres]:
  assumes "preserves I p" and "\<And>x. preserves I (f x)"
  shows "preserves I (mbind p f)"
  unfolding preserves_def
proof (intro allI impI)
  fix m
  assume "I m"
  obtain m' r where p: "p m = (m', r)" by (cases "p m")
  then have "I m'" using assms(1) \<open>I m\<close> by (rule preservesD [rotated -1])
  then show "I (fst (mbind p f m))"
    using assms(2) p by (cases r) (auto simp: preserves_def)
qed

lemma preserves_mupd: "(\<And>m. I m \<Longrightarrow> I (f m)) \<Longrightarrow> preserves I (mupd f)"
  by (simp add: preserves_def)

lemma preserves_mread [pres]: "(\<And>m. preserves I (p m)) \<Longrightarrow> preserves I (mread p)"
  by (simp add: preserves_def)

lemma preserves_if [pres]:
  "(c \<Longrightarrow> preserves I p) \<Longrightarrow> (\<not> c \<Longrightarrow> preserves I q) \<Longrightarrow> preserves I (if c then p else q)"
  by simp

lemma preserves_option [pres]:
  "(x = None \<Longrightarrow> preserves I p) \<Longrightarrow> (\<And>y. x = Some y \<Longrightarrow> preserves I (q y)) \<Longrightarrow>
   preserves I (case x of None \<Rightarrow> p | Some y \<Rightarrow> q y)"
  by (cases x) auto

lemma preserves_list [pres]:
  "(x = [] \<Longrightarrow> preserves I p) \<Longrightarrow> (\<And>y ys. x = y # ys \<Longrightarrow> preserves I (q y ys)) \<Longrightarrow>
   preserves I (case x of [] \<Rightarrow> p | y # ys \<Rightarrow> q y ys)"
  by (cases x) auto

lemma preserves_prod [pres]:
  "(\<And>a b. x = (a, b) \<Longrightarrow> preserves I (q a b)) \<Longrightarrow> preserves I (case x of (a, b) \<Rightarrow> q a b)"
  by (cases x) auto

lemma preserves_sum [pres]:
  "(\<And>e. x = Inl e \<Longrightarrow> preserves I (p e)) \<Longrightarrow> (\<And>y. x = Inr y \<Longrightarrow> preserves I (q y)) \<Longrightarrow>
   preserves I (case x of Inl e \<Rightarrow> p e | Inr y \<Rightarrow> q y)"
  by (cases x) auto

lemma preserves_fst: "preserves I p \<Longrightarrow> I m \<Longrightarrow> I (fst (p m))"
  by (simp add: preserves_def)

subsection \<open>What a stream invariant must satisfy\<close>

text \<open>Whether \<open>n\<close> more bytes fit a reply: the condition of \<open>_within_cap\<close>.\<close>

definition fits :: "pending \<Rightarrow> nat \<Rightarrow> bool" where
  "fits p n \<longleftrightarrow> pd_cap p = 0 \<or> int (length (pd_buffer p) + n) \<le> pd_cap p"

fun carries_data :: "event \<Rightarrow> bool" where
  "carries_data (Completed _ _ _ _) = True"
| "carries_data (Chunk _ _ _) = True"
| "carries_data _ = False"

definition fresh_pending :: "request \<Rightarrow> pending \<Rightarrow> bool" where
  "fresh_pending req p \<longleftrightarrow>
     pd_request p = req \<and> pd_buffer p = [] \<and> pd_cap p = reply_cap req"

lemma joined_buffer [simp]:
  "(if b \<noteq> [] then b @ d else d) = b @ d" "(if b = [] then d else b @ d) = b @ d"
  by simp_all

locale stream_invariant =
  fixes I :: "machine \<Rightarrow> bool"
    and good :: "event \<Rightarrow> bool"
    and limbo :: "int \<Rightarrow> machine \<Rightarrow> bool"
  assumes other: "I m \<Longrightarrow> core m' = core m \<Longrightarrow> m_events m' = m_events m \<Longrightarrow> I m'"
    and emit_good: "I m \<Longrightarrow> good e \<Longrightarrow> I (m\<lparr>m_events := m_events m @ [e]\<rparr>)"
    and fewer_events: "I m \<Longrightarrow> set es \<subseteq> set (m_events m) \<Longrightarrow> I (m\<lparr>m_events := es\<rparr>)"
    and good_plain: "\<not> carries_data e \<Longrightarrow> good e"
    and good_completed: "I m \<Longrightarrow> map_of (m_pending m) sid = Some p \<Longrightarrow> fits p (length body) \<Longrightarrow>
          good (Completed sid (pd_request p) (pd_buffer p @ body) st)"
    and good_chunk: "I m \<Longrightarrow> map_of (m_pending m) sid = Some p \<Longrightarrow> fits p (length body) \<Longrightarrow>
          good (Chunk sid (pd_request p) body)"
    and releases: "I m \<Longrightarrow> I (release sid m)"
    and abandons: "I m \<Longrightarrow> I (abandon sid m)"
    and grows: "I m \<Longrightarrow> map_of (m_pending m) sid = Some p \<Longrightarrow> fits p (length body) \<Longrightarrow>
          I (m\<lparr>m_pending := dict_set sid (p\<lparr>pd_buffer := pd_buffer p @ body\<rparr>) (m_pending m)\<rparr>)"
    and notes_status: "I m \<Longrightarrow> map_of (m_pending m) sid = Some p \<Longrightarrow>
          I (m\<lparr>m_pending := dict_set sid (p\<lparr>pd_status := Some info\<rparr>) (m_pending m)\<rparr>)"
    and unretires: "I m \<Longrightarrow> sid \<in> m_retired m \<Longrightarrow>
          I (m\<lparr>m_retired := m_retired m - {sid}, m_free := m_free m @ [sid]\<rparr>)"
    and forgets_all: "I m \<Longrightarrow> I (m\<lparr>m_pending := []\<rparr>)"
    and acquires: "I m \<Longrightarrow> acquire_sid m = (m', r) \<Longrightarrow> I m' \<and> (\<forall>sid. r = Inr sid \<longrightarrow> limbo sid m')"
    and limbo_other: "limbo sid m \<Longrightarrow> core m' = core m \<Longrightarrow> limbo sid m'"
    and records: "I m \<Longrightarrow> limbo sid m \<Longrightarrow> fresh_pending req p \<Longrightarrow>
          I (m\<lparr>m_pending := dict_set sid p (m_pending m)\<rparr>)"
    and leases: "I m \<Longrightarrow> limbo sid m \<Longrightarrow> I (m\<lparr>m_leased := insert sid (m_leased m)\<rparr>)"
    and unleases: "I m \<Longrightarrow> sid \<in> m_leased m \<Longrightarrow> I (release_sid sid m)"
    and retires: "I m \<Longrightarrow> sid \<in> m_leased m \<Longrightarrow> I (retire_sid owed sid m)"
begin

lemma emits [pres]: "good e \<Longrightarrow> preserves I (emit e)"
  unfolding emit_def by (intro preserves_mupd emit_good)

lemma quiet [pres]: "(\<And>m. core (f m) = core m \<and> m_events (f m) = m_events m) \<Longrightarrow> preserves I (mupd f)"
  by (rule preserves_mupd) (metis other)

lemma sends [pres]: "preserves I (send_out parts)" "preserves I (send_path pathid parts)"
  unfolding send_out_def send_path_def by (intro quiet; simp add: core_def)+

lemma fails [pres]: "preserves I (fail e)"
  unfolding fail_def by (intro pres good_plain) (simp_all add: core_def)

lemma logs_in [pres]: "preserves I (begin_login env)"
  unfolding begin_login_def by (intro pres; simp add: core_def)

lemma chooses_tls [pres]: "preserves I (after_protocol env)"
  unfolding after_protocol_def Let_def by (intro pres good_plain; simp add: core_def)

lemma readies [pres]: "preserves I become_ready"
  unfolding become_ready_def Let_def
  by (intro pres good_plain; simp add: core_def)

lemma authenticates [pres]: "preserves I (send_auth name blob)"
  unfolding send_auth_def by (intro pres)

lemma climbs [pres]: "preserves I (next_credential env sec)"
  unfolding next_credential_def by (intro pres; simp add: core_def)

lemma refuses [pres]: "preserves I (auth_refused env code msg)"
  unfolding auth_refused_def Let_def by (intro pres; simp add: core_def)

lemma steps [pres]: "preserves I (auth_step env challenge)"
  unfolding auth_step_def by (intro pres; simp add: core_def)

lemma brings_up [pres]: "preserves I (bringup env status body)"
  unfolding bringup_def bringup_error_def handshaken_def
  by (intro pres good_plain; simp add: core_def)

text \<open>The handlers of a reply to a pending stream.\<close>

lemma finishes [pres]: "good e \<Longrightarrow> preserves I (finish sid e)"
  unfolding finish_def by (intro pres preserves_mupd releases)

lemma caps [pres]: "preserves I (within_cap sid p n)"
  unfolding within_cap_def by (intro pres good_plain) simp

lemma within_capD:
  assumes "within_cap sid p n m = (m', Inr True)"
  shows "m' = m" "fits p n"
  using assms by (auto simp: within_cap_def fits_def finish_def mbind_def split: if_splits prod.splits sum.splits)

lemma within_cap_result: "\<exists>b. snd (within_cap sid p n m) = Inr b"
  by (auto simp: within_cap_def finish_def emit_def)

lemma within_cap_then:
  assumes "I m" and "fits p n \<Longrightarrow> I (fst (q m))"
  shows "I (fst (mbind (within_cap sid p n) (\<lambda>ok. if ok then q else mret ()) m))"
proof -
  obtain m' r where w: "within_cap sid p n m = (m', r)" by (cases "within_cap sid p n m")
  obtain b where b: "r = Inr b" using within_cap_result [of sid p n m] w by auto
  show ?thesis
  proof (cases b)
    case True
    with w b within_capD [of sid p n m m'] assms show ?thesis by simp
  next
    case False
    then show ?thesis using w b preservesD [OF caps assms(1) w] by simp
  qed
qed

lemma completes:
  assumes "I m" "map_of (m_pending m) sid = Some p" "fits p (length body)"
  shows "I (fst (finish sid (Completed sid (pd_request p) (pd_buffer p @ body) st) m))"
  using preserves_fst [OF finishes [OF good_completed [OF assms]] assms(1)] .

lemma chunks:
  assumes "I m" "map_of (m_pending m) sid = Some p" "fits p (length body)"
  shows "I (fst (mbind (append_buffer sid p body) (\<lambda>_. emit (Chunk sid (pd_request p) body)) m))"
  using preserves_fst [OF emits [OF good_chunk [OF assms]] grows [OF assms]]
  by (simp add: append_buffer_def)

lemma answers_ok:
  assumes "I m" "map_of (m_pending m) sid = Some p"
  shows "I (fst (response_ok sid body p m))"
proof (cases "pd_cap p = 0")
  case True
  then show ?thesis using completes [OF assms] by (simp add: response_ok_def fits_def)
next
  case False
  have "(\<lambda>ok. if \<not> ok then mret () else q) = (\<lambda>ok. if ok then q else mret ())" for q :: "unit op"
    by auto
  then show ?thesis
    using False within_cap_then [OF assms(1)] completes [OF assms] by (simp add: response_ok_def)
qed

lemma answers_chunk:
  assumes "I m" "map_of (m_pending m) sid = Some p"
  shows "I (fst (response_chunk sid body p m))"
  unfolding response_chunk_def using assms by (intro within_cap_then chunks)

lemma answers_plain:
  "preserves I (response_error sid body p)" "preserves I (response_redirect sid body p)"
  "preserves I (response_wait sid body p)" "preserves I (response_waitresp sid body p)"
  "preserves I (response_unexpected sid p)"
  unfolding response_error_def response_redirect_def response_wait_def response_waitresp_def
    response_unexpected_def
  by (intro pres good_plain; simp)+

lemma answers_data: "preserves I (on_status_data sid data)"
  unfolding preserves_def
proof (intro allI impI)
  fix m
  assume m: "I m"
  have eq: "(\<lambda>ok. if \<not> ok then mret () else q) = (\<lambda>ok. if ok then q else mret ())" for q :: "unit op"
    by auto
  have "I (fst (mbind (within_cap sid p (length data)) (\<lambda>ok. if ok then
      (if fin then finish sid (Completed sid (pd_request p) (pd_buffer p @ data) st)
       else mbind (append_buffer sid p data) (\<lambda>_. emit (Chunk sid (pd_request p) data)))
      else mret ()) m))" if "map_of (m_pending m) sid = Some p" for p fin st
    using m completes [OF m that] chunks [OF m that] by (intro within_cap_then) simp_all
  then show "I (fst (on_status_data sid data m))"
    using m unfolding on_status_data_def joined_buffer eq
    by (simp split: option.splits split del: if_split)
qed

lemma answers_status:
  assumes "I m" "map_of (m_pending m) sid = Some p"
  shows "I (fst (response_status sid body p m))"
  using assms notes_status [OF assms] preserves_fst [OF answers_data notes_status [OF assms]]
  by (auto simp: response_status_def no_trailer_def Let_def split: sum.splits)

lemma handles:
  assumes "I m" "map_of (m_pending m) sid = Some p"
  shows "I (fst (handle sid status body p m))"
  using assms answers_ok answers_chunk answers_status preserves_fst [OF answers_plain(1)]
    preserves_fst [OF answers_plain(2)] preserves_fst [OF answers_plain(3)]
    preserves_fst [OF answers_plain(4)] preserves_fst [OF answers_plain(5)]
  by (simp add: handle_def no_trailer_def)

lemma drops_late:
  assumes "I m" "sid \<in> m_retired m"
  shows "I (fst (retired_reply sid status body m))"
  using assms unretires by (simp add: retired_reply_def Let_def split: sum.splits)

lemma dispatches:
  assumes "I m"
  shows "I (fst (dispatch env sid status body m))"
proof -
  have r: "I (fst (route env sid status body m))" if "I m" for sid status body m
    using that handles drops_late preserves_fst [OF brings_up]
    by (auto simp: route_def no_trailer_def split: option.splits)
  have u: "preserves I (unwrap_attn body)"
    unfolding unwrap_attn_def by (intro pres good_plain) simp
  obtain m' x where w: "unwrap_attn body m = (m', x)" by (cases "unwrap_attn body m")
  then have "I m'" using preservesD [OF u assms] by simp
  then show ?thesis
    using w r assms by (auto simp: dispatch_def split: sum.splits option.splits)
qed

lemma parses_step: "I m \<Longrightarrow> I (snd (fst (parse_step env (f, m))))"
proof -
  assume m: "I m"
  have d: "I (snd (fst (run_dispatch env sid status body (g, m))))" for sid status body g
    using dispatches [OF m] by (auto simp: run_dispatch_def split: prod.splits) (metis fst_conv)
  have b: "I (snd (fst (parse_body env (g, m))))" for g
    using m d by (auto simp: parse_body_def Let_def split: prod.splits) (metis fst_conv snd_conv)
  show ?thesis
    using m b preservesD [OF answers_data m]
    by (auto simp: parse_step_def Let_def split: prod.splits sum.splits option.splits)
qed

lemma parses: "I (snd fm) \<Longrightarrow> I (snd (fst (parse env fm)))"
proof (induction env fm rule: parse.induct)
  case (1 env fm)
  obtain fm' r where s: "parse_step env fm = (fm', r)" by (cases "parse_step env fm")
  then have "I (snd fm')" using parses_step [of "snd fm" env "fst fm"] "1.prems" by simp
  then show ?case
    using "1.IH" [OF s [symmetric]] s by (subst parse.simps) (auto split: sum.splits bool.splits)
qed

lemma feeds: "I m \<Longrightarrow> I (snd (fst (feed env data (f, m))))"
proof -
  assume m: "I m"
  have "I (snd (fst (whole_frame env data (f, m))))"
    using m dispatches [OF m]
    by (auto simp: whole_frame_def run_dispatch_def split: prod.splits sum.splits) (metis fst_conv)
  then show ?thesis
    using parses by (auto simp: feed_def split: prod.splits sum.splits bool.splits)
qed

lemma reframes: "I m \<Longrightarrow> I (put_framer pathid f m)"
  by (rule other) (simp_all add: put_framer_def core_def)

lemma release_all: "I m \<Longrightarrow> I (fold release sids m)"
  by (induction sids arbitrary: m) (auto intro: releases)

lemma forgets: "I m \<Longrightarrow> I (forget_path pathid m)"
  unfolding forget_path_def Let_def
  by (rule other [OF release_all]) (simp_all add: core_def)

lemma emits_all: "I m \<Longrightarrow> (\<And>e. e \<in> set es \<Longrightarrow> good e) \<Longrightarrow> I (m\<lparr>m_events := m_events m @ es\<rparr>)"
proof (induction es arbitrary: m)
  case Nil
  then show ?case by (auto intro: other simp: core_def)
next
  case (Cons e es)
  have "I (m\<lparr>m_events := m_events m @ [e]\<rparr>)" using Cons.prems by (simp add: emit_good)
  from Cons.IH [OF this] Cons.prems(2) show ?case by simp
qed

lemma receives: "I m \<Longrightarrow> I (fst (receive_data env data pathid m))"
proof -
  assume m: "I m"
  let ?m = "put_framer pathid (the_framer pathid m) m"
  have I0: "I ?m" using m by (rule reframes)
  have eof: "I (on_eof m)" if "I m" for m
  proof -
    let ?es = "map (\<lambda>(sid, p). Failed (Some sid) (Some (pd_request p))
        (XrdConnectionError (str ''connection closed by peer''))) (m_pending m)
      @ [Disconnected (str ''connection closed by peer'')]"
    have gd: "good e" if "e \<in> set ?es" for e
      using that by (auto intro!: good_plain)
    have "I (m\<lparr>m_pending := [], m_events := m_events m @ ?es\<rparr>)"
      using emits_all [of "m\<lparr>m_pending := []\<rparr>" ?es, OF forgets_all [OF that] gd] by simp
    then have "I (m\<lparr>m_state := CLOSED, m_pending := [], m_events := m_events m @ ?es\<rparr>)"
      by (rule other) (simp_all add: core_def)
    then show ?thesis using that by (simp add: on_eof_def)
  qed
  have path: "I (on_path_eof pathid m)" if "I m" for m
    unfolding on_path_eof_def Let_def
    using that by (auto intro!: emit_good forgets emits_all good_plain)
  have "I (snd (fst (feed env data (the_framer pathid m, ?m))))" using I0 by (rule feeds)
  then show ?thesis
    using eof [OF I0] path [OF I0] reframes
    by (auto simp: receive_data_def Let_def split: prod.splits)
qed

lemma frames: "frame env req sid m = (m', r) \<Longrightarrow> core m' = core m \<and> m_events m' = m_events m"
  by (auto simp: frame_def Let_def core_def split: sum.splits option.splits prod.splits)

lemma sends_request:
  assumes "I m" "limbo sid m"
  shows "I (fst (send env req sid path arrive m))"
proof -
  obtain m' r where f: "frame env req sid m = (m', r)" by (cases "frame env req sid m")
  have c: "core m' = core m" "m_events m' = m_events m" using frames [OF f] by simp_all
  have I': "I m'" using other [OF assms(1) c] .
  show ?thesis
  proof (cases r)
    case (Inl e)
    then show ?thesis using f I' by (simp add: send_def)
  next
    case (Inr parts)
    define p where "p = \<lparr>pd_request = req, pd_parts = parts, pd_buffer = [], pd_status = None, pd_path = path,
               pd_pathid = req_pathid req, pd_path_bytes = path_data req, pd_cap = reply_cap req\<rparr>"
    have "I (m'\<lparr>m_pending := dict_set sid p (m_pending m')\<rparr>)"
      by (rule records [OF I' limbo_other [OF assms(2) c(1)], of req]) (simp add: p_def fresh_pending_def)
    moreover have "preserves I (if arrive \<and> req_pathid req \<noteq> 0
          then send_path (req_pathid req) (parts @ (if path_data req \<noteq> [] then [path_data req] else []))
          else mbind (send_out parts) (\<lambda>_.
               if path_data req \<noteq> [] then send_path (req_pathid req) [path_data req] else mret ()))"
      by (intro pres)
    ultimately show ?thesis
      using f Inr by (simp add: send_def Let_def preserves_def flip: p_def)
  qed
qed

lemma acquire_then:
  assumes "I m" and "\<And>m' sid. I m' \<Longrightarrow> limbo sid m' \<Longrightarrow> I (fst (q sid m'))"
  shows "I (fst (mbind acquire_sid q m))"
proof -
  obtain m' r where a: "acquire_sid m = (m', r)" by (cases "acquire_sid m")
  show ?thesis using acquires [OF assms(1) a] assms(2) a by (cases r) auto
qed

lemma submits: "preserves I (submit env req path arrive)"
proof -
  have "preserves I (mbind acquire_sid (\<lambda>sid. mbind (send env req sid path arrive) (\<lambda>_. mret sid)))"
    unfolding preserves_def
  proof (intro allI impI acquire_then)
    fix m' sid
    assume "I m'" "limbo sid m'"
    then have "I (fst (send env req sid path arrive m'))" by (rule sends_request)
    then show "I (fst (mbind (send env req sid path arrive) (\<lambda>_. mret sid) m'))"
      by (auto simp: mbind_def split: prod.splits sum.splits)
  qed
  then show ?thesis unfolding submit_def by (intro preserves_mread preserves_if preserves_basic)
qed

lemma lease_loop_keeps: "preserves I (lease_loop n)"
proof (induction n)
  case 0
  show ?case unfolding lease_loop.simps by (rule preserves_basic)
next
  case (Suc n)
  have "preserves I (mbind (lease_loop n) (\<lambda>sids. mret (sid # sids)))" for sid
    using Suc by (intro pres)
  then show ?case
    unfolding preserves_def lease_loop.simps
    by (intro allI impI acquire_then) (simp_all add: leases)
qed

lemma closes: "preserves I (close graceful)"
proof -
  have ends: "preserves I (mbind acquire_sid (\<lambda>sid. mbind (mlift (encode (EndSession s) sid)) (\<lambda>f. send_out [f])))" for s
  proof -
    have q: "preserves I (mbind (mlift (encode (EndSession s) sid)) (\<lambda>f. send_out [f]))" for sid
      by (intro pres)
    have "I (fst (mbind acquire_sid (\<lambda>sid. mbind (mlift (encode (EndSession s) sid)) (\<lambda>f. send_out [f])) m))"
      if "I m" for m
      by (rule acquire_then [OF that]) (rule preserves_fst [OF q])
    then show ?thesis by (simp only: preserves_def) blast
  qed
  have bye: "preserves I (mbind (mupd (m_state_update (\<lambda>_. CLOSED))) (\<lambda>_. emit (Disconnected r)))" for r
    by (intro pres good_plain) (simp_all add: core_def)
  show ?thesis
    unfolding close_def
    by (rule preserves_mread, rule preserves_mbind, rule preserves_if, rule ends, rule preserves_basic, rule bye)
qed

lemma unlease_all:
  "I m \<Longrightarrow> distinct sids \<Longrightarrow> set sids \<subseteq> m_leased m \<Longrightarrow> I (fold release_sid sids m)"
proof (induction sids arbitrary: m)
  case (Cons sid sids)
  have "I (release_sid sid m)" using Cons.prems by (intro unleases) auto
  moreover have "m_leased (release_sid sid m) = m_leased m - {sid}" by (simp add: release_sid_def)
  ultimately show ?case using Cons by auto
qed simp

lemma retire_all:
  "I m \<Longrightarrow> distinct sids \<Longrightarrow> set sids \<subseteq> m_leased m \<Longrightarrow> I (fold (retire_sid owed) sids m)"
proof (induction sids arbitrary: m)
  case (Cons sid sids)
  have "I (retire_sid owed sid m)" using Cons.prems by (intro retires) auto
  moreover have "m_leased (retire_sid owed sid m) = m_leased m - {sid}"
    by (simp add: retire_sid_def Let_def)
  ultimately show ?case using Cons by auto
qed simp

lemma simple_ops:
  "preserves I start" "preserves I (resume sid)" "preserves I (tls_established env)"
  "preserves I (lease_sids n)"
  unfolding start_def resume_def tls_established_def lease_sids_def Let_def
  by (intro pres lease_loop_keeps; simp add: core_def)+

lemma frames_for: "I m \<Longrightarrow> I (fst (frame_for env req sid m))"
proof -
  assume m: "I m"
  have "preserves I (frame env req sid)"
    unfolding preserves_def using other frames by (metis prod.collapse)
  then have "preserves I (frame_for env req sid)"
    unfolding frame_for_def frame_parts_for_def by (intro pres)
  then show ?thesis using m by (rule preserves_fst)
qed

lemma executes: "I m \<Longrightarrow> allowed c m \<Longrightarrow> I (exec env c m)"
proof (induction c)
  case NextEvent
  then show ?case
    by (cases "m_events m") (auto simp: next_event_def intro!: fewer_events)
next
  case (TakeOut)
  then show ?case by (auto simp: buffers_to_send_def core_def intro: other)
next
  case (TakePathOut pathid)
  then show ?case by (auto simp: path_buffers_to_send_def core_def intro: other)
next
  case (ReleaseSids sids)
  then show ?case by (simp add: release_sids_def unlease_all)
next
  case (RetireSids sids owed)
  then show ?case by (simp add: retire_sids_def retire_all)
qed (simp_all add: preserves_fst [OF simple_ops(1)] preserves_fst [OF simple_ops(2)]
      preserves_fst [OF simple_ops(3)] preserves_fst [OF simple_ops(4)] preserves_fst [OF submits]
      preserves_fst [OF closes] releases abandons frames_for forgets receives drain_def fewer_events)

lemma reachable_holds:
  assumes "reachable env m"
    and "\<And>host port cfg user tls. I (SessionMachine host port cfg user tls)"
    and "\<And>primary session_id cfg tls. I (data_path primary session_id cfg tls)"
  shows "I m"
  using assms(1)
proof induction
  case (step m c)
  show ?case using step.IH step.hyps(2) by (rule executes)
qed (simp_all add: assms)

end

subsection \<open>The stream-id pool\<close>

definition sids_in_use :: "machine \<Rightarrow> int set" where
  "sids_in_use m = dict_keys (m_pending m) \<union> m_leased m \<union> m_retired m"

definition sid_inv :: "machine \<Rightarrow> bool" where
  "sid_inv m \<longleftrightarrow>
     distinct (m_free m) \<and> distinct (map fst (m_pending m)) \<and>
     set (m_free m) \<inter> sids_in_use m = {} \<and>
     dict_keys (m_pending m) \<inter> m_leased m = {} \<and> dict_keys (m_pending m) \<inter> m_retired m = {} \<and>
     m_leased m \<inter> m_retired m = {} \<and>
     set (m_free m) \<union> sids_in_use m \<subseteq> {4..65535} \<and> 4 \<le> m_next_sid m \<and> m_next_sid m \<le> 65535"

definition sid_limbo :: "int \<Rightarrow> machine \<Rightarrow> bool" where
  "sid_limbo sid m \<longleftrightarrow> 4 \<le> sid \<and> sid \<le> 65535 \<and> sid \<notin> set (m_free m) \<and> sid \<notin> sids_in_use m"

lemma sid_inv_core: "core m' = core m \<Longrightarrow> sid_inv m' = sid_inv m"
  by (simp add: core_def sid_inv_def sids_in_use_def)

lemma sid_limbo_core: "core m' = core m \<Longrightarrow> sid_limbo sid m' = sid_limbo sid m"
  by (simp add: core_def sid_limbo_def sids_in_use_def)

lemma sid_acquire:
  assumes "sid_inv m" and "acquire_sid m = (m', r)"
  shows "sid_inv m' \<and> (\<forall>sid. r = Inr sid \<longrightarrow> sid_limbo sid m')"
proof (cases "m_free m")
  case Nil
  then show ?thesis
    using assms by (auto simp: acquire_sid_def Let_def sid_inv_def sid_limbo_def sids_in_use_def FIRST_SID_def
        split: if_splits)
next
  case (Cons sid rest)
  then show ?thesis
    using assms by (auto simp: acquire_sid_def sid_inv_def sid_limbo_def sids_in_use_def)
qed

lemma sid_release: "sid_inv m \<Longrightarrow> sid_inv (release sid m)"
  by (auto simp: sid_inv_def sids_in_use_def release_def Let_def distinct_dict_pop)

lemma sid_abandon: "sid_inv m \<Longrightarrow> sid_inv (abandon sid m)"
  by (auto simp: sid_inv_def sids_in_use_def abandon_def Let_def distinct_dict_pop)

lemma sid_update:
  "sid_inv m \<Longrightarrow> map_of (m_pending m) sid = Some p \<Longrightarrow>
   sid_inv (m\<lparr>m_pending := dict_set sid q (m_pending m)\<rparr>)"
  using map_of_Some_keys [of "m_pending m" sid p]
  by (simp add: sid_inv_def sids_in_use_def distinct_dict_set insert_absorb)

lemma sid_record:
  "sid_inv m \<Longrightarrow> sid_limbo sid m \<Longrightarrow> sid_inv (m\<lparr>m_pending := dict_set sid p (m_pending m)\<rparr>)"
  by (auto simp: sid_inv_def sid_limbo_def sids_in_use_def distinct_dict_set)

interpretation pool: stream_invariant sid_inv "\<lambda>e. True" sid_limbo
proof (unfold_locales, goal_cases)
  case (1 m m') then show ?case using sid_inv_core by blast
next
  case (7 m sid) then show ?case by (rule sid_release)
next
  case (8 m sid) then show ?case by (rule sid_abandon)
next
  case (9 m sid p body) then show ?case by (blast intro: sid_update)
next
  case (10 m sid p info) then show ?case by (blast intro: sid_update)
next
  case (13 m m' r) then show ?case by (rule sid_acquire)
next
  case (14 sid m m') then show ?case using sid_limbo_core by blast
next
  case (15 m sid req p) then show ?case by (blast intro: sid_record)
qed (auto simp: sid_inv_def sids_in_use_def sid_limbo_def release_sid_def retire_sid_def Let_def)

subsection \<open>Caps on replies\<close>

text \<open>What an event may carry: no more than the request it answers asked for.\<close>

fun within_request :: "event \<Rightarrow> bool" where
  "within_request (Completed _ req data _) \<longleftrightarrow> (0 < reply_cap req \<longrightarrow> int (length data) \<le> reply_cap req)"
| "within_request (Chunk _ req data) \<longleftrightarrow> (0 < reply_cap req \<longrightarrow> int (length data) \<le> reply_cap req)"
| "within_request _ \<longleftrightarrow> True"

definition pending_ok :: "pending \<Rightarrow> bool" where
  "pending_ok p \<longleftrightarrow> pd_cap p = reply_cap (pd_request p) \<and>
     (0 < pd_cap p \<longrightarrow> int (length (pd_buffer p)) \<le> pd_cap p)"

definition cap_inv :: "machine \<Rightarrow> bool" where
  "cap_inv m \<longleftrightarrow>
     distinct (map fst (m_pending m)) \<and> (\<forall>e \<in> set (m_pending m). pending_ok (snd e)) \<and>
     (\<forall>e \<in> set (m_events m). within_request e)"

lemma within_request_plain: "\<not> carries_data e \<Longrightarrow> within_request e"
  by (cases e) auto

lemma dict_set_mem: "e \<in> set (dict_set k v d) \<Longrightarrow> e = (k, v) \<or> e \<in> set d"
  by (induction k v d rule: dict_set.induct) (auto split: if_splits)

lemma cap_pending: "cap_inv m \<Longrightarrow> map_of (m_pending m) sid = Some p \<Longrightarrow> pending_ok p"
  by (auto simp: cap_inv_def dest!: map_of_SomeD)

lemma cap_set:
  "cap_inv m \<Longrightarrow> pending_ok p \<Longrightarrow> cap_inv (m\<lparr>m_pending := dict_set sid p (m_pending m)\<rparr>)"
  by (auto simp: cap_inv_def distinct_dict_set dest!: dict_set_mem)

lemma cap_sub:
  "cap_inv m \<Longrightarrow> distinct (map fst ps) \<Longrightarrow> set ps \<subseteq> set (m_pending m) \<Longrightarrow> m_pending m' = ps \<Longrightarrow>
   set (m_events m') \<subseteq> set (m_events m) \<Longrightarrow> cap_inv m'"
  by (auto simp: cap_inv_def)

lemma dict_pop_subset: "set (dict_pop k d) \<subseteq> set d"
  by (auto simp: dict_pop_def)

lemma cap_drop:
  "cap_inv m \<Longrightarrow> m_pending m' = dict_pop sid (m_pending m) \<Longrightarrow> m_events m' = m_events m \<Longrightarrow> cap_inv m'"
  by (rule cap_sub [of m "dict_pop sid (m_pending m)"])
     (auto simp: cap_inv_def distinct_dict_pop dict_pop_subset [THEN subsetD])

lemma cap_same:
  "cap_inv m \<Longrightarrow> m_pending m' = m_pending m \<Longrightarrow> set (m_events m') \<subseteq> set (m_events m) \<Longrightarrow> cap_inv m'"
  by (auto simp: cap_inv_def)

interpretation replies: stream_invariant cap_inv within_request "\<lambda>sid m. True"
proof (unfold_locales, goal_cases)
  case (5 m sid p body st)
  then show ?case using cap_pending [of m sid p] by (auto simp: fits_def pending_ok_def)
next
  case (6 m sid p body)
  then show ?case using cap_pending [of m sid p] by (auto simp: fits_def pending_ok_def)
next
  case (9 m sid p body)
  then have "pending_ok (p\<lparr>pd_buffer := pd_buffer p @ body\<rparr>)"
    using cap_pending [of m sid p] by (auto simp: fits_def pending_ok_def)
  with 9 show ?case by (blast intro: cap_set)
next
  case (10 m sid p info)
  then have "pending_ok (p\<lparr>pd_status := Some info\<rparr>)"
    using cap_pending [of m sid p] by (auto simp: pending_ok_def)
  with 10 show ?case by (blast intro: cap_set)
next
  case (15 m sid req p)
  then have "pending_ok p" by (auto simp: fresh_pending_def pending_ok_def)
  with 15 show ?case by (blast intro: cap_set)
next
  case (7 m sid) then show ?case
    by (rule cap_drop) (auto simp: release_def Let_def)
next
  case (8 m sid) then show ?case
    by (rule cap_drop) (auto simp: abandon_def Let_def)
next
  case (13 m m' r)
  have "cap_inv m'"
    by (rule cap_same [OF 13(1)])
       (use 13(2) in \<open>auto simp: acquire_sid_def Let_def split: list.splits if_splits\<close>)
  then show ?case by simp
next
  case (1 m m') show ?case by (rule cap_same [OF 1(1)]) (use 1 in \<open>auto simp: core_def\<close>)
next
  case (4 e) then show ?case by (rule within_request_plain)
qed (auto simp: cap_inv_def release_sid_def retire_sid_def Let_def)

end
