(* ===== verification/Machine_Framing.thy ===== *)
theory Machine_Framing
  imports Machine_Invariants
begin

text \<open>
  How the byte stream is cut up does not matter: the same bytes delivered in any segments
  leave the same machine and the same events, and the shortcut for a reply that arrives
  whole (\<open>_whole_frame\<close>) agrees with the buffered path. The one exception, a status block
  that declares a negative length, is shown at the end.
\<close>

subsection \<open>More input behind a framer\<close>

definition ext :: "bytes \<Rightarrow> framer \<times> machine \<Rightarrow> framer \<times> machine" where
  "ext x fm = ((fst fm)\<lparr>fm_buffer := fm_buffer (fst fm) @ x\<rparr>, snd fm)"

lemma ext_Nil [simp]: "ext [] fm = fm"
  by (simp add: ext_def)

lemma ext_ext: "ext y (ext x fm) = ext (x @ y) fm"
  by (simp add: ext_def)

lemma set_trailer_buffer:
  "set_trailer t (f\<lparr>fm_buffer := b\<rparr>) = (set_trailer t f)\<lparr>fm_buffer := b\<rparr>"
  "fm_buffer (set_trailer t f) = fm_buffer f" "fm_dlen (set_trailer t f) = fm_dlen f"
  by (auto simp: set_trailer_def split: option.splits prod.splits)

lemma run_dispatch_ext:
  "run_dispatch env sid status body (ext x fm) =
     (case run_dispatch env sid status body fm of (fm', r) \<Rightarrow> (ext x fm', r))"
  by (auto simp: run_dispatch_def ext_def set_trailer_buffer split: prod.splits)

lemma parse_body_ext:
  assumes "0 \<le> fm_dlen f" "fm_dlen f \<le> int (length (fm_buffer f))"
  shows "parse_body env (ext x (f, m)) = (case parse_body env (f, m) of (fm', r) \<Rightarrow> (ext x fm', r))"
proof -
  let ?g = "f\<lparr>fm_dlen := - 1, fm_buffer := py_drop (fm_dlen f) (fm_buffer f)\<rparr>"
  have "run_dispatch env (fm_sid f) (fm_status f) (py_take (fm_dlen f) (fm_buffer f)) (ext x (?g, m)) =
     (case run_dispatch env (fm_sid f) (fm_status f) (py_take (fm_dlen f) (fm_buffer f)) (?g, m) of
        (fm', r) \<Rightarrow> (ext x fm', r))"
    by (rule run_dispatch_ext)
  then show ?thesis
    using assms
    by (simp add: parse_body_def ext_def py_take_append py_drop_append Let_def split: prod.splits)
qed

lemma parse_step_ext:
  assumes "parse_step env fm = (fm', r)" "0 \<le> fm_need_trailer (fst fm)" "r \<noteq> Inr False"
  shows "parse_step env (ext x fm) = (ext x fm', r)"
proof -
  obtain f m where fm: "fm = (f, m)" by (cases fm)
  show ?thesis
  proof (cases "fm_need_trailer f = 0")
    case False
    then have "fm_need_trailer f \<le> int (length (fm_buffer f))" "0 \<le> fm_need_trailer f"
      using assms fm by (auto simp: parse_step_def split: if_splits)
    then show ?thesis
      using assms(1) fm False
      by (auto simp: parse_step_def ext_def Let_def py_take_append py_drop_append split: option.splits prod.splits)
  next
    case need: True
    have dl: "fm_dlen g \<le> int (length (fm_buffer g))" if "parse_body env (g, m) = (fm', r)" for g
      using that assms(3) by (auto simp: parse_body_def split: if_splits)
    show ?thesis
    proof (cases "fm_dlen f < 0")
      case True
      have len: "8 \<le> length (fm_buffer f)"
        using assms need fm True by (auto simp: parse_step_def split: if_splits)
      then have h: "header_fields (fm_buffer f @ x) 0 = header_fields (fm_buffer f) 0"
        by (rule header_fields_append)
      show ?thesis
      proof (cases "header_fields (fm_buffer f) 0")
        case (Inl e)
        then show ?thesis using assms need fm True len h by (auto simp: parse_step_def ext_def)
      next
        case (Inr hd)
        obtain sid status dlen where hd: "hd = (sid, status, dlen)" by (metis prod_cases3)
        let ?g = "f\<lparr>fm_sid := sid, fm_status := status, fm_dlen := dlen, fm_buffer := drop 8 (fm_buffer f)\<rparr>"
        have pb: "parse_body env (?g, m) = (fm', r)"
          using assms need fm True len Inr hd by (auto simp: parse_step_def)
        have d0: "0 \<le> dlen" using header_fields_bounds Inr hd by blast
        have dl': "fm_dlen ?g \<le> int (length (fm_buffer ?g))" using pb by (rule dl)
        have "parse_body env (ext x (?g, m)) = (ext x fm', r)"
          using parse_body_ext [of ?g env x m] pb d0 dl' by simp
        then show ?thesis
          using need fm True len Inr hd h by (simp add: parse_step_def ext_def)
      qed
    next
      case False
      then have pb: "parse_body env (f, m) = (fm', r)" using assms need fm by (simp add: parse_step_def)
      then have "parse_body env (ext x (f, m)) = (ext x fm', r)"
        using parse_body_ext [of f env x m] dl [OF pb] False by simp
      then show ?thesis using False need fm by (simp add: parse_step_def ext_def)
    qed
  qed
qed

text \<open>A turn that stops may have read a header; going on from there is the same.\<close>

lemma parse_step_stop:
  assumes "parse_step env fm = (fm', Inr False)"
  shows "parse_step env (ext x fm) = parse_step env (ext x fm') \<and>
    fm_need_trailer (fst fm') = fm_need_trailer (fst fm)"
proof -
  obtain f m where fm: "fm = (f, m)" by (cases fm)
  have pb: "parse_body env (g, m) = (fm', Inr False) \<Longrightarrow> fm' = (g, m)" for g
    by (auto simp: parse_body_def Let_def rbind_def split: if_splits prod.splits sum.splits)
  show ?thesis
  proof (cases "fm_need_trailer f = 0 \<and> fm_dlen f < 0 \<and> 8 \<le> length (fm_buffer f)")
    case True
    then obtain sid status dlen where h: "header_fields (fm_buffer f) 0 = Inr (sid, status, dlen)"
      using assms fm by (auto simp: parse_step_def split: sum.splits)
    let ?g = "f\<lparr>fm_sid := sid, fm_status := status, fm_dlen := dlen, fm_buffer := drop 8 (fm_buffer f)\<rparr>"
    have "parse_body env (?g, m) = (fm', Inr False)"
      using assms fm True h by (simp add: parse_step_def)
    then have fm': "fm' = (?g, m)" by (rule pb)
    have "0 \<le> dlen" using header_fields_bounds [OF h] by simp
    moreover have "header_fields (fm_buffer f @ x) 0 = Inr (sid, status, dlen)"
      using h True by (simp add: header_fields_append)
    ultimately show ?thesis
      using True fm fm' by (simp add: parse_step_def ext_def)
  next
    case False
    then have "fm' = fm"
      using assms fm pb [of f]
      by (auto simp: parse_step_def Let_def rbind_def split: if_splits option.splits sum.splits prod.splits)
    then show ?thesis by simp
  qed
qed

text \<open>No status block met on the way declares a negative length.\<close>

function trailers_ok :: "env \<Rightarrow> framer \<times> machine \<Rightarrow> bool" where
  "trailers_ok env fm =
     (0 \<le> fm_need_trailer (fst fm) \<and>
      (case parse_step env fm of (fm', Inr True) \<Rightarrow> trailers_ok env fm' | _ \<Rightarrow> True))"
  by auto
termination
  by (relation "measure (\<lambda>(_, fm). fsize (fst fm))") (auto dest: parse_step_shrinks [OF sym])

declare trailers_ok.simps [simp del]

definition trailers_from :: "env \<Rightarrow> (framer \<times> machine) \<times> bool res \<Rightarrow> bool" where
  "trailers_from env p = (case p of (fm', Inr True) \<Rightarrow> trailers_ok env fm' | _ \<Rightarrow> True)"

lemma trailers_from_code [code]:
  "trailers_from env (fm, Inl e) = True"
  "trailers_from env (fm, Inr False) = True"
  "trailers_from env (fm, Inr True) = trailers_ok env fm"
  by (simp_all add: trailers_from_def)

lemma trailers_ok_code [code]:
  "trailers_ok env fm = (0 \<le> fm_need_trailer (fst fm) \<and> trailers_from env (parse_step env fm))"
  by (subst trailers_ok.simps) (simp add: trailers_from_def)

lemma trailers_ok_now: "trailers_ok env fm \<Longrightarrow> 0 \<le> fm_need_trailer (fst fm)"
  by (subst (asm) trailers_ok.simps) simp

lemma parse_cases:
  obtains (stop) fm' where "parse_step env fm = (fm', Inr False)" "parse env fm = (fm', Inr ())"
    "trailers_ok env fm = (0 \<le> fm_need_trailer (fst fm))"
  | (error) fm' e where "parse_step env fm = (fm', Inl e)" "parse env fm = (fm', Inl e)"
    "trailers_ok env fm = (0 \<le> fm_need_trailer (fst fm))"
  | (more) fm' where "parse_step env fm = (fm', Inr True)" "parse env fm = parse env fm'"
    "trailers_ok env fm = (0 \<le> fm_need_trailer (fst fm) \<and> trailers_ok env fm')"
proof -
  obtain fm' r where s: "parse_step env fm = (fm', r)" by (cases "parse_step env fm")
  consider e where "r = Inl e" | "r = Inr False" | "r = Inr True" by (cases r) auto
  then show ?thesis
  proof cases
    case (1 e)
    then show ?thesis
      using s by (intro error [of fm' e]) (simp_all add: parse.simps [of env fm] trailers_ok.simps [of env fm])
  next
    case 2
    then show ?thesis
      using s by (intro stop [of fm']) (simp_all add: parse.simps [of env fm] trailers_ok.simps [of env fm])
  next
    case 3
    then show ?thesis
      using s by (intro more [of fm']) (simp_all add: parse.simps [of env fm] trailers_ok.simps [of env fm])
  qed
qed

lemma parse_ext:
  "trailers_ok env fm \<Longrightarrow>
   (\<forall>fm'. parse env fm = (fm', Inr ()) \<longrightarrow>
      parse env (ext x fm) = parse env (ext x fm') \<and>
      (trailers_ok env (ext x fm) \<longleftrightarrow> trailers_ok env (ext x fm'))) \<and>
   (\<forall>fm' e. parse env fm = (fm', Inl e) \<longrightarrow> parse env (ext x fm) = (ext x fm', Inl e))"
proof (induction env fm rule: parse.induct)
  case (1 env fm)
  have nn: "0 \<le> fm_need_trailer (fst fm)" using "1.prems" by (rule trailers_ok_now)
  show ?case
  proof (cases rule: parse_cases [of env fm])
    case (stop fm')
    have st: "parse_step env (ext x fm) = parse_step env (ext x fm')"
      "fm_need_trailer (fst fm') = fm_need_trailer (fst fm)"
      using parse_step_stop [OF stop(1)] by auto
    have nt: "fm_need_trailer (fst (ext x fm)) = fm_need_trailer (fst (ext x fm'))"
      using st(2) by (simp add: ext_def)
    have "parse env (ext x fm) = parse env (ext x fm')"
      unfolding parse.simps [of env "ext x fm"] parse.simps [of env "ext x fm'"] st(1) ..
    moreover have "trailers_ok env (ext x fm) = trailers_ok env (ext x fm')"
      unfolding trailers_ok.simps [of env "ext x fm"] trailers_ok.simps [of env "ext x fm'"] st(1) nt ..
    ultimately show ?thesis using stop by simp
  next
    case (error fm' e)
    have "parse_step env (ext x fm) = (ext x fm', Inl e)"
      using error(1) nn by (rule parse_step_ext) simp
    then show ?thesis using error by (simp add: parse.simps [of env "ext x fm"])
  next
    case (more fm')
    have stp: "parse_step env (ext x fm) = (ext x fm', Inr True)"
      using more(1) nn by (rule parse_step_ext) simp
    have nx: "0 \<le> fm_need_trailer (fst (ext x fm))" using nn by (simp add: ext_def)
    have "trailers_ok env fm'" using "1.prems" more by simp
    note IH = "1.IH" [OF more(1) [symmetric] refl _ this]
    have "parse env (ext x fm) = parse env (ext x fm')"
      "trailers_ok env (ext x fm) = trailers_ok env (ext x fm')"
      using stp nx by (simp_all add: parse.simps [of env "ext x fm"] trailers_ok.simps [of env "ext x fm"])
    then show ?thesis using IH more by simp
  qed
qed

text \<open>Conversely a longer run without negative lengths contains the shorter one.\<close>

lemma trailers_ok_ext: "trailers_ok env (ext x fm) \<Longrightarrow> trailers_ok env fm"
proof (induction env fm rule: parse.induct)
  case (1 env fm)
  have nn: "0 \<le> fm_need_trailer (fst fm)"
    using trailers_ok_now [OF "1.prems"] by (simp add: ext_def)
  show ?case
  proof (cases rule: parse_cases [of env fm])
    case (more fm')
    have "parse_step env (ext x fm) = (ext x fm', Inr True)"
      using more(1) nn by (rule parse_step_ext) simp
    then have "trailers_ok env (ext x fm')"
      using "1.prems" by (simp add: trailers_ok.simps [of env "ext x fm"])
    then show ?thesis using "1.IH" [OF more(1) [symmetric] refl] more nn by simp
  qed (use nn in simp_all)
qed

subsection \<open>The shortcut for a whole frame\<close>

text \<open>While no header is held, the stream id and status of the last one are dead values.\<close>

definition settled :: "framer \<times> machine \<Rightarrow> framer \<times> machine" where
  "settled fm =
     (if fm_dlen (fst fm) < 0 then ((fst fm)\<lparr>fm_dlen := - 1, fm_sid := 0, fm_status := 0\<rparr>, snd fm) else fm)"

definition buffered :: "env \<Rightarrow> bytes \<Rightarrow> framer \<times> machine \<Rightarrow> (framer \<times> machine) \<times> unit res" where
  "buffered env data fm = parse env (ext data fm)"

lemma feed_cases:
  assumes "trailers_ok env (ext data fm)"
  obtains (slow) "feed env data fm = buffered env data fm"
  | (oversize) e where "feed env data fm = (fm, Inl e)" "buffered env data fm = (ext data fm, Inl e)"
  | (fast) fm' fm'' r where "feed env data fm = (fm', r)" "buffered env data fm = (fm'', r)"
    "settled fm' = settled fm''"
proof -
  obtain f m where fm: "fm = (f, m)" by (cases fm)
  let ?idle = "fm_buffer f = [] \<and> fm_dlen f < 0 \<and> fm_need_trailer f = 0 \<and> 8 \<le> length data"
  show ?thesis
  proof (cases ?idle)
    case False
    then have "feed env data fm = buffered env data fm"
      unfolding fm by (auto simp: feed_def whole_frame_def buffered_def ext_def)
    then show ?thesis by (rule slow)
  next
    case idle: True
    show ?thesis
    proof (cases "header_fields data 0")
      case (Inl e)
      have "parse_step env (ext data (f, m)) = (ext data (f, m), Inl e)"
        using idle Inl by (simp add: parse_step_def ext_def)
      then have "buffered env data fm = (ext data fm, Inl e)"
        unfolding fm buffered_def by (subst parse.simps) simp
      moreover have "feed env data fm = (fm, Inl e)"
        using idle Inl by (simp add: fm feed_def whole_frame_def)
      ultimately show ?thesis using oversize by blast
    next
      case (Inr hd)
      obtain sid status dlen where hd: "header_fields data 0 = Inr (sid, status, dlen)"
        using Inr by (metis prod_cases3)
      show ?thesis
      proof (cases "int (length data) = 8 + dlen")
        case False
        then have "feed env data fm = buffered env data fm"
          using idle hd unfolding fm by (simp add: feed_def whole_frame_def buffered_def ext_def)
        then show ?thesis by (rule slow)
      next
        case True
        have "0 \<le> dlen" using header_fields_bounds [OF hd] by simp
        then have dl: "dlen = int (length (drop 8 data))" using True by simp
        obtain m' t r where d: "dispatch env sid status (drop 8 data) m = (m', t, r)"
          by (metis prod_cases3)
        let ?g = "set_trailer t (f\<lparr>fm_sid := sid, fm_status := status, fm_dlen := - 1, fm_buffer := []\<rparr>)"
        have tk: "py_take dlen (drop 8 data) = drop 8 data" "py_drop dlen (drop 8 data) = []"
          unfolding dl py_take_nat py_drop_nat by simp_all
        have stp: "parse_step env (ext data (f, m)) = ((?g, m'), rbind r (\<lambda>_. Inr True))"
          using idle hd d tk dl
          by (simp add: parse_step_def ext_def parse_body_def run_dispatch_def Let_def del: length_drop)
        have fd: "feed env data fm = ((set_trailer t f, m'), r)"
          using idle hd True d by (cases r) (simp_all add: fm feed_def whole_frame_def run_dispatch_def)
        have same: "settled (set_trailer t f, m') = settled (?g, m')"
          using idle by (cases f) (auto simp: settled_def set_trailer_def split: option.splits prod.splits)
        have "buffered env data fm = ((?g, m'), r)"
        proof (cases r)
          case Inl
          then show ?thesis unfolding fm buffered_def by (subst parse.simps) (simp add: stp)
        next
          case (Inr u)
          have g: "fm_buffer ?g = []" "fm_dlen ?g = - 1" by (simp_all add: set_trailer_buffer)
          have "trailers_ok env (?g, m')"
            using assms stp Inr by (simp add: fm trailers_ok.simps [of env "ext data (f, m)"])
          then have "0 \<le> fm_need_trailer ?g" using trailers_ok_now by fastforce
          then have "parse_step env (?g, m') = ((?g, m'), Inr False)"
            using g by (simp add: parse_step_def)
          then have "parse env (?g, m') = ((?g, m'), Inr ())" by (subst parse.simps) simp
          then show ?thesis
            unfolding fm buffered_def using Inr by (subst parse.simps) (simp add: stp)
        qed
        then show ?thesis using fast [OF fd _ same] by blast
      qed
    qed
  qed
qed

lemma settled_eqD:
  assumes "settled (f, m) = settled (g, n)"
  shows "m = n \<and> (f = g \<or> (fm_dlen f < 0 \<and> fm_dlen g < 0 \<and> fm_buffer f = fm_buffer g \<and>
    fm_need_trailer f = fm_need_trailer g \<and> fm_trailer_for f = fm_trailer_for g))"
  using assms by (cases f; cases g) (auto simp: settled_def split: if_splits)

lemma settled_eqI:
  "fm_dlen f < 0 \<Longrightarrow> fm_dlen g < 0 \<Longrightarrow> fm_buffer f = fm_buffer g \<Longrightarrow>
   fm_need_trailer f = fm_need_trailer g \<Longrightarrow> fm_trailer_for f = fm_trailer_for g \<Longrightarrow>
   settled (f, m) = settled (g, m)"
  by (cases f; cases g) (auto simp: settled_def)

lemma settled_ext: "settled fm = settled gm \<Longrightarrow> settled (ext x fm) = settled (ext x gm)"
proof -
  assume "settled fm = settled gm"
  then have "snd fm = snd gm \<and> (fst fm = fst gm \<or> (fm_dlen (fst fm) < 0 \<and> fm_dlen (fst gm) < 0 \<and>
      fm_buffer (fst fm) = fm_buffer (fst gm) \<and> fm_need_trailer (fst fm) = fm_need_trailer (fst gm) \<and>
      fm_trailer_for (fst fm) = fm_trailer_for (fst gm)))"
    using settled_eqD [of "fst fm" "snd fm" "fst gm" "snd gm"] by simp
  then show ?thesis by (auto simp: ext_def intro: settled_eqI)
qed

lemma settled_step:
  assumes "settled fm = settled gm" and "parse_step env fm = (fm', r)"
  shows "\<exists>gm'. parse_step env gm = (gm', r) \<and> settled fm' = settled gm'"
proof -
  obtain f m g n where fg: "fm = (f, m)" "gm = (g, n)" by (metis prod.exhaust)
  have eq: "m = n" using settled_eqD assms(1) fg by blast
  show ?thesis
  proof (cases "f = g")
    case True
    then show ?thesis using assms fg eq by auto
  next
    case False
    then have e: "fm_dlen f < 0" "fm_dlen g < 0" "fm_buffer f = fm_buffer g"
      "fm_need_trailer f = fm_need_trailer g" "fm_trailer_for f = fm_trailer_for g"
      using settled_eqD assms(1) fg by blast+
    have hdr: "f\<lparr>fm_sid := a, fm_status := b, fm_dlen := c, fm_buffer := d\<rparr>
        = g\<lparr>fm_sid := a, fm_status := b, fm_dlen := c, fm_buffer := d\<rparr>" for a b c d
      using e by (cases f; cases g) simp
    show ?thesis
      using assms(2) e unfolding fg eq parse_step_def
      by (cases fm') (auto simp: hdr Let_def intro!: settled_eqI split: option.splits sum.splits prod.splits if_splits)
  qed
qed

lemma settled_parse:
  "settled fm = settled gm \<Longrightarrow> parse env fm = (fm', r) \<Longrightarrow>
   (\<exists>gm'. parse env gm = (gm', r) \<and> settled fm' = settled gm') \<and>
   (trailers_ok env fm \<longrightarrow> trailers_ok env gm)"
proof (induction env fm arbitrary: gm rule: parse.induct)
  case (1 env fm)
  obtain f m g n where fg: "fm = (f, m)" "gm = (g, n)" by (metis prod.exhaust)
  have need: "fm_need_trailer (fst fm) = fm_need_trailer (fst gm)"
    using settled_eqD [of f m g n] "1.prems"(1) fg by auto
  show ?case
  proof (cases rule: parse_cases [of env fm])
    case (stop fm1)
    then obtain gm1 where "parse_step env gm = (gm1, Inr False)" "settled fm1 = settled gm1"
      using settled_step [OF "1.prems"(1)] by blast
    then show ?thesis
      using stop "1.prems"(2) need by (simp add: parse.simps [of env gm] trailers_ok.simps [of env gm])
  next
    case (error fm1 e)
    then obtain gm1 where "parse_step env gm = (gm1, Inl e)" "settled fm1 = settled gm1"
      using settled_step [OF "1.prems"(1)] by blast
    then show ?thesis
      using error "1.prems"(2) need by (auto simp: parse.simps [of env gm] trailers_ok.simps [of env gm])
  next
    case (more fm1)
    then obtain gm1 where g1: "parse_step env gm = (gm1, Inr True)" "settled fm1 = settled gm1"
      using settled_step [OF "1.prems"(1)] by blast
    have "parse env fm1 = (fm', r)" using more "1.prems"(2) by simp
    from "1.IH" [OF more(1) [symmetric] refl _ g1(2) this] more g1 need show ?thesis
      by (simp add: parse.simps [of env gm] trailers_ok.simps [of env gm])
  qed
qed

subsection \<open>Any number of segments\<close>

fun feed_all :: "env \<Rightarrow> bytes list \<Rightarrow> framer \<times> machine \<Rightarrow> (framer \<times> machine) \<times> unit res" where
  "feed_all env [] fm = (fm, Inr ())"
| "feed_all env (d # ds) fm =
     (case feed env d fm of (fm', Inl e) \<Rightarrow> (fm', Inl e) | (fm', Inr _) \<Rightarrow> feed_all env ds fm')"

lemma feed_buffered:
  assumes "trailers_ok env (ext data fm)"
  shows "(\<exists>fm'. feed env data fm = (fm', Inr ()) \<and> settled fm' = settled fm'') \<longleftrightarrow>
    (\<exists>fm'. buffered env data fm = (fm', Inr ()) \<and> settled fm' = settled fm'')"
  using assms by (cases rule: feed_cases) auto

lemma feed_all_buffered:
  "feed_all env ds fm = (fm1, Inr ()) \<Longrightarrow> trailers_ok env (ext (concat ds) fm) \<Longrightarrow> ds \<noteq> [] \<Longrightarrow>
   \<exists>fm2. buffered env (concat ds) fm = (fm2, Inr ()) \<and> settled fm1 = settled fm2"
proof (induction ds arbitrary: fm)
  case Nil
  then show ?case by simp
next
  case (Cons d ds)
  let ?x = "concat ds"
  have ok: "trailers_ok env (ext ?x (ext d fm))" using Cons.prems(2) by (simp add: ext_ext)
  then have ok_d: "trailers_ok env (ext d fm)" by (rule trailers_ok_ext)
  obtain fa where fa: "feed env d fm = (fa, Inr ())" "feed_all env ds fa = (fm1, Inr ())"
    using Cons.prems(1) by (auto split: prod.splits sum.splits)
  then obtain fb where fb: "parse env (ext d fm) = (fb, Inr ())" "settled fa = settled fb"
    using feed_buffered [OF ok_d, of fa] by (auto simp: buffered_def)
  have whole: "parse env (ext ?x (ext d fm)) = parse env (ext ?x fb)" "trailers_ok env (ext ?x fb)"
    using parse_ext [OF ok_d, of ?x] fb(1) ok by auto
  have se: "settled (ext ?x fb) = settled (ext ?x fa)" using fb(2) by (intro settled_ext) simp
  show ?case
  proof (cases "ds = []")
    case True
    then show ?thesis using fa fb by (auto simp: buffered_def)
  next
    case False
    obtain fc rc where c: "parse env (ext ?x fb) = (fc, rc)" by (cases "parse env (ext ?x fb)")
    from settled_parse [OF se c] whole(2) have "trailers_ok env (ext ?x fa)" by blast
    from Cons.IH [OF fa(2) this False] obtain fd where
      fd: "parse env (ext ?x fa) = (fd, Inr ())" "settled fm1 = settled fd"
      by (auto simp: buffered_def)
    from settled_parse [OF se [symmetric] fd(1)] c have "rc = Inr ()" "settled fd = settled fc"
      by auto
    then show ?thesis
      using whole(1) c fd(2) by (auto simp: buffered_def ext_ext)
  qed
qed

lemma feed_all_whole:
  assumes "feed_all env ds fm = (fm1, Inr ())" "trailers_ok env (ext (concat ds) fm)" "ds \<noteq> []"
  shows "\<exists>fm2. feed env (concat ds) fm = (fm2, Inr ()) \<and> settled fm1 = settled fm2"
  using feed_all_buffered [OF assms] feed_buffered [OF assms(2), of fm1] by metis

subsection \<open>Dispatch does not look at the framers\<close>

abbreviation reframe :: "(int \<times> framer) list \<Rightarrow> machine \<Rightarrow> machine" where
  "reframe x m \<equiv> m\<lparr>m_framers := x\<rparr>"

definition blind :: "'a op \<Rightarrow> bool" where
  "blind p \<longleftrightarrow> (\<forall>m x. p (reframe x m) = (case p m of (m', r) \<Rightarrow> (reframe x m', r)))"

named_theorems blinds \<open>operations that do not look at the framers\<close>

lemma blindD: "blind p \<Longrightarrow> p m = (m', r) \<Longrightarrow> p (reframe x m) = (reframe x m', r)"
  by (simp add: blind_def)

lemma blind_basic [blinds]: "blind (mret x)" "blind (mraise e)" "blind (mlift r)"
  by (simp_all add: blind_def)

lemma blind_mupd [blinds]: "(\<And>m x. f (reframe x m) = reframe x (f m)) \<Longrightarrow> blind (mupd f)"
  by (simp add: blind_def)

lemma blind_mbind [blinds]:
  assumes "blind p" and "\<And>y. blind (f y)"
  shows "blind (mbind p f)"
  unfolding blind_def
proof (intro allI)
  fix m x
  obtain m' r where p: "p m = (m', r)" by (cases "p m")
  then have "p (reframe x m) = (reframe x m', r)" using assms(1) by (rule blindD [rotated])
  then show "mbind p f (reframe x m) = (case mbind p f m of (m', r) \<Rightarrow> (reframe x m', r))"
    using p assms(2) by (cases r) (auto simp: blind_def)
qed

lemma blind_mread [blinds]:
  "(\<And>m x. p (reframe x m) = p m) \<Longrightarrow> (\<And>m. blind (p m)) \<Longrightarrow> blind (mread p)"
  by (simp add: blind_def)

lemma blind_cases [blinds]:
  "(c \<Longrightarrow> blind p) \<Longrightarrow> (\<not> c \<Longrightarrow> blind q) \<Longrightarrow> blind (if c then p else q)"
  "(o' = None \<Longrightarrow> blind p) \<Longrightarrow> (\<And>y. o' = Some y \<Longrightarrow> blind (u y)) \<Longrightarrow>
   blind (case o' of None \<Rightarrow> p | Some y \<Rightarrow> u y)"
  "(l = [] \<Longrightarrow> blind p) \<Longrightarrow> (\<And>y ys. l = y # ys \<Longrightarrow> blind (v y ys)) \<Longrightarrow>
   blind (case l of [] \<Rightarrow> p | y # ys \<Rightarrow> v y ys)"
  "(\<And>a b. ab = (a, b) \<Longrightarrow> blind (w a b)) \<Longrightarrow> blind (case ab of (a, b) \<Rightarrow> w a b)"
  "(\<And>e. s = Inl e \<Longrightarrow> blind (y e)) \<Longrightarrow> (\<And>a. s = Inr a \<Longrightarrow> blind (z a)) \<Longrightarrow>
   blind (case s of Inl e \<Rightarrow> y e | Inr a \<Rightarrow> z a)"
  by (auto split: option.splits list.splits prod.splits sum.splits)

lemma blind_release: "release sid (reframe x m) = reframe x (release sid m)"
  by (simp add: release_def Let_def)

lemma blind_quiet [blinds]:
  "blind (emit e)" "blind (send_out ps)" "blind (send_path q ps)" "blind (fail ex)"
  "blind (finish sid e)" "blind (append_buffer sid p body)" "blind (within_cap sid p n)"
  unfolding emit_def send_out_def send_path_def fail_def finish_def append_buffer_def within_cap_def
  by (intro blinds; simp add: blind_release)+

lemma blind_handlers [blinds]:
  "blind (response_ok sid body p)" "blind (response_chunk sid body p)" "blind (response_error sid body p)"
  "blind (response_redirect sid body p)" "blind (response_wait sid body p)"
  "blind (response_waitresp sid body p)" "blind (response_unexpected sid p)"
  unfolding response_ok_def response_chunk_def response_error_def response_redirect_def
    response_wait_def response_waitresp_def response_unexpected_def
  by (intro blinds; simp)+

lemma blind_status_data: "blind (on_status_data sid data)"
  unfolding on_status_data_def by (intro blinds; simp)

lemma blind_login [blinds]: "blind (begin_login env)"
  unfolding begin_login_def by (intro blinds; simp)

lemma blind_after [blinds]: "blind (after_protocol env)"
  unfolding after_protocol_def Let_def by (intro blinds; simp)

lemma blind_ready [blinds]: "blind become_ready"
  unfolding become_ready_def Let_def by (intro blinds; simp cong: option.case_cong list.case_cong)

lemma blind_send_auth [blinds]: "blind (send_auth name blob)"
  unfolding send_auth_def by (intro blinds)

lemma blind_climb [blinds]: "blind (next_credential env sec)"
  unfolding next_credential_def
  by (intro blinds; simp add: climb_ladder_def cong: option.case_cong sum.case_cong)

lemma blind_refused [blinds]: "blind (auth_refused env code msg)"
  unfolding auth_refused_def Let_def by (intro blinds; simp)

lemma blind_auth_step [blinds]: "blind (auth_step env challenge)"
  unfolding auth_step_def by (intro blinds; simp)

lemma blind_bringup: "blind (bringup env status body)"
  unfolding bringup_def bringup_error_def handshaken_def by (intro blinds; simp)

lemma blind_unwrap: "blind (unwrap_attn body)"
  unfolding unwrap_attn_def by (intro blinds)

lemma dispatch_blind:
  "dispatch env sid status body (reframe x m) =
     (case dispatch env sid status body m of (m', t, r) \<Rightarrow> (reframe x m', t, r))"
proof -
  have q: "p (reframe x n) = (reframe x (fst (p n)), snd (p n))" if "blind p" for p :: "unit op" and n
    using that by (simp add: blind_def case_prod_beta)
  have h: "handle sid status body p (reframe x m) = (case handle sid status body p m of (m', t, r) \<Rightarrow> (reframe x m', t, r))"
    for sid status body p m
  proof -
    have e: "(reframe x m)\<lparr>m_pending := y\<rparr> = reframe x (m\<lparr>m_pending := y\<rparr>)" for y by simp
    show ?thesis
      by (simp add: handle_def no_trailer_def q blind_handlers response_status_def Let_def e
          q [OF blind_status_data] split: sum.splits)
  qed
  have l: "retired_reply sid status body (reframe x m) = (case retired_reply sid status body m of (m', t, r) \<Rightarrow> (reframe x m', t, r))"
    for sid status body m
    by (simp add: retired_reply_def Let_def split: sum.splits)
  have r: "route env sid status body (reframe x m) = (case route env sid status body m of (m', t, r) \<Rightarrow> (reframe x m', t, r))"
    for sid status body m
    by (simp add: route_def no_trailer_def q [OF blind_bringup] h l split: option.splits)
  obtain m' z where w: "unwrap_attn body m = (m', z)" by (cases "unwrap_attn body m")
  then have "unwrap_attn body (reframe x m) = (reframe x m', z)" using blind_unwrap by (rule blindD [rotated])
  then show ?thesis using w r by (auto simp: dispatch_def split: sum.splits option.splits)
qed

abbreviation reframe_result ::
  "(int \<times> framer) list \<Rightarrow> (framer \<times> machine) \<times> 'a res \<Rightarrow> (framer \<times> machine) \<times> 'a res" where
  "reframe_result x p \<equiv> ((fst (fst p), reframe x (snd (fst p))), snd p)"

lemma run_dispatch_blind:
  "run_dispatch env sid status body (f, reframe x m) = reframe_result x (run_dispatch env sid status body (f, m))"
  by (auto simp: run_dispatch_def dispatch_blind split: prod.splits)

lemma parse_body_blind: "parse_body env (f, reframe x m) = reframe_result x (parse_body env (f, m))"
  by (auto simp: parse_body_def Let_def run_dispatch_blind split: prod.splits)

lemma parse_step_blind: "parse_step env (f, reframe x m) = reframe_result x (parse_step env (f, m))"
proof -
  have q: "on_status_data sid data (reframe x m)
      = (reframe x (fst (on_status_data sid data m)), snd (on_status_data sid data m))" for sid data
    using blind_status_data [of sid data] by (simp add: blind_def case_prod_beta)
  show ?thesis
    by (auto simp: parse_step_def Let_def q parse_body_blind case_prod_beta split: sum.splits option.splits)
qed

lemma parse_blind: "parse env (f, reframe x m) = reframe_result x (parse env (f, m))"
proof (induction env "(f, m)" arbitrary: f m rule: parse.induct)
  case (1 env f m)
  obtain f' m' r where s: "parse_step env (f, m) = ((f', m'), r)" by (metis prod.exhaust)
  then have "parse_step env (f, reframe x m) = ((f', reframe x m'), r)" by (simp add: parse_step_blind)
  then show ?case
    using s "1.hyps" [OF s [symmetric]]
    by (auto simp: parse.simps [of env "(f, m)"] parse.simps [of env "(f, reframe x m)"]
        split: sum.splits bool.splits)
qed

lemma feed_blind: "feed env data (f, reframe x m) = reframe_result x (feed env data (f, m))"
proof -
  have "whole_frame env data (f, reframe x m) = reframe_result x (whole_frame env data (f, m))"
    by (auto simp: whole_frame_def run_dispatch_blind case_prod_beta split: sum.splits)
  then show ?thesis
    by (auto simp: feed_def parse_blind case_prod_beta split: sum.splits bool.splits)
qed

lemma feed_all_blind: "feed_all env ds (f, reframe x m) = reframe_result x (feed_all env ds (f, m))"
proof (induction ds arbitrary: f m)
  case (Cons d ds)
  obtain f' m' r where s: "feed env d (f, m) = ((f', m'), r)" by (metis prod.exhaust)
  then have "feed env d (f, reframe x m) = ((f', reframe x m'), r)" by (simp add: feed_blind)
  then show ?case using s Cons by (auto split: sum.splits)
qed simp

subsection \<open>At the machine's interface\<close>

fun receive_all :: "env \<Rightarrow> bytes list \<Rightarrow> int \<Rightarrow> unit op" where
  "receive_all env [] link m = (m, Inr ())"
| "receive_all env (d # ds) link m =
     (case receive_data env d link m of (m', Inl e) \<Rightarrow> (m', Inl e) | (m', Inr _) \<Rightarrow> receive_all env ds link m')"

lemma dict_set_twice [simp]: "dict_set k v (dict_set k u d) = dict_set k v d"
  by (induction k u d rule: dict_set.induct) auto

lemma receive_feed:
  assumes "data \<noteq> []" and "feed env data (the_framer link m, m) = ((f, m'), r)"
  shows "receive_data env data link m = (reframe (dict_set link f (m_framers m)) m', r)"
proof -
  have "feed env data (the_framer link m, reframe x m) = ((f, reframe x m'), r)" for x
    by (simp only: feed_blind assms(2) fst_conv snd_conv)
  then show ?thesis
    using assms(1) by (simp add: receive_data_def put_framer_def Let_def)
qed

lemma the_framer_put [simp]: "the_framer link (reframe (dict_set link f x) m) = f"
  by (simp add: the_framer_def map_of_dict_set)

lemma receive_all_feed:
  "ds \<noteq> [] \<Longrightarrow> [] \<notin> set ds \<Longrightarrow> feed_all env ds (the_framer link m, m) = ((f, m'), r) \<Longrightarrow>
   receive_all env ds link m = (reframe (dict_set link f (m_framers m)) m', r)"
proof (induction ds arbitrary: m m')
  case Nil
  from Nil.prems(1) show ?case by simp
next
  case (Cons d ds)
  obtain f1 m1 r1 where s: "feed env d (the_framer link m, m) = ((f1, m1), r1)" by (metis prod.exhaust)
  have d: "receive_data env d link m = (reframe (dict_set link f1 (m_framers m)) m1, r1)"
    by (rule receive_feed [OF _ s]) (use Cons.prems(2) in auto)
  show ?case
  proof (cases "\<exists>e. r1 = Inl e")
    case True
    then show ?thesis using Cons.prems(3) s d by auto
  next
    case False
    then have r1: "r1 = Inr ()" by (cases r1) auto
    have rest: "feed_all env ds (f1, m1) = ((f, m'), r)" using Cons.prems(3) s r1 by simp
    let ?m = "reframe (dict_set link f1 (m_framers m)) m1"
    show ?thesis
    proof (cases "ds = []")
      case True
      then show ?thesis using rest d r1 by (auto split: sum.splits)
    next
      case False
      have "feed_all env ds (the_framer link ?m, ?m)
          = ((f, reframe (dict_set link f1 (m_framers m)) m'), r)"
        using rest feed_all_blind [of env ds f1 "dict_set link f1 (m_framers m)" m1] by simp
      from Cons.IH [OF False _ this] Cons.prems(2) show ?thesis using d r1 by simp
    qed
  qed
qed

text \<open>Two machines that differ at most in the dead values of one link's framer.\<close>

definition settle :: "int \<Rightarrow> machine \<Rightarrow> machine" where
  "settle link m = put_framer link (fst (settled (the_framer link m, m))) m"

lemma settle_put:
  "settled (f, m) = settled (g, n) \<Longrightarrow>
   settle link (reframe (dict_set link f x) m) = settle link (reframe (dict_set link g x) n)"
proof -
  assume s: "settled (f, m) = settled (g, n)"
  have st: "fst (settled (f, k)) = fst (settled (g, j))" for k j
    using s by (auto simp: settled_def split: if_splits)
  have "m = n" using settled_eqD [OF s] by blast
  then show ?thesis
    by (simp add: settle_def put_framer_def st [of "reframe (dict_set link f x) n" "reframe (dict_set link g x) n"])
qed

text \<open>A concrete session for evaluation: ready, with a paged read and a ping in flight.\<close>

definition sample_e :: env where
  "sample_e = \<lparr>e_sig = sample_env, e_auth = sample_auth, e_getpid = 7\<rparr>"

definition sample_pending :: "request \<Rightarrow> pending" where
  "sample_pending req = \<lparr>pd_request = req, pd_parts = [], pd_buffer = [], pd_status = None, pd_path = [],
     pd_pathid = 0, pd_path_bytes = [], pd_cap = reply_cap req\<rparr>"

definition sample_ready :: machine where
  "sample_ready = (SessionMachine [] 1094 sample_config [] False)
     \<lparr>m_state := READY, m_next_sid := 6,
      m_pending := [(4, sample_pending (PgRead [0, 0, 0, 1] 0 4096 0 0)), (5, sample_pending Ping)]\<rparr>"

text \<open>A status reply on stream 4 that is final and declares \<open>n\<close> bytes of data.\<close>

definition sample_status :: "bytes \<Rightarrow> bytes" where
  "sample_status n = [0, 4, 15, 167, 0, 0, 0, 16, 0, 0, 0, 0, 0, 4, 30, 0, 0, 0, 0, 0] @ n"

definition sample_ok :: bytes where
  "sample_ok = [0, 5, 0, 0, 0, 0, 0, 0]"

subsection \<open>Properties\<close>

text \<open>C5: how the network cuts the byte stream does not matter: bytes delivered on a link in
  any number of nonempty segments leave the machine, its streams and its events exactly as
  the same bytes delivered at once, the dead values of the link's framer apart, as long as
  no status block declares a negative length. The case of a reply that arrives whole, which
  skips the buffer, is included on both sides.\<close>

theorem segmentation_independent:
  assumes "ds \<noteq> []" and "[] \<notin> set ds"
    and "trailers_ok env (ext (concat ds) (the_framer link m, m))"
    and "receive_all env ds link m = (m1, Inr ())"
  shows "\<exists>m2. receive_data env (concat ds) link m = (m2, Inr ()) \<and> settle link m1 = settle link m2"
proof -
  obtain f m' r where fa: "feed_all env ds (the_framer link m, m) = ((f, m'), r)" by (metis prod.exhaust)
  have m1: "m1 = reframe (dict_set link f (m_framers m)) m'" "r = Inr ()"
    using receive_all_feed [OF assms(1,2) fa] assms(4) by auto
  obtain g n where g: "feed env (concat ds) (the_framer link m, m) = ((g, n), Inr ())"
    "settled (f, m') = settled (g, n)"
    using feed_all_whole [of env ds] fa m1(2) assms(1,3) by fastforce
  have "concat ds \<noteq> []" using assms(1,2) by (cases ds) auto
  from receive_feed [OF this g(1)] settle_put [OF g(2)] m1(1) show ?thesis by blast
qed


theorem segmentation_independent_witness:
  "\<exists>m2. receive_data sample_e (concat [take 9 (sample_status [0, 0, 0, 2]), drop 9 (sample_status [0, 0, 0, 2]) @ [1], [2] @ sample_ok])
       0 sample_ready = (m2, Inr ()) \<and>
     settle 0 (fst (receive_all sample_e
       [take 9 (sample_status [0, 0, 0, 2]), drop 9 (sample_status [0, 0, 0, 2]) @ [1], [2] @ sample_ok] 0 sample_ready)) = settle 0 m2"
proof -
  let ?ds = "[take 9 (sample_status [0, 0, 0, 2]), drop 9 (sample_status [0, 0, 0, 2]) @ [1], [2] @ sample_ok]"
  have ne: "?ds \<noteq> []" "[] \<notin> set ?ds" by code_simp+
  have ok: "trailers_ok sample_e (ext (concat ?ds) (the_framer 0 sample_ready, sample_ready))"
    by code_simp
  have "snd (receive_all sample_e ?ds 0 sample_ready) = Inr ()" by code_simp
  then have "receive_all sample_e ?ds 0 sample_ready = (fst (receive_all sample_e ?ds 0 sample_ready), Inr ())"
    by (metis prod.collapse)
  from segmentation_independent [OF ne ok this] show ?thesis .
qed


end
