(* ===== verification/Machine_Security.thy ===== *)
theory Machine_Security
  imports Machine_Invariants
begin

text \<open>
  A connection that wants TLS, or whose server demands it, never gets past the protocol
  exchange in the clear: over every sequence of calls, logging in, authenticating, binding
  and submitting happen only once the socket is encrypted.
\<close>

subsection \<open>What TLS depends on\<close>

definition sec_core :: "machine \<Rightarrow> bool \<times> protocol_info \<times> bool" where
  "sec_core m = (m_want_tls m, m_protocol_info m, m_tls_active m)"

definition tls_needed :: "machine \<Rightarrow> bool" where
  "tls_needed m \<longleftrightarrow> m_want_tls m \<or> tls_demanded (pi_flags (m_protocol_info m))"

definition secure :: "machine \<Rightarrow> bool" where
  "secure m \<longleftrightarrow> (tls_needed m \<longrightarrow> m_tls_active m)"

definition tls_inv :: "machine \<Rightarrow> bool" where
  "tls_inv m \<longleftrightarrow> (m_state m \<in> {LOGIN, AUTH, BIND, READY} \<longrightarrow> secure m)"

lemma secure_core: "sec_core m' = sec_core m \<Longrightarrow> secure m' = secure m"
  by (simp add: sec_core_def secure_def tls_needed_def)

text \<open>Operations that touch neither the TLS decision nor the state.\<close>

abbreviation sees :: "machine \<Rightarrow> machine \<Rightarrow> bool" where
  "sees k m \<equiv> sec_core m = sec_core k \<and> m_state m = m_state k"

lemma still [pres]:
  "(\<And>m. sec_core (f m) = sec_core m \<and> m_state (f m) = m_state m) \<Longrightarrow> preserves (sees k) (mupd f)"
  by (rule preserves_mupd) simp

lemma release_still [simp]: "sec_core (release sid m) = sec_core m" "m_state (release sid m) = m_state m"
  by (simp_all add: release_def Let_def sec_core_def)

lemma release_fold_still:
  "sec_core (fold release sids m) = sec_core m \<and> m_state (fold release sids m) = m_state m"
  by (induction sids arbitrary: m) auto

lemma abandon_still: "sec_core (abandon sid m) = sec_core m" "m_state (abandon sid m) = m_state m"
  by (simp_all add: abandon_def Let_def sec_core_def)

lemma acquire_still [pres]: "preserves (sees k) acquire_sid"
  by (auto simp: preserves_def acquire_sid_def Let_def sec_core_def split: list.splits)

lemma frame_still [pres]: "preserves (sees k) (frame env req sid)"
  by (auto simp: preserves_def frame_def Let_def sec_core_def split: sum.splits option.splits prod.splits)

lemma quiet_still [pres]:
  "preserves (sees k) (emit e)" "preserves (sees k) (send_out ps)" "preserves (sees k) (send_path q ps)"
  "preserves (sees k) (append_buffer sid p body)"
  unfolding emit_def send_out_def send_path_def append_buffer_def
  by (intro pres; simp add: sec_core_def)+

lemma finish_still [pres]: "preserves (sees k) (finish sid e)"
  unfolding finish_def by (intro pres) simp

lemma cap_still [pres]: "preserves (sees k) (within_cap sid p n)"
  unfolding within_cap_def by (intro pres)

lemma handlers_still [pres]:
  "preserves (sees k) (response_ok sid body p)" "preserves (sees k) (response_chunk sid body p)"
  "preserves (sees k) (response_error sid body p)" "preserves (sees k) (response_redirect sid body p)"
  "preserves (sees k) (response_wait sid body p)" "preserves (sees k) (response_waitresp sid body p)"
  "preserves (sees k) (response_unexpected sid p)"
  unfolding response_ok_def response_chunk_def response_error_def response_redirect_def
    response_wait_def response_waitresp_def response_unexpected_def
  by (intro pres)+

lemma on_status_data_still: "preserves (sees k) (on_status_data sid data)"
  unfolding on_status_data_def by (intro pres)

lemma status_still: "sees m (fst (response_status sid body p m))"
proof -
  have upd: "sees m (m\<lparr>m_pending := x\<rparr>)" for x by (simp add: sec_core_def)
  have "sees m (fst (on_status_data sid [] (m\<lparr>m_pending := x\<rparr>)))" for x
    by (rule preserves_fst [OF on_status_data_still upd])
  with upd show ?thesis
    by (auto simp: response_status_def no_trailer_def Let_def split: sum.splits)
qed

lemma handle_still: "sees m (fst (handle sid status body p m))"
  using status_still preserves_fst [OF handlers_still(1), of m] preserves_fst [OF handlers_still(2), of m]
    preserves_fst [OF handlers_still(3), of m] preserves_fst [OF handlers_still(4), of m]
    preserves_fst [OF handlers_still(5), of m] preserves_fst [OF handlers_still(6), of m]
    preserves_fst [OF handlers_still(7), of m]
  by (simp add: handle_def no_trailer_def)

lemma retired_still: "sees m (fst (retired_reply sid status body m))"
  by (auto simp: retired_reply_def Let_def sec_core_def split: sum.splits)

subsection \<open>Bring-up\<close>

lemma secure_quiet [pres]: "(\<And>m. sec_core (f m) = sec_core m) \<Longrightarrow> preserves secure (mupd f)"
  by (rule preserves_mupd) (metis secure_core)

lemma secure_ops [pres]:
  "preserves secure (emit ev)" "preserves secure (send_out ps)" "preserves secure (fail e)"
  unfolding emit_def send_out_def fail_def by (intro pres; simp add: sec_core_def)+

lemma secure_login [pres]: "preserves secure (begin_login env)"
  unfolding begin_login_def by (intro pres; simp add: sec_core_def)

lemma secure_ready [pres]: "preserves secure become_ready"
  unfolding become_ready_def Let_def by (intro pres; simp add: sec_core_def)

lemma secure_auth [pres]: "preserves secure (send_auth name blob)"
  unfolding send_auth_def by (intro pres)

lemma secure_climb [pres]: "preserves secure (next_credential env sec)"
  unfolding next_credential_def by (intro pres; simp add: sec_core_def)

lemma secure_refused [pres]: "preserves secure (auth_refused env code msg)"
  unfolding auth_refused_def Let_def by (intro pres; simp add: sec_core_def)

lemma secure_step [pres]: "preserves secure (auth_step env challenge)"
  unfolding auth_step_def by (intro pres; simp add: sec_core_def)

lemma secure_inv: "secure m \<Longrightarrow> tls_inv m"
  by (simp add: tls_inv_def)

lemma tls_decided: "tls_inv (fst (after_protocol env m))"
proof (cases "tls_needed m")
  case True
  then show ?thesis
    by (auto simp: after_protocol_def Let_def tls_needed_def fail_def emit_def tls_inv_def)
next
  case False
  then have "secure m" by (simp add: secure_def)
  then have "tls_inv (fst (begin_login env m))"
    using preserves_fst [OF secure_login] secure_inv by blast
  then show ?thesis using False by (simp add: after_protocol_def Let_def tls_needed_def)
qed

lemma bringup_tls:
  assumes "tls_inv m" "m_state m \<in> BRINGUP"
  shows "tls_inv (fst (bringup env status body m))"
proof -
  have failed: "tls_inv (fst (fail e m))" for e by (simp add: fail_def emit_def tls_inv_def)
  show ?thesis
  proof (cases "m_state m \<in> {LOGIN, AUTH, BIND}")
    case True
    then have sec: "secure m" using assms(1) by (auto simp: tls_inv_def)
    have "preserves secure (bringup_error env body)"
      unfolding bringup_error_def by (intro pres)
    moreover have "preserves secure (mbind (mlift (parse_bind body)) (\<lambda>pathid.
        mbind (mupd (\<lambda>m. m\<lparr>m_pathid := pathid\<rparr>)) (\<lambda>_. become_ready)))"
      by (intro pres; simp add: sec_core_def)
    moreover have "preserves secure (mbind (mlift (parse_login body)) (\<lambda>login.
        mbind (mupd (\<lambda>m. m\<lparr>m_session_id := li_sessid login, m_offered := mechanisms login\<rparr>)) (\<lambda>_.
        if li_sec login = [] then become_ready
        else mbind (mupd (\<lambda>m. m\<lparr>m_state := AUTH\<rparr>)) (\<lambda>_. next_credential env (li_sec login)))))"
      by (intro pres; simp add: sec_core_def)
    ultimately have "secure (fst (bringup env status body m))"
      using True sec preserves_fst [OF secure_ops(3)] preserves_fst [OF secure_step] preserves_fst [OF secure_ready]
      by (auto simp: bringup_def dest!: preserves_fst)
    then show ?thesis by (rule secure_inv)
  next
    case False
    then have st: "m_state m = HANDSHAKING \<or> m_state m = PROTOCOL"
      using assms(2) by (auto simp: BRINGUP_def)
    have "tls_inv (fst (bringup_error env body m))"
      using st failed assms(1) by (cases "parse_error body") (auto simp: bringup_error_def)
    moreover have "tls_inv (fst (handshaken body m))" by (simp add: handshaken_def tls_inv_def)
    moreover have "tls_inv (fst (mbind (mlift (parse_protocol body)) (\<lambda>info.
        mbind (mupd (\<lambda>m. m\<lparr>m_protocol_info := info\<rparr>)) (\<lambda>_.
        mbind (emit (Negotiated info)) (\<lambda>_. after_protocol env))) m))"
      using tls_decided assms(1) by (cases "parse_protocol body") (auto simp: emit_def)
    ultimately show ?thesis using st failed by (auto simp: bringup_def)
  qed
qed

subsection \<open>Every call\<close>

lemma sees_inv: "sees m m' \<Longrightarrow> tls_inv m \<Longrightarrow> tls_inv m'"
  unfolding tls_inv_def using secure_core by metis

lemma dispatch_tls: "tls_inv m \<Longrightarrow> tls_inv (fst (dispatch env sid status body m))"
proof -
  assume m: "tls_inv m"
  have r: "tls_inv (fst (route env sid status body m))" if "tls_inv m" for sid status body m
    using that bringup_tls [OF that] sees_inv [OF handle_still that] sees_inv [OF retired_still that]
    by (auto simp: route_def no_trailer_def split: option.splits)
  have u: "preserves (sees m) (unwrap_attn body)"
    unfolding unwrap_attn_def by (intro pres)
  obtain m' x where w: "unwrap_attn body m = (m', x)" by (cases "unwrap_attn body m")
  then have "sees m m'" using preservesD [OF u, of m] by blast
  then have "tls_inv m'" using m by (rule sees_inv)
  then show ?thesis
    using w r m by (auto simp: dispatch_def split: sum.splits option.splits)
qed

lemma parse_step_tls: "tls_inv m \<Longrightarrow> tls_inv (snd (fst (parse_step env (f, m))))"
proof -
  assume m: "tls_inv m"
  have d: "tls_inv (snd (fst (run_dispatch env sid status body (g, m))))" for sid status body g
    using dispatch_tls [OF m] by (auto simp: run_dispatch_def split: prod.splits) (metis fst_conv)
  have b: "tls_inv (snd (fst (parse_body env (g, m))))" for g
    using m d by (auto simp: parse_body_def Let_def split: prod.splits) (metis fst_conv snd_conv)
  have s: "tls_inv (fst (on_status_data sid data m))" for sid data
    using sees_inv [OF preserves_fst [OF on_status_data_still, of m] m] by simp
  show ?thesis
    using m b s by (auto simp: parse_step_def Let_def split: prod.splits sum.splits option.splits)
       (metis fst_conv)+
qed

lemma parse_tls: "tls_inv (snd fm) \<Longrightarrow> tls_inv (snd (fst (parse env fm)))"
proof (induction env fm rule: parse.induct)
  case (1 env fm)
  obtain fm' r where s: "parse_step env fm = (fm', r)" by (cases "parse_step env fm")
  then have "tls_inv (snd fm')" using parse_step_tls [of "snd fm" env "fst fm"] "1.prems" by simp
  then show ?case
    using "1.IH" [OF s [symmetric]] s by (subst parse.simps) (auto split: sum.splits bool.splits)
qed

lemma receive_tls: "tls_inv m \<Longrightarrow> tls_inv (fst (receive_data env data pathid m))"
proof -
  assume m: "tls_inv m"
  have pf: "tls_inv (put_framer pathid f m)" if "tls_inv m" for f m
    using that by (rule sees_inv [rotated]) (simp add: put_framer_def sec_core_def)
  let ?m = "put_framer pathid (the_framer pathid m) m"
  have m0: "tls_inv ?m" using m by (rule pf)
  have eof: "tls_inv (on_eof ?m)" using m0 by (simp add: on_eof_def tls_inv_def)
  have peof: "tls_inv (on_path_eof pathid ?m)"
    using m0 by (rule sees_inv [rotated])
      (simp add: on_path_eof_def forget_path_def Let_def release_fold_still sec_core_def
        release_fold_still [unfolded sec_core_def])
  have "tls_inv (snd (fst (whole_frame env data (the_framer pathid m, ?m))))"
    using m0 dispatch_tls [OF m0]
    by (auto simp: whole_frame_def run_dispatch_def split: prod.splits sum.splits) (metis fst_conv)
  then have "tls_inv (snd (fst (feed env data (the_framer pathid m, ?m))))"
    using parse_tls by (auto simp: feed_def split: prod.splits sum.splits bool.splits)
  then show ?thesis
    using eof peof pf by (auto simp: receive_data_def Let_def split: prod.splits)
qed

lemma outbound_still:
  "preserves (sees k) (submit env req path arrive)" "preserves (sees k) (resume sid)"
  "preserves (sees k) (frame_for env req sid)"
  unfolding submit_def send_def resume_def frame_for_def frame_parts_for_def Let_def
  by (intro pres; simp add: sec_core_def)+

lemma lease_still: "preserves (sees k) (lease_sids n)"
proof -
  have "preserves (sees k) (lease_loop j)" for j
  proof (induction j)
    case 0
    show ?case unfolding lease_loop.simps by (rule preserves_basic)
  next
    case (Suc j)
    then show ?case unfolding lease_loop.simps by (intro pres) (simp_all add: sec_core_def)
  qed
  then show ?thesis unfolding lease_sids_def by (intro pres)
qed

lemma unlease_still:
  "sees m (fold release_sid sids m)" "sees m (fold (retire_sid owed) sids m)"
proof -
  have "sec_core (fold release_sid sids m) = sec_core m \<and> m_state (fold release_sid sids m) = m_state m"
    by (induction sids arbitrary: m) (simp_all add: release_sid_def sec_core_def)
  then show "sees m (fold release_sid sids m)" by simp
  have "sec_core (fold (retire_sid owed) sids m) = sec_core m \<and>
      m_state (fold (retire_sid owed) sids m) = m_state m"
    by (induction sids arbitrary: m) (simp_all add: retire_sid_def Let_def sec_core_def)
  then show "sees m (fold (retire_sid owed) sids m)" by simp
qed

lemma close_tls: "tls_inv m \<Longrightarrow> tls_inv (fst (close graceful m))"
proof -
  assume m: "tls_inv m"
  have "preserves (sees m) (if m_state m = READY \<and> graceful \<and> m_session_id m \<noteq> []
            then mbind acquire_sid (\<lambda>sid.
                 mbind (mlift (encode (EndSession (m_session_id m)) sid)) (\<lambda>f. send_out [f]))
            else mret ())" (is "preserves _ ?p")
    by (intro pres)
  then have p: "sees m (fst (?p m))" by (rule preserves_fst) simp
  obtain m' r where r: "?p m = (m', r)" by (cases "?p m")
  have "tls_inv m'" using sees_inv [OF p m] r by simp
  then show ?thesis
    using r by (cases r) (simp_all add: close_def emit_def tls_inv_def)
qed

lemma start_tls: "tls_inv m \<Longrightarrow> tls_inv (fst (start m))"
  by (auto simp: start_def send_out_def tls_inv_def Let_def mbind_def split: sum.splits prod.splits)

lemma tls_established_tls: "tls_inv m \<Longrightarrow> tls_inv (fst (tls_established env m))"
proof -
  assume m: "tls_inv m"
  have "secure (m\<lparr>m_tls_active := True\<rparr>)" by (simp add: secure_def)
  then have "tls_inv (fst (begin_login env (m\<lparr>m_tls_active := True\<rparr>)))"
    using preserves_fst [OF secure_login] secure_inv by blast
  with m show ?thesis by (simp add: tls_established_def)
qed

lemma exec_tls: "tls_inv m \<Longrightarrow> tls_inv (exec env c m)"
proof (induction c)
  case (ReleaseSids sids)
  then show ?case using sees_inv [OF unlease_still(1)] by (simp add: release_sids_def)
next
  case (RetireSids sids owed)
  then show ?case using sees_inv [OF unlease_still(2)] by (simp add: retire_sids_def)
next
  case (ForgetPath pathid)
  have "sees m (forget_path pathid m)"
    using release_fold_still [of "streams_on pathid m" m] by (simp add: forget_path_def Let_def sec_core_def)
  then show ?case using ForgetPath by (simp add: sees_inv)
next
  case (Submit req path arrive)
  then show ?case using sees_inv [OF preserves_fst [OF outbound_still(1), of m]] by simp
next
  case (Resume sid)
  then show ?case using sees_inv [OF preserves_fst [OF outbound_still(2), of m]] by simp
next
  case (FrameFor req sid)
  then show ?case using sees_inv [OF preserves_fst [OF outbound_still(3), of m]] by simp
next
  case (Lease n)
  then show ?case using sees_inv [OF preserves_fst [OF lease_still, of m]] by simp
next
  case NextEvent
  then show ?case by (auto simp: next_event_def tls_inv_def secure_def tls_needed_def split: list.splits)
next
  case (Release sid)
  show ?case unfolding exec.simps by (rule sees_inv [OF _ Release]) simp
next
  case (Abandon sid)
  show ?case unfolding exec.simps by (rule sees_inv [OF _ Abandon]) (simp add: abandon_still)
next
  case (TakeOut)
  show ?case unfolding exec.simps
    by (rule sees_inv [OF _ TakeOut]) (simp add: buffers_to_send_def sec_core_def)
next
  case (TakePathOut pathid)
  show ?case unfolding exec.simps
    by (rule sees_inv [OF _ TakePathOut]) (simp add: path_buffers_to_send_def sec_core_def)
next
  case (Drain)
  show ?case unfolding exec.simps
    by (rule sees_inv [OF _ Drain]) (simp add: drain_def sec_core_def)
qed (simp_all add: start_tls close_tls tls_established_tls receive_tls)

lemma reachable_tls:
  assumes "reachable env m"
  shows "tls_inv m"
  using assms
proof induction
  case (step m c)
  show ?case using step.IH by (rule exec_tls)
qed (simp_all add: SessionMachine_def data_path_def tls_inv_def)

subsection \<open>Properties\<close>

text \<open>C6: no login in the clear: in every state a driver can bring the machine to, if TLS was
  wanted by the client or demanded by the server's flags, then logging in, authenticating,
  binding a data path and being ready for requests all imply that the socket has been
  upgraded.\<close>

theorem tls_before_login:
  assumes "reachable env m" and "m_state m \<in> {LOGIN, AUTH, BIND, READY}"
    and "m_want_tls m \<or> tls_demanded (pi_flags (m_protocol_info m))"
  shows "m_tls_active m"
  using reachable_tls [OF assms(1)] assms(2,3) by (auto simp: tls_inv_def secure_def tls_needed_def)


end
