(* ===== verification/Machine_Streams.thy ===== *)
theory Machine_Streams
  imports Machine_Framing Machine_Security
begin

text \<open>
  The life of a request on the protocol machine: the stream it gets, the replies that end or
  suspend it, what becomes of it when it is abandoned or its link is lost, and what a driver
  can rely on about the ids and the sizes of answers. The invariants come from the two
  interpretations of \<open>stream_invariant\<close>.
\<close>

subsection \<open>A reply that arrives as one frame\<close>

text \<open>A framer between frames, with nothing buffered.\<close>

definition at_rest :: "framer \<Rightarrow> bool" where
  "at_rest f \<longleftrightarrow> fm_buffer f = [] \<and> fm_dlen f < 0 \<and> fm_need_trailer f = 0"

lemma length_server_frame [simp]: "length (server_frame sid status body) = 8 + length body"
  by (simp add: server_frame_def)

lemma drop_server_frame: "drop 8 (server_frame sid status body) = body"
  by (simp add: server_frame_def)

lemma header_fields_one:
  assumes "sid < 65536" "status < 65536" "int (length body) \<le> MAX_RESPONSE_BODY"
  shows "header_fields (server_frame sid status body) 0 = Inr (int sid, int status, int (length body))"
  using header_fields_frame [of sid status body "[]"] assms by simp

lemma receive_frame:
  assumes "at_rest (the_framer link m)"
    and "sid < 65536" "status < 65536" "int (length body) \<le> MAX_RESPONSE_BODY"
    and "dispatch env (int sid) (int status) body (put_framer link (the_framer link m) m) = (m', t, r)"
  shows "receive_data env (server_frame sid status body) link m
     = (put_framer link (set_trailer t (the_framer link m)) m', r)"
proof -
  have ne: "server_frame sid status body \<noteq> []" using length_server_frame [of sid status body] by force
  have "whole_frame env (server_frame sid status body) (the_framer link m, put_framer link (the_framer link m) m)
      = ((set_trailer t (the_framer link m), m'), rbind r (\<lambda>_. Inr True))"
    using assms(1,5) header_fields_one [OF assms(2-4)]
    by (simp add: whole_frame_def at_rest_def run_dispatch_def drop_server_frame)
  then show ?thesis
    using ne by (cases r) (simp_all add: receive_data_def Let_def feed_def)
qed

lemma pending_put_framer [simp]:
  "m_pending (put_framer link f m) = m_pending m" "m_state (put_framer link f m) = m_state m"
  "m_events (put_framer link f m) = m_events m" "m_free (put_framer link f m) = m_free m"
  "m_retired (put_framer link f m) = m_retired m" "m_out (put_framer link f m) = m_out m"
  "m_leased (put_framer link f m) = m_leased m" "m_config (put_framer link f m) = m_config m"
  "m_signer (put_framer link f m) = m_signer m"
  by (simp_all add: put_framer_def)

lemma set_trailer_None [simp]: "set_trailer None f = f"
  by (simp add: set_trailer_def)

lemma the_framer_put_framer [simp]: "the_framer link (put_framer link f m) = f"
  by (simp add: the_framer_def put_framer_def map_of_dict_set)

text \<open>A reply to a pending stream of a session that is up goes to the handler of its status.\<close>

lemma dispatch_pending:
  assumes "m_state m \<notin> BRINGUP" "map_of (m_pending m) sid = Some p" "status \<noteq> kXR_attn"
  shows "dispatch env sid status body m = handle sid status body p m"
  using assms by (simp add: dispatch_def route_def)

lemma within_cap_ok: "fits p n \<Longrightarrow> within_cap sid p n m = (m, Inr True)"
  by (auto simp: within_cap_def fits_def)

lemma response_ok_fits:
  "fits p (length body) \<Longrightarrow>
   response_ok sid body p m
     = ((release sid m)\<lparr>m_events := m_events (release sid m)
          @ [Completed sid (pd_request p) (pd_buffer p @ body) (pd_status p)]\<rparr>, Inr ())"
  by (cases "pd_cap p = 0") (simp_all add: response_ok_def within_cap_ok finish_def emit_def)

lemma response_chunk_fits:
  "fits p (length body) \<Longrightarrow>
   response_chunk sid body p m
     = (m\<lparr>m_pending := dict_set sid (p\<lparr>pd_buffer := pd_buffer p @ body\<rparr>) (m_pending m),
         m_events := m_events m @ [Chunk sid (pd_request p) body]\<rparr>, Inr ())"
  by (simp add: response_chunk_def within_cap_ok append_buffer_def emit_def)

lemma release_fields [simp]:
  "m_events (release sid m) = m_events m" "m_framers (release sid m) = m_framers m"
  "m_state (release sid m) = m_state m" "m_pending (release sid m) = dict_pop sid (m_pending m)"
  "m_retired (release sid m) = m_retired m" "m_leased (release sid m) = m_leased m"
  "m_signer (release sid m) = m_signer m" "m_out (release sid m) = m_out m"
  by (simp_all add: release_def Let_def)

lemma release_frees: "sid \<in> dict_keys (m_pending m) \<Longrightarrow> FIRST_SID \<le> sid \<Longrightarrow> m_free (release sid m) = m_free m @ [sid]"
  by (simp add: release_def Let_def)

subsection \<open>A partial answer in several frames\<close>

text \<open>What a reply leaves of the session besides its stream: the link between frames, the state,
  the signer and the output queue.\<close>

definition undisturbed :: "int \<Rightarrow> machine \<Rightarrow> machine \<Rightarrow> bool" where
  "undisturbed link m m' \<longleftrightarrow> at_rest (the_framer link m') \<and> m_state m' = m_state m \<and>
     m_signer m' = m_signer m \<and> m_out m' = m_out m"

lemma undisturbed_trans: "undisturbed link m m' \<Longrightarrow> undisturbed link m' m'' \<Longrightarrow> undisturbed link m m''"
  by (simp add: undisturbed_def)

lemma dict_pop_set: "dict_pop k (dict_set k v d) = dict_pop k d"
  by (induction k v d rule: dict_set.induct) (auto simp: dict_pop_def)

lemma receive_chunk:
  assumes "at_rest (the_framer link m)" "m_state m = READY" "map_of (m_pending m) (int sid) = Some p"
    and "sid < 65536" "int (length body) \<le> MAX_RESPONSE_BODY" "fits p (length body)"
  shows "\<exists>m'. receive_data env (server_frame sid 4000 body) link m = (m', Inr ()) \<and>
     undisturbed link m m' \<and>
     m_pending m' = dict_set (int sid) (p\<lparr>pd_buffer := pd_buffer p @ body\<rparr>) (m_pending m) \<and>
     m_events m' = m_events m @ [Chunk (int sid) (pd_request p) body] \<and> m_free m' = m_free m"
proof -
  have "dispatch env (int sid) (int 4000) body (put_framer link (the_framer link m) m)
      = no_trailer (response_chunk (int sid) body p (put_framer link (the_framer link m) m))"
    using assms(2,3) by (simp add: dispatch_pending BRINGUP_def handle_def)
  then show ?thesis
    using assms by (simp add: receive_frame response_chunk_fits no_trailer_def undisturbed_def)
qed

lemma receive_final:
  assumes "at_rest (the_framer link m)" "m_state m = READY" "map_of (m_pending m) (int sid) = Some p"
    and "4 \<le> sid" "sid < 65536" "int (length body) \<le> MAX_RESPONSE_BODY" "fits p (length body)"
  shows "\<exists>m'. receive_data env (server_frame sid 0 body) link m = (m', Inr ()) \<and> undisturbed link m m' \<and>
     m_pending m' = dict_pop (int sid) (m_pending m) \<and> m_free m' = m_free m @ [int sid] \<and>
     m_events m' = m_events m @ [Completed (int sid) (pd_request p) (pd_buffer p @ body) (pd_status p)]"
proof -
  have "dispatch env (int sid) (int 0) body (put_framer link (the_framer link m) m)
      = no_trailer (response_ok (int sid) body p (put_framer link (the_framer link m) m))"
    using assms(2,3) by (simp add: dispatch_pending BRINGUP_def handle_def)
  then show ?thesis
    using assms map_of_Some_keys [OF assms(3)]
    by (simp add: receive_frame response_ok_fits no_trailer_def release_frees FIRST_SID_def undisturbed_def)
qed

lemma receive_partial:
  assumes "at_rest (the_framer link m)" "m_state m = READY" "map_of (m_pending m) (int sid) = Some p"
    and "4 \<le> sid" "sid < 65536" "\<forall>b \<in> set (bodies @ [final]). int (length b) \<le> MAX_RESPONSE_BODY"
    and "fits p (length (concat (bodies @ [final])))"
  shows "\<exists>m'. receive_all env (map (server_frame sid 4000) bodies @ [server_frame sid 0 final]) link m
       = (m', Inr ()) \<and> undisturbed link m m' \<and>
     m_pending m' = dict_pop (int sid) (m_pending m) \<and> m_free m' = m_free m @ [int sid] \<and>
     m_events m' = m_events m @ map (Chunk (int sid) (pd_request p)) bodies
       @ [Completed (int sid) (pd_request p) (pd_buffer p @ concat bodies @ final) (pd_status p)]"
  using assms
proof (induction bodies arbitrary: m p)
  case Nil
  then obtain m' where "receive_data env (server_frame sid 0 final) link m = (m', Inr ())" "undisturbed link m m'"
    "m_pending m' = dict_pop (int sid) (m_pending m)" "m_free m' = m_free m @ [int sid]"
    "m_events m' = m_events m @ [Completed (int sid) (pd_request p) (pd_buffer p @ final) (pd_status p)]"
    using receive_final [of link m sid p final env] by auto
  then show ?case by simp
next
  case (Cons b bodies)
  let ?p = "p\<lparr>pd_buffer := pd_buffer p @ b\<rparr>"
  have fit: "fits p (length b)" "fits ?p (length (concat (bodies @ [final])))"
    using Cons.prems(7) by (auto simp: fits_def)
  obtain m1 where m1: "receive_data env (server_frame sid 4000 b) link m = (m1, Inr ())"
    "undisturbed link m m1"
    "m_pending m1 = dict_set (int sid) ?p (m_pending m)"
    "m_events m1 = m_events m @ [Chunk (int sid) (pd_request p) b]" "m_free m1 = m_free m"
    using receive_chunk [OF Cons.prems(1-3,5) _ fit(1), of env] Cons.prems(6) by auto
  have "map_of (m_pending m1) (int sid) = Some ?p" by (simp add: m1(3) map_of_dict_set)
  moreover have "at_rest (the_framer link m1)" "m_state m1 = READY"
    using m1(2) Cons.prems(2) by (simp_all add: undisturbed_def)
  ultimately obtain m2 where "receive_all env (map (server_frame sid 4000) bodies @ [server_frame sid 0 final]) link m1
      = (m2, Inr ())" "undisturbed link m1 m2"
    "m_pending m2 = dict_pop (int sid) (m_pending m1)" "m_free m2 = m_free m1 @ [int sid]"
    "m_events m2 = m_events m1 @ map (Chunk (int sid) (pd_request p)) bodies
       @ [Completed (int sid) (pd_request p) (pd_buffer p @ b @ concat bodies @ final) (pd_status p)]"
    using Cons.IH [of m1 ?p, OF _ _ _ Cons.prems(4,5) _ fit(2)] Cons.prems(6) by auto
  then show ?case using m1 undisturbed_trans [OF m1(2)] by (simp add: dict_pop_set)
qed

subsection \<open>Submitting\<close>

lemma submit_cases:
  assumes "submit env req path arrive m = (m', Inr sid)"
  obtains m1 m2 parts where "m_state m = READY" "acquire_sid m = (m1, Inr sid)"
    "frame env req sid m1 = (m2, Inr parts)" "send env req sid path arrive m1 = (m', Inr ())"
proof -
  have st: "m_state m = READY" using assms by (auto simp: submit_def split: if_splits)
  obtain m1 r1 where a: "acquire_sid m = (m1, r1)" by (cases "acquire_sid m")
  with assms st obtain s where r1: "r1 = Inr s" by (cases r1) (auto simp: submit_def)
  obtain m2 r2 where s: "send env req s path arrive m1 = (m2, r2)" by (cases "send env req s path arrive m1")
  with assms st a r1 have r2: "r2 = Inr ()" "s = sid" "m2 = m'"
    by (cases r2; simp add: submit_def)+
  obtain m3 r3 where f: "frame env req sid m1 = (m3, r3)" by (cases "frame env req sid m1")
  with s r2 obtain parts where "r3 = Inr parts" by (cases r3) (auto simp: send_def)
  with st a r1 s r2 f that show ?thesis by blast
qed

lemma send_records:
  assumes "frame env req sid m = (m2, Inr parts)" "send env req sid path arrive m = (m', Inr ())"
  shows "m_pending m' = dict_set sid \<lparr>pd_request = req, pd_parts = parts, pd_buffer = [], pd_status = None,
       pd_path = path, pd_pathid = req_pathid req, pd_path_bytes = path_data req, pd_cap = reply_cap req\<rparr> (m_pending m2)"
    and "m_out m' = m_out m2 @ (if arrive \<and> req_pathid req \<noteq> 0 then [] else parts)"
    and "m_framers m' = m_framers m2" "m_state m' = m_state m2" "m_events m' = m_events m2"
  using assms by (auto simp: send_def Let_def send_path_def send_out_def split: if_splits)

lemma frame_fields:
  assumes "frame env req sid m = (m', r)"
  shows "m_pending m' = m_pending m" "m_out m' = m_out m" "m_framers m' = m_framers m" "m_state m' = m_state m"
    "m_events m' = m_events m"
  using assms by (auto simp: frame_def Let_def split: sum.splits option.splits prod.splits)

lemma acquire_fields:
  assumes "acquire_sid m = (m', r)"
  shows "m_pending m' = m_pending m" "m_out m' = m_out m" "m_framers m' = m_framers m" "m_state m' = m_state m"
    "m_events m' = m_events m"
  using assms by (auto simp: acquire_sid_def Let_def split: list.splits if_splits)

lemma submit_records:
  assumes "submit env req path arrive m = (m', Inr sid)"
  obtains parts where "m_pending m' = dict_set sid \<lparr>pd_request = req, pd_parts = parts, pd_buffer = [],
       pd_status = None, pd_path = path, pd_pathid = req_pathid req, pd_path_bytes = path_data req,
       pd_cap = reply_cap req\<rparr> (m_pending m)"
    "m_out m' = m_out m @ (if arrive \<and> req_pathid req \<noteq> 0 then [] else parts)"
    "m_framers m' = m_framers m" "m_state m' = READY" "m_events m' = m_events m"
proof -
  obtain m1 m2 parts where c: "m_state m = READY" "acquire_sid m = (m1, Inr sid)"
    "frame env req sid m1 = (m2, Inr parts)" "send env req sid path arrive m1 = (m', Inr ())"
    using assms by (rule submit_cases)
  show ?thesis
    using that [of parts] send_records [OF c(3,4)] frame_fields [OF c(3)] acquire_fields [OF c(2)] c(1) by simp
qed

lemma sid_inv_new:
  "sid_inv (SessionMachine host port cfg user tls)" "sid_inv (data_path primary session_id cfg tls)"
  by (simp_all add: sid_inv_def sids_in_use_def data_path_def SessionMachine_def FIRST_SID_def)

lemma cap_inv_new:
  "cap_inv (SessionMachine host port cfg user tls)" "cap_inv (data_path primary session_id cfg tls)"
  by (simp_all add: cap_inv_def data_path_def SessionMachine_def)

lemma reachable_sid_inv: "reachable env m \<Longrightarrow> sid_inv m"
  by (rule pool.reachable_holds) (simp_all add: sid_inv_new)

lemma reachable_cap_inv: "reachable env m \<Longrightarrow> cap_inv m"
  by (rule replies.reachable_holds) (simp_all add: cap_inv_new)

lemma submit_limbo:
  assumes "sid_inv m" "acquire_sid m = (m', Inr sid)"
  shows "4 \<le> sid" "sid \<le> 65535" "sid \<notin> sids_in_use m"
  using sid_acquire [OF assms] assms(2)
  by (auto simp: sid_limbo_def sids_in_use_def acquire_sid_def Let_def split: list.splits if_splits)

subsection \<open>Lost links\<close>

lemma fold_release:
  "m_pending (fold release sids m) = filter (\<lambda>e. fst e \<notin> set sids) (m_pending m)"
  "m_events (fold release sids m) = m_events m" "m_out (fold release sids m) = m_out m"
  "m_state (fold release sids m) = m_state m" "m_retired (fold release sids m) = m_retired m"
proof -
  show "m_pending (fold release sids m) = filter (\<lambda>e. fst e \<notin> set sids) (m_pending m)"
    by (induction sids arbitrary: m) (auto simp: dict_pop_def conj_commute intro: filter_cong)
  show "m_events (fold release sids m) = m_events m" "m_out (fold release sids m) = m_out m"
    "m_state (fold release sids m) = m_state m" "m_retired (fold release sids m) = m_retired m"
    by (induction sids arbitrary: m) (simp_all add: release_def Let_def)
qed

lemma off_path:
  assumes "distinct (map fst d)"
  shows "filter (\<lambda>e. fst e \<notin> fst ` {x \<in> set d. P (snd x)}) d = filter (\<lambda>e. \<not> P (snd e)) d"
  using assms by (intro filter_cong) (auto simp: distinct_map inj_on_def)

lemma forget_path_pending:
  assumes "distinct (map fst (m_pending m))"
  shows "m_pending (forget_path pathid m) = filter (\<lambda>e. pd_pathid (snd e) \<noteq> pathid) (m_pending m)"
    and "m_events (forget_path pathid m) = m_events m" "m_state (forget_path pathid m) = m_state m"
  using off_path [OF assms, of "\<lambda>p. pd_pathid p = pathid"]
  by (simp_all add: forget_path_def Let_def fold_release streams_on_def case_prod_unfold)

subsection \<open>A concrete session\<close>

text \<open>A session brought up from its first byte: the handshake, the protocol reply, TLS when the
  client wants it, and a login the server asks no credential for.\<close>

definition sample_calls :: "bool \<Rightarrow> call list" where
  "sample_calls tls =
     [Start, Receive (server_frame 0 0 [0, 0, 5, 32, 0, 0, 0, 1]) 0,
      Receive (server_frame 1 0 [0, 0, 5, 32, 128, 0, 0, 1]) 0]
     @ (if tls then [TlsEstablished] else [])
     @ [Receive (server_frame 2 0 [1, 2, 3, 4, 5, 6, 7, 8, 9, 10, 11, 12, 13, 14, 15, 16]) 0, Drain, TakeOut]"

definition sample_new :: "bool \<Rightarrow> machine" where
  "sample_new tls = SessionMachine [] 1094 (sample_config\<lparr>cfg_username := []\<rparr>) [] tls"

definition sample_session :: machine where
  "sample_session = fold (exec sample_e) (sample_calls False) (sample_new False)"

definition sample_secure :: machine where
  "sample_secure = fold (exec sample_e) (sample_calls True) (sample_new True)"

lemma reachable_fold:
  "reachable env m \<Longrightarrow> (\<forall>c \<in> set cs. \<forall>m. allowed c m) \<Longrightarrow> reachable env (fold (exec env) cs m)"
  by (induction cs arbitrary: m) (auto intro: reachable.step)

lemma sample_reachable: "reachable sample_e sample_session" "reachable sample_e sample_secure"
  unfolding sample_session_def sample_secure_def sample_new_def
  by (intro reachable_fold reachable.control; auto simp: sample_calls_def)+

text \<open>The state bring-up leaves.\<close>

definition sample_state :: "bool \<Rightarrow> machine" where
  "sample_state tls = (sample_new tls)\<lparr>m_state := READY, m_tls_active := tls,
     m_protocol_info := \<lparr>pi_version = 1312, pi_flags = 2147483649, security_level = 0, security_version = 0,
        security_options = 0, security_overrides = []\<rparr>,
     m_handshake_version := 1312, m_session_id := [1, 2, 3, 4, 5, 6, 7, 8, 9, 10, 11, 12, 13, 14, 15, 16]\<rparr>"


lemma sample_session_is: "P sample_session \<longleftrightarrow> P (sample_state False)"
  by code_simp

lemma sample_secure_is: "P sample_secure \<longleftrightarrow> P (sample_state True)"
  by code_simp

lemma sample_session_code [code]: "sample_session = sample_state False"
  using sample_session_is [of "\<lambda>m. m = sample_state False"] by blast

lemma sample_secure_code [code]: "sample_secure = sample_state True"
  using sample_secure_is [of "\<lambda>m. m = sample_state True"] by blast

lemma sample_submit: "snd (submit sample_e Ping [] False sample_session) = Inr 4"
  by code_simp

lemma sample_submitted:
  "submit sample_e Ping [] False sample_session = (fst (submit sample_e Ping [] False sample_session), Inr 4)"
  using sample_submit by (metis prod.collapse)

lemma sample_at_rest: "at_rest (the_framer 0 sample_session)"
  by code_simp

text \<open>A capped read, answered in full.\<close>

definition sample_read :: request where
  "sample_read = Read [0, 0, 0, 1] 0 2 0"

definition sample_answered :: machine where
  "sample_answered = fold (exec sample_e) [Submit sample_read [] False, Receive (server_frame 4 0 [8, 9]) 0] sample_session"

lemma sample_answered_reachable: "reachable sample_e sample_answered"
  unfolding sample_answered_def by (rule reachable_fold [OF sample_reachable(1)]) auto

lemma sample_answered_events: "P (m_events sample_answered) \<longleftrightarrow> P [Completed 4 sample_read [8, 9] None]"
  by code_simp

text \<open>A request given up on.\<close>

definition sample_abandoned :: machine where
  "sample_abandoned = fold (exec sample_e) [Submit sample_read [] False, Abandon 4] sample_session"

lemma sample_abandoned_reachable: "reachable sample_e sample_abandoned"
  unfolding sample_abandoned_def by (rule reachable_fold [OF sample_reachable(1)]) auto

subsection \<open>What a parsed link still holds\<close>

lemma parse_stops:
  "parse env fm = (fm', Inr ()) \<Longrightarrow> \<exists>gm. parse_step env gm = (fm', Inr False)"
proof (induction env fm rule: parse.induct)
  case (1 env fm)
  obtain gm r where st: "parse_step env fm = (gm, r)" by (cases "parse_step env fm")
  show ?case
  proof (cases "r = Inr True")
    case True
    then have "parse env gm = (fm', Inr ())" using "1.prems" st by (simp add: parse.simps [of env fm])
    then show ?thesis using "1.IH" [of gm r True] st True by simp
  next
    case False
    then have "r = Inr False" "fm' = gm"
      using "1.prems" st by (auto simp: parse.simps [of env fm] split: sum.splits bool.splits)
    then show ?thesis using st by blast
  qed
qed

text \<open>What a link waits for: the rest of a trailer, of a header, or of a body.\<close>

definition owed :: "framer \<Rightarrow> int" where
  "owed f = (if fm_need_trailer f \<noteq> 0 then fm_need_trailer f
             else if fm_dlen f < 0 then RESPONSE_HDRLEN else fm_dlen f)"

lemma parse_step_False:
  "parse_step env gm = ((f, m), Inr False) \<Longrightarrow> int (length (fm_buffer f)) < owed f"
  by (auto simp: parse_step_def parse_body_def owed_def run_dispatch_def Let_def rbind_eq_Inr
      dest!: header_fields_bounds split: if_splits prod.splits sum.splits option.splits)

subsection \<open>Properties\<close>

text \<open>C1: stream ids never collide: whatever a driver does, the ids of requests in flight, of
  leases, of abandoned requests and of the free list are pairwise disjoint, no id occurs
  twice, and all are 16-bit ids above the range bring-up uses.\<close>

theorem stream_ids_disjoint:
  assumes "reachable env m"
  shows "distinct (m_free m) \<and> distinct (map fst (m_pending m)) \<and>
     set (m_free m) \<inter> (dict_keys (m_pending m) \<union> m_leased m \<union> m_retired m) = {} \<and>
     dict_keys (m_pending m) \<inter> m_leased m = {} \<and> dict_keys (m_pending m) \<inter> m_retired m = {} \<and>
     m_leased m \<inter> m_retired m = {} \<and>
     set (m_free m) \<union> dict_keys (m_pending m) \<union> m_leased m \<union> m_retired m \<subseteq> {4..65535}"
  using reachable_sid_inv [OF assms] by (auto simp: sid_inv_def sids_in_use_def)

theorem stream_ids_disjoint_witness:
  "set (m_free sample_session) \<inter> (dict_keys (m_pending sample_session) \<union> m_leased sample_session \<union> m_retired sample_session) = {}"
  using stream_ids_disjoint [OF sample_reachable(1)] by blast



text \<open>C12: no answer is larger than was asked for: in every reachable state, the data of each
  undelivered \<open>Completed\<close> and \<open>Chunk\<close> is within the reply cap of the request it answers, when
  that request has one.\<close>

theorem answers_within_cap:
  assumes "reachable env m" and "0 < reply_cap req"
    and "Completed sid req data st \<in> set (m_events m) \<or> Chunk sid req data \<in> set (m_events m)"
  shows "int (length data) \<le> reply_cap req"
  using reachable_cap_inv [OF assms(1)] assms(2,3) by (auto simp: cap_inv_def)

theorem answers_within_cap_witness:
  "int (length ([8, 9] :: bytes)) \<le> reply_cap sample_read"
proof -
  have "0 < reply_cap sample_read" by code_simp
  moreover have "Completed 4 sample_read [8, 9] None \<in> set (m_events sample_answered)"
    by (rule sample_answered_events [THEN iffD2]) simp
  ultimately show ?thesis using answers_within_cap [OF sample_answered_reachable] by blast
qed

text \<open>C7: from request to answer: after a request was submitted, the reply a server sends on
  its stream in any number of \<open>kXR_oksofar\<close> frames and a final \<open>kXR_ok\<close> is reported as the
  chunks in order and then once as their concatenation, and the stream id is free again.
  The reply has to fit the request's cap, and the link to be between frames.\<close>

theorem submitted_request_is_answered:
  assumes "reachable env m" and "submit env req path arrive m = (m', Inr sid)"
    and "at_rest (the_framer link m)"
    and "\<forall>b \<in> set (bodies @ [final]). int (length b) \<le> MAX_RESPONSE_BODY"
    and "reply_cap req = 0 \<or> int (length (concat (bodies @ [final]))) \<le> reply_cap req"
  shows "\<exists>m''. receive_all env (map (server_frame (nat sid) 4000) bodies @ [server_frame (nat sid) 0 final]) link m'
       = (m'', Inr ()) \<and>
     m_events m'' = m_events m' @ map (Chunk sid req) bodies @ [Completed sid req (concat bodies @ final) None] \<and>
     sid \<notin> dict_keys (m_pending m'') \<and> sid \<in> set (m_free m'')"
proof -
  obtain m1 where a: "acquire_sid m = (m1, Inr sid)" using assms(2) by (rule submit_cases)
  have sid: "4 \<le> sid" "sid \<le> 65535" using submit_limbo [OF reachable_sid_inv [OF assms(1)] a] by simp_all
  obtain parts where r: "m_pending m' = dict_set sid \<lparr>pd_request = req, pd_parts = parts, pd_buffer = [],
       pd_status = None, pd_path = path, pd_pathid = req_pathid req, pd_path_bytes = path_data req,
       pd_cap = reply_cap req\<rparr> (m_pending m)"
    "m_framers m' = m_framers m" "m_state m' = READY"
    using assms(2) by (rule submit_records)
  have rest: "at_rest (the_framer link m')" using assms(3) r(2) by (simp add: the_framer_def)
  have p: "map_of (m_pending m') (int (nat sid)) = Some \<lparr>pd_request = req, pd_parts = parts, pd_buffer = [],
       pd_status = None, pd_path = path, pd_pathid = req_pathid req, pd_path_bytes = path_data req,
       pd_cap = reply_cap req\<rparr>"
    using sid r(1) by (simp add: map_of_dict_set)
  from receive_partial [OF rest r(3) p, of bodies final env] show ?thesis
    using sid assms(4,5) by (force simp: fits_def)
qed

theorem submitted_request_is_answered_witness:
  "\<exists>m''. receive_all sample_e [server_frame 4 4000 [1, 2], server_frame 4 0 [3]] 0
         (fst (submit sample_e Ping [] False sample_session)) = (m'', Inr ()) \<and>
     m_events m'' = m_events (fst (submit sample_e Ping [] False sample_session))
       @ [Chunk 4 Ping [1, 2], Completed 4 Ping [1, 2, 3] None] \<and>
     4 \<notin> dict_keys (m_pending m'') \<and> 4 \<in> set (m_free m'')"
proof -
  have "\<forall>b \<in> set ([[1, 2]] @ [[3]] :: bytes list). int (length b) \<le> MAX_RESPONSE_BODY" by simp
  moreover have "reply_cap Ping = 0 \<or> int (length (concat ([[1, 2]] @ [[3]] :: bytes list))) \<le> reply_cap Ping"
    by code_simp
  ultimately show ?thesis
    using submitted_request_is_answered [OF sample_reachable(1) sample_submitted sample_at_rest, of "[[1, 2]]" "[3]"]
    by simp
qed



text \<open>C26: losing a bound data path costs only its own streams: they fail, in order, and their
  ids are freed; the others stay in flight, and the session stays up.\<close>

theorem path_eof_is_local:
  assumes "reachable env m" and "pathid \<noteq> 0"
  shows "\<exists>m' reason. receive_data env [] pathid m = (m', Inr ()) \<and> m_state m' = m_state m \<and>
     m_pending m' = filter (\<lambda>e. pd_pathid (snd e) \<noteq> pathid) (m_pending m) \<and>
     m_events m' = m_events m
       @ map (\<lambda>e. Failed (Some (fst e)) (Some (pd_request (snd e))) (XrdConnectionError reason))
           (filter (\<lambda>e. pd_pathid (snd e) = pathid) (m_pending m))
       @ [PathLost pathid reason]"
proof -
  have d: "distinct (map fst (m_pending m))" using reachable_sid_inv [OF assms(1)] by (simp add: sid_inv_def)
  have m: "receive_data env [] pathid m = (on_path_eof pathid (put_framer pathid (the_framer pathid m) m), Inr ())"
    using assms(2) by (simp add: receive_data_def Let_def)
  show ?thesis
    by (rule exI, rule exI [of _ "str ''data path '' @ show_int pathid @ str '' closed by peer''"], rule conjI, rule m)
       (simp add: on_path_eof_def Let_def forget_path_pending d case_prod_unfold)
qed

theorem path_eof_is_local_witness:
  "\<exists>m' reason. receive_data sample_e [] 2 sample_session = (m', Inr ()) \<and> m_state m' = m_state sample_session \<and>
     last (m_events m') = PathLost 2 reason"
  using path_eof_is_local [OF sample_reachable(1), of 2] by fastforce

text \<open>C20: a link is always parsed as far as it can be: when the call that delivered bytes
  returns, what is left in the buffer is strictly less than the trailer, header or body the
  link waits for, so no complete reply is left undelivered. The exception is a link told to
  expect a trailer of negative length, which waits with an empty buffer.\<close>

theorem no_reply_left_behind:
  assumes "data \<noteq> []" and "receive_data env data link m = (m', Inr ())"
  shows "int (length (fm_buffer (the_framer link m'))) < owed (the_framer link m') \<or>
     fm_need_trailer (the_framer link m') < 0 \<and> fm_buffer (the_framer link m') = []"
proof -
  let ?fm = "(the_framer link m, put_framer link (the_framer link m) m)"
  obtain f n where fd: "feed env data ?fm = ((f, n), Inr ())" "m' = put_framer link f n"
    using assms by (auto simp: receive_data_def Let_def split: prod.splits)
  obtain gm r where w: "whole_frame env data ?fm = (gm, r)" by (cases "whole_frame env data ?fm")
  show ?thesis
  proof (cases "r = Inr True")
    case True
    then have "gm = (f, n)" using fd w by (simp add: feed_def)
    then have "fm_buffer f = [] \<and> fm_dlen f < 0"
      using w True
      by (auto simp: whole_frame_def run_dispatch_def rbind_eq_Inr set_trailer_def
          split: if_splits sum.splits prod.splits option.splits)
    then show ?thesis using fd(2) by (auto simp: owed_def)
  next
    case False
    then obtain g k where "gm = (g, k)" "r = Inr False" "parse env (g\<lparr>fm_buffer := fm_buffer g @ data\<rparr>, k) = ((f, n), Inr ())"
      using fd(1) w by (cases gm) (auto simp: feed_def split: sum.splits bool.splits)
    then have "int (length (fm_buffer f)) < owed f" using parse_stops parse_step_False by blast
    then show ?thesis using fd(2) by simp
  qed
qed

theorem no_reply_left_behind_witness:
  "length (fm_buffer (the_framer 0 (fst (receive_data sample_e (sample_ok @ [0, 4, 0]) 0 sample_ready)))) < 8"
proof -
  let ?m = "fst (receive_data sample_e (sample_ok @ [0, 4, 0]) 0 sample_ready)"
  have "snd (receive_data sample_e (sample_ok @ [0, 4, 0]) 0 sample_ready) = Inr ()" by code_simp
  then have "receive_data sample_e (sample_ok @ [0, 4, 0]) 0 sample_ready = (?m, Inr ())" by (metis prod.collapse)
  moreover have "owed (the_framer 0 ?m) = 8" by code_simp
  moreover have "sample_ok @ [0, 4, 0] \<noteq> []" by simp
  ultimately show ?thesis using no_reply_left_behind [of "sample_ok @ [0, 4, 0]" sample_e 0 sample_ready ?m] by auto
qed






subsection \<open>TLS on the concrete sessions\<close>

theorem tls_before_login_witness: "m_tls_active sample_secure"
proof -
  have "m_state sample_secure \<in> {LOGIN, AUTH, BIND, READY}" by code_simp
  moreover have "m_want_tls sample_secure" by code_simp
  ultimately show ?thesis using tls_before_login [OF sample_reachable(2)] by blast
qed


end
