(* ===== verification/Pages.thy ===== *)
theory Pages
  imports Requests
begin

text \<open>
  \<open>crypto/crc32c.py\<close>: the framing of paged I/O, a big-endian CRC-32C in front of every page
  of the file. The checksum itself comes from another package and is the parameter \<open>crc\<close>, a
  function from bytes to 32-bit words; nothing is assumed of it.

  The loops walk the buffer by position; here they walk what is left of it.
\<close>

subsection \<open>Pages\<close>

definition PAGE_SIZE :: int where "PAGE_SIZE = 4096"

definition page_span :: "int \<Rightarrow> int \<Rightarrow> int" where
  "page_span offset left = min left (PAGE_SIZE - offset mod PAGE_SIZE)"

definition first_page :: "int \<Rightarrow> nat" where
  "first_page offset = nat (if offset mod PAGE_SIZE \<noteq> 0 then PAGE_SIZE - offset mod PAGE_SIZE else PAGE_SIZE)"

text \<open>One turn of the loop of \<open>pack_pages\<close> per page; a page of no bytes cannot occur.\<close>

function pack_loop :: "(bytes \<Rightarrow> 32 word) \<Rightarrow> nat \<Rightarrow> bytes \<Rightarrow> bytes" where
  "pack_loop crc head data =
     (if data = [] \<or> head = 0 then []
      else be_enc 4 (unat (crc (take head data))) @ take head data
           @ pack_loop crc (nat PAGE_SIZE) (drop head data))"
  by auto
termination by (relation "measure (\<lambda>(_, _, data). length data)") auto

declare pack_loop.simps [simp del]

definition pack_pages :: "(bytes \<Rightarrow> 32 word) \<Rightarrow> bytes \<Rightarrow> int \<Rightarrow> bytes" where
  "pack_pages crc data offset = pack_loop crc (first_page offset) data"

function unpack_loop :: "(bytes \<Rightarrow> 32 word) \<Rightarrow> nat \<Rightarrow> int \<Rightarrow> bytes \<Rightarrow> bytes \<times> int list" where
  "unpack_loop crc head at view =
     (if view = [] then ([], [])
      else
        let want = be_dec (take 4 view);
            page = take head (drop 4 view)
        in case unpack_loop crc (nat PAGE_SIZE) (at + int (length page)) (drop (4 + length page) view) of
             (out, corrupt) \<Rightarrow>
               (page @ out, if unat (crc page) \<noteq> want then at # corrupt else corrupt))"
  by auto
termination by (relation "measure (\<lambda>(_, _, _, view). length view)") auto

declare unpack_loop.simps [simp del]

definition unpack_pages :: "(bytes \<Rightarrow> 32 word) \<Rightarrow> bytes \<Rightarrow> int \<Rightarrow> bytes \<times> int list" where
  "unpack_pages crc data offset = unpack_loop crc (first_page offset) offset data"

subsection \<open>Facts\<close>

lemma first_page_bounds: "0 < first_page offset" "first_page offset \<le> 4096"
  using pos_mod_bound [of PAGE_SIZE offset] pos_mod_sign [of PAGE_SIZE offset]
  by (auto simp: first_page_def PAGE_SIZE_def)

lemma first_page_int: "int (first_page offset) = PAGE_SIZE - offset mod PAGE_SIZE"
  using pos_mod_bound [of PAGE_SIZE offset] by (auto simp: first_page_def PAGE_SIZE_def)

lemma pack_loop_Nil [simp]: "pack_loop crc head [] = []"
  by (subst pack_loop.simps) simp

lemma unpack_loop_Nil [simp]: "unpack_loop crc head at [] = ([], [])"
  by (subst unpack_loop.simps) simp

lemma be_dec_crc: "be_dec (be_enc 4 (unat (w :: 32 word))) = unat w"
proof -
  have "unat w < 2 ^ 32" by (rule order_less_le_trans [OF unsigned_less]) simp
  then show ?thesis by (simp add: be_dec_enc)
qed

text \<open>A whole page followed by packed pages comes apart where it was joined. The last page may be
  short, because nothing follows it.\<close>

lemma unpack_page:
  assumes "page \<noteq> []" "length page \<le> head" "length page = head \<or> rest = []"
  shows "unpack_loop crc head at (be_enc 4 (unat (w :: 32 word)) @ page @ rest)
     = (case unpack_loop crc (nat PAGE_SIZE) (at + int (length page)) rest of
          (out, corrupt) \<Rightarrow> (page @ out, if crc page \<noteq> w then at # corrupt else corrupt))"
proof -
  have "take head (page @ rest) = page" using assms(2,3) by auto
  moreover have "be_enc 4 (unat w) @ page @ rest \<noteq> []" using assms(1) by simp
  ultimately show ?thesis
    by (subst unpack_loop.simps) (auto simp: be_dec_crc Let_def word_unat_eq_iff split: prod.splits)
qed

lemma unpack_pack_loop:
  "0 < head \<Longrightarrow> unpack_loop crc head at (pack_loop crc head data) = (data, [])"
proof (induction crc head data arbitrary: at rule: pack_loop.induct)
  case (1 crc head data)
  show ?case
  proof (cases "data = []")
    case False
    have IH: "unpack_loop crc (nat PAGE_SIZE) at' (pack_loop crc (nat PAGE_SIZE) (drop head data)) = (drop head data, [])" for at'
      using "1.IH" "1.prems" False by (simp add: PAGE_SIZE_def)
    have "length (take head data) = head \<or> pack_loop crc (nat PAGE_SIZE) (drop head data) = []" by (cases "length data \<le> head") simp_all
    then show ?thesis
      using False "1.prems" IH
      by (subst pack_loop.simps) (simp add: unpack_page)
  qed simp
qed

lemma length_pack_loop:
  assumes "0 < head" "head \<le> 4096" "data \<noteq> []"
  shows "int (length (pack_loop crc head data))
     = int (length data) + 4 * (1 + (int (length data) - int head + 4095) div 4096)"
  using assms
proof (induction crc head data rule: pack_loop.induct)
  case (1 crc head data)
  show ?case
  proof (cases "length data \<le> head")
    case True
    then have "(int (length data) - int head + 4095) div 4096 = 0"
      using "1.prems" by (intro div_pos_pos_trivial) (cases data, auto)
    then show ?thesis using True "1.prems" by (subst pack_loop.simps) simp
  next
    case False
    then have ne: "drop head data \<noteq> []" by simp
    have "int (length (pack_loop crc (nat PAGE_SIZE) (drop head data)))
        = int (length (drop head data)) + 4 * (1 + (int (length (drop head data)) - 4096 + 4095) div 4096)"
      using "1.IH" "1.prems" ne by (simp add: PAGE_SIZE_def)
    moreover have "(int (length data) - int head - 4096 + 4095) div 4096 + 1
        = (int (length data) - int head + 4095) div 4096"
      using div_add_self2 [of 4096 "int (length data) - int head - 4096 + 4095"] by (simp add: algebra_simps)
    ultimately show ?thesis
      using False "1.prems" by (subst pack_loop.simps) (simp add: of_nat_diff algebra_simps)
  qed
qed

lemma ceil_pages: "- ((- n) div 4096) = 1 + (n - 1) div (4096 :: int)"
  by linarith

text \<open>The pages of a buffer, where each starts in the file, and the wire form of pages whose data
  was damaged after their checksums were taken.\<close>

function page_cut :: "nat \<Rightarrow> bytes \<Rightarrow> bytes list" where
  "page_cut head data =
     (if data = [] \<or> head = 0 then [] else take head data # page_cut (nat PAGE_SIZE) (drop head data))"
  by auto
termination by (relation "measure (\<lambda>(_, data). length data)") auto

declare page_cut.simps [simp del]

fun page_starts :: "int \<Rightarrow> bytes list \<Rightarrow> int list" where
  "page_starts at [] = []"
| "page_starts at (p # ps) = at # page_starts (at + int (length p)) ps"

fun damaged_wire :: "(bytes \<Rightarrow> 32 word) \<Rightarrow> bytes list \<Rightarrow> bytes list \<Rightarrow> bytes" where
  "damaged_wire crc (p # ps) (q # qs) = be_enc 4 (unat (crc p)) @ q @ damaged_wire crc ps qs"
| "damaged_wire crc _ _ = []"

fun damaged_at :: "(bytes \<Rightarrow> 32 word) \<Rightarrow> int \<Rightarrow> bytes list \<Rightarrow> bytes list \<Rightarrow> int list" where
  "damaged_at crc at (p # ps) (q # qs) =
     (if crc q \<noteq> crc p then [at] else []) @ damaged_at crc (at + int (length q)) ps qs"
| "damaged_at crc at _ _ = []"

lemma page_cut_Nil [simp]: "page_cut head [] = []"
  by (subst page_cut.simps) simp

lemma pack_loop_cut: "pack_loop crc head data = damaged_wire crc (page_cut head data) (page_cut head data)"
proof (induction crc head data rule: pack_loop.induct)
  case (1 crc head data)
  then show ?case
    by (cases "data = [] \<or> head = 0") (simp_all add: pack_loop.simps [of crc head] page_cut.simps [of head])
qed

lemma damaged_wire_empty: "list_all2 (\<lambda>p q. length p = length q) [] qs \<Longrightarrow> damaged_wire crc [] qs = []"
  by simp

lemma unpack_damaged:
  "0 < head \<Longrightarrow> list_all2 (\<lambda>p q. length p = length q) (page_cut head data) qs \<Longrightarrow>
   unpack_loop crc head at (damaged_wire crc (page_cut head data) qs)
     = (concat qs, damaged_at crc at (page_cut head data) qs)"
proof (induction head data arbitrary: at qs rule: page_cut.induct)
  case (1 head data)
  show ?case
  proof (cases "data = []")
    case True
    then show ?thesis using "1.prems" by simp
  next
    case False
    let ?rest = "page_cut (nat PAGE_SIZE) (drop head data)"
    have cut: "page_cut head data = take head data # ?rest"
      using False "1.prems"(1) by (subst page_cut.simps) simp
    obtain q qs' where qs: "qs = q # qs'" "length q = length (take head data)"
      "list_all2 (\<lambda>p q. length p = length q) ?rest qs'"
      using "1.prems"(2) cut by (auto simp: list_all2_Cons1)
    have IH: "unpack_loop crc (nat PAGE_SIZE) at' (damaged_wire crc ?rest qs') = (concat qs', damaged_at crc at' ?rest qs')" for at'
      using "1.IH" False "1.prems"(1) qs(3) by (simp add: PAGE_SIZE_def)
    have short: "damaged_wire crc ?rest qs' = []" if "length data \<le> head" using that by simp
    have "length q = min (length data) head" using qs(2) by simp
    moreover have "0 < min (length data) head" using False "1.prems"(1) by simp
    ultimately have "0 < length q" "length q \<le> head" by (simp_all only: min.cobounded2)
    then have q: "q \<noteq> []" "length q \<le> head" by auto
    have "length q = head \<or> damaged_wire crc ?rest qs' = []"
      using qs(2) short by (cases "length data \<le> head") auto
    then show ?thesis
      unfolding cut qs(1) damaged_wire.simps damaged_at.simps
      by (simp only: unpack_page [OF q] IH) simp
  qed
qed

subsection \<open>Properties\<close>

text \<open>C38: paged framing round-trips: for any data at any file offset, stripping the pages
  \<open>pack_pages\<close> made gives back the data and reports no page as corrupt, whatever the
  checksum function.\<close>

theorem unpack_pack_pages: "unpack_pages crc (pack_pages crc data offset) offset = (data, [])"
  by (simp add: unpack_pages_def pack_pages_def unpack_pack_loop first_page_bounds)

text \<open>C39: damage is reported page by page: when pages arrive with their lengths intact but their
  data changed, \<open>unpack_pages\<close> returns the data as it arrived and exactly the file offsets of
  the pages whose checksum no longer matches, in order.\<close>

theorem unpack_reports_damage:
  assumes "list_all2 (\<lambda>p q. length p = length q) (page_cut (first_page offset) data) qs"
  shows "unpack_pages crc (damaged_wire crc (page_cut (first_page offset) data) qs) offset
     = (concat qs, damaged_at crc offset (page_cut (first_page offset) data) qs)"
  using assms by (simp add: unpack_pages_def unpack_damaged first_page_bounds)

theorem unpack_reports_damage_witness:
  "unpack_pages (\<lambda>p. word_of_nat (length (filter ((=) 0) p)))
     (damaged_wire (\<lambda>p. word_of_nat (length (filter ((=) 0) p))) (page_cut (first_page 4094) [1, 2, 3]) [[1, 2], [0]]) 4094
   = ([1, 2, 0], [4096])"
proof -
  have cut: "page_cut (first_page 4094) [1, 2, 3] = [[1, 2], [3 :: byte]]"
    by (simp add: page_cut.simps [of "Suc _"] page_cut.simps [of 4096] first_page_def PAGE_SIZE_def numeral_2_eq_2)
  show ?thesis
    using unpack_reports_damage [of 4094 "[1, 2, 3]" "[[1, 2], [0]]" "\<lambda>p. word_of_nat (length (filter ((=) 0) p))"]
    by (simp add: cut)
qed

text \<open>The reply cap of a paged read is exact: the pages of a nonempty range, framed, are
  precisely as long as the cap \<open>PgRead\<close> puts on its answer, for every alignment of the range.\<close>

theorem pgread_cap_exact:
  assumes "data \<noteq> []"
  shows "int (length (pack_pages crc data offset)) = reply_cap (PgRead fh offset (int (length data)) flags pathid)"
proof -
  have "int (first_page offset) = 4096 - offset mod 4096"
    using first_page_int [of offset] by (simp add: PAGE_SIZE_def)
  then have "int (length (pack_pages crc data offset))
      = int (length data) + 4 * (1 + (int (length data) - (4096 - offset mod 4096) + 4095) div 4096)"
    using length_pack_loop [OF first_page_bounds assms, of crc offset] by (simp add: pack_pages_def)
  moreover have "reply_cap (PgRead fh offset (int (length data)) flags pathid)
      = int (length data) + 4 * (- ((- (offset mod 4096 + int (length data))) div 4096))"
    by (simp add: reply_cap_def PgRead_reply_cap_def Let_def)
  ultimately show ?thesis
    by (simp only: ceil_pages) (simp add: algebra_simps)
qed

theorem pgread_cap_exact_witness:
  "int (length (pack_pages (\<lambda>_. 7) [1, 2, 3] 4094)) = reply_cap (PgRead [0, 0, 0, 1] 4094 3 0 0)"
  using pgread_cap_exact [of "[1, 2, 3]" "\<lambda>_. 7" 4094 "[0, 0, 0, 1]" 0 0] by simp

end
