(* ===== verification/Vector.thy ===== *)
theory Vector
  imports Frames Responses "HOL-Library.Multiset"
begin

text \<open>
  \<open>client/_vector.py\<close>, the packing and unpacking of vector requests, with the part of
  \<open>client/_reading.py\<close> that turns the replies to a vector read into one string per range.

  A generator that raises part-way is modelled by what it yields before it raises: \<open>walk\<close>
  returns the segments and the exception that ends them, if one does, so a consumer that
  stops early never meets it.
\<close>

subsection \<open>Ranges and limits\<close>

record read_range =
  rr_offset :: int
  rr_length :: int

record write_chunk =
  wc_offset :: int
  wc_data :: bytes

definition READV_MAX_CHUNKS :: nat where "READV_MAX_CHUNKS = 1024"
definition READV_MAX_BYTES :: int where "READV_MAX_BYTES = 2097152"
definition READV_MAX_ELEMENT :: int where "READV_MAX_ELEMENT = 2097152 - 16"
definition WRITEV_MAX_ELEMENT :: nat where "WRITEV_MAX_ELEMENT = 2097152"

definition ReadRange :: "int \<Rightarrow> int \<Rightarrow> read_range" where
  "ReadRange offset len = \<lparr>rr_offset = offset, rr_length = len\<rparr>"

definition readv_for :: "read_range list \<Rightarrow> int \<Rightarrow> bytes \<Rightarrow> request" where
  "readv_for batch data_path handle = ReadV (map (\<lambda>r. (handle, rr_offset r, rr_length r)) batch) data_path"

text \<open>\<open>_PackedReadV.payload\<close>: the element list in one \<open>struct.pack\<close>.\<close>

definition packed_payload :: "(bytes \<times> int \<times> int) list \<Rightarrow> bytes res" where
  "packed_payload chunks =
     struct_pack (concat (map (\<lambda>_. [Fs 4, Fi, Fq]) chunks))
       (concat (map (\<lambda>(fhandle, offset, len). [SBytes fhandle, SInt len, SInt offset]) chunks))"

subsection \<open>Reading a reply\<close>

function walk :: "bytes \<Rightarrow> (int \<times> bytes) list \<times> exn option" where
  "walk body =
     (if body = [] then ([], None)
      else if length body < 16 then ([], Some ProtocolError)
      else
        let len = be_sdec (take 4 (drop 4 body)); offset = be_sdec (take 8 (drop 8 body));
            rest = drop 16 body
        in if len < 0 then ([], Some ProtocolError)
           else if int (length rest) < len then ([], Some ProtocolError)
           else (case walk (drop (nat len) rest) of
                   (segs, e) \<Rightarrow> ((offset, take (nat len) rest) # segs, e)))"
  by auto
termination by (relation "measure length") auto

declare walk.simps [simp del]

text \<open>The body of the loop of \<open>_as_asked\<close> over one reply: \<open>None\<close> for the early return.\<close>

fun match_segments :: "(int \<times> bytes) list \<Rightarrow> read_range list \<Rightarrow> (bytes list \<times> read_range list) option" where
  "match_segments [] wanted = Some ([], wanted)"
| "match_segments ((offset, data) # segs) wanted =
     (case wanted of
        [] \<Rightarrow> None
      | r # rs \<Rightarrow>
          if rr_offset r \<noteq> offset \<or> rr_length r \<noteq> int (length data) then None
          else (case match_segments segs rs of
                  None \<Rightarrow> None | Some (out, left) \<Rightarrow> Some (data # out, left)))"

fun as_asked_loop :: "bytes list \<Rightarrow> read_range list \<Rightarrow> (bytes list \<times> read_range list) option res" where
  "as_asked_loop [] wanted = Inr (Some ([], wanted))"
| "as_asked_loop (body # bodies) wanted =
     (case walk body of (segs, e) \<Rightarrow>
        (case match_segments segs wanted of
           None \<Rightarrow> Inr None
         | Some (out, left) \<Rightarrow>
             (case e of
                Some x \<Rightarrow> Inl x
              | None \<Rightarrow> rbind (as_asked_loop bodies left) (\<lambda>r.
                  Inr (case r of None \<Rightarrow> None | Some (out', left') \<Rightarrow> Some (out @ out', left'))))))"

definition as_asked :: "bytes list \<Rightarrow> read_range list \<Rightarrow> bytes list option res" where
  "as_asked bodies wanted =
     rbind (as_asked_loop bodies wanted) (\<lambda>r.
       Inr (case r of
              Some (out, left) \<Rightarrow> if length out = length wanted then Some out else None
            | None \<Rightarrow> None))"

text \<open>\<open>out.setdefault(offset, []).append(data)\<close>.\<close>

definition file_segment :: "int \<times> bytes \<Rightarrow> (int \<times> bytes list) list \<Rightarrow> (int \<times> bytes list) list" where
  "file_segment seg d =
     dict_set (fst seg) ((case map_of d (fst seg) of None \<Rightarrow> [] | Some ds \<Rightarrow> ds) @ [snd seg]) d"

fun by_offset_loop :: "bytes list \<Rightarrow> (int \<times> bytes list) list \<Rightarrow> (int \<times> bytes list) list res" where
  "by_offset_loop [] d = Inr d"
| "by_offset_loop (body # bodies) d =
     (case walk body of (segs, e) \<Rightarrow>
        (case e of
           Some x \<Rightarrow> Inl x
         | None \<Rightarrow> by_offset_loop bodies (fold file_segment segs d)))"

definition by_offset :: "bytes list \<Rightarrow> (int \<times> bytes list) list res" where
  "by_offset bodies = by_offset_loop bodies []"

text \<open>\<open>_segment_for\<close> pops from the list the dictionary holds, so it returns the dictionary too.\<close>

definition segment_for ::
  "read_range \<Rightarrow> (int \<times> bytes list) list \<Rightarrow> (bytes \<times> (int \<times> bytes list) list) res" where
  "segment_for wanted d =
     (case map_of d (rr_offset wanted) of
        None \<Rightarrow> Inl ProtocolError
      | Some [] \<Rightarrow> Inl ProtocolError
      | Some (a # as) \<Rightarrow>
          if int (length a) > rr_length wanted then Inl ProtocolError
          else Inr (a, if as \<noteq> [] then dict_set (rr_offset wanted) as d else d))"

fun claim :: "read_range list \<Rightarrow> (int \<times> bytes list) list \<Rightarrow> (bytes list \<times> (int \<times> bytes list) list) res" where
  "claim [] d = Inr ([], d)"
| "claim (r # rs) d =
     rbind (segment_for r d) (\<lambda>(a, d1). rbind (claim rs d1) (\<lambda>(as, d2). Inr (a # as, d2)))"

subsection \<open>Cutting to the server's ceilings\<close>

function piece_loop :: "int \<Rightarrow> int \<Rightarrow> read_range list" where
  "piece_loop offset len =
     (if len \<le> 0 then []
      else ReadRange offset (min READV_MAX_ELEMENT len)
           # piece_loop (offset + READV_MAX_ELEMENT) (len - READV_MAX_ELEMENT))"
  by auto
termination by (relation "measure (\<lambda>(_, len). nat len)") (auto simp: READV_MAX_ELEMENT_def)

declare piece_loop.simps [simp del]

definition pieces :: "read_range \<Rightarrow> read_range list" where
  "pieces rng =
     (if rr_length rng \<le> READV_MAX_ELEMENT then [rng] else piece_loop (rr_offset rng) (rr_length rng))"

definition assemble ::
  "read_range \<Rightarrow> (int \<times> bytes list) list \<Rightarrow> (bytes \<times> (int \<times> bytes list) list) res" where
  "assemble rng d = rbind (claim (pieces rng) d) (\<lambda>(parts, d'). Inr (concat parts, d'))"

fun assemble_all :: "read_range list \<Rightarrow> (int \<times> bytes list) list \<Rightarrow> bytes list res" where
  "assemble_all [] d = Inr []"
| "assemble_all (r # rs) d =
     rbind (assemble r d) (\<lambda>(b, d'). rbind (assemble_all rs d') (\<lambda>bs. Inr (b # bs)))"

text \<open>\<open>_batches\<close> and \<open>_write_batches\<close> are the same loop over elements of a size.\<close>

fun batch_loop :: "('a \<Rightarrow> int) \<Rightarrow> 'a list \<Rightarrow> int \<Rightarrow> 'a list \<Rightarrow> 'a list list" where
  "batch_loop weight batch sofar [] = (if batch \<noteq> [] then [batch] else [])"
| "batch_loop weight batch sofar (x # xs) =
     (if batch \<noteq> [] \<and> (READV_MAX_CHUNKS \<le> length batch \<or> sofar + weight x > READV_MAX_BYTES)
      then batch # batch_loop weight [x] (weight x) xs
      else batch_loop weight (batch @ [x]) (sofar + weight x) xs)"

definition batches :: "read_range list \<Rightarrow> read_range list list" where
  "batches ranges = batch_loop rr_length [] 0 ranges"

function write_piece_loop :: "int \<Rightarrow> bytes \<Rightarrow> write_chunk list" where
  "write_piece_loop offset data =
     (if data = [] then []
      else \<lparr>wc_offset = offset, wc_data = take WRITEV_MAX_ELEMENT data\<rparr>
           # write_piece_loop (offset + int WRITEV_MAX_ELEMENT) (drop WRITEV_MAX_ELEMENT data))"
  by auto
termination by (relation "measure (\<lambda>(_, data). length data)") (auto simp: WRITEV_MAX_ELEMENT_def)

declare write_piece_loop.simps [simp del]

definition write_pieces :: "write_chunk \<Rightarrow> write_chunk list" where
  "write_pieces chunk =
     (if length (wc_data chunk) \<le> WRITEV_MAX_ELEMENT then [chunk]
      else write_piece_loop (wc_offset chunk) (wc_data chunk))"

definition chunk_size :: "write_chunk \<Rightarrow> int" where
  "chunk_size chunk = int (length (wc_data chunk))"

definition write_batches :: "write_chunk list \<Rightarrow> write_chunk list list" where
  "write_batches chunks = batch_loop chunk_size [] 0 (concat (map write_pieces chunks))"

text \<open>\<open>_clone_extent\<close>: bytes copied and the highest destination reached.\<close>

definition clone_extent :: "(bytes \<times> int \<times> int \<times> int) list \<Rightarrow> int \<times> int" where
  "clone_extent batch =
     (sum_list (map (\<lambda>(_, _, len, _). len) batch),
      if batch = [] then 0 else Max (set (map (\<lambda>(_, _, len, dest). dest + len) batch)))"

subsection \<open>Putting a vector read together\<close>

text \<open>What \<open>_readv_elements\<close> and \<open>readv\<close> do with the reply bodies: the quick path, and its two
  fallbacks for short and for long ranges.\<close>

definition elements_of :: "bytes list \<Rightarrow> read_range list \<Rightarrow> bytes list res" where
  "elements_of bodies wanted =
     rbind (as_asked bodies wanted) (\<lambda>quick.
       case quick of
         Some out \<Rightarrow> Inr out
       | None \<Rightarrow> rbind (by_offset bodies) (\<lambda>d. rbind (claim wanted d) (\<lambda>(out, _). Inr out)))"

definition assembled_of :: "bytes list \<Rightarrow> read_range list \<Rightarrow> bytes list res" where
  "assembled_of bodies wanted = rbind (by_offset bodies) (assemble_all wanted)"

text \<open>The one-pack payload is the field-by-field one.\<close>

lemma packed_payload_agrees: "packed_payload chunks = ReadV_payload chunks"
proof (induction chunks)
  case Nil
  show ?case by (simp add: packed_payload_def ReadV_payload_def Writer_def)
next
  case (Cons c chunks)
  obtain h off len where c: "c = (h, off, len)" by (metis prod_cases3)
  have run: "w_run (concat (map (\<lambda>(fhandle, offset, len). [Padded (OfBytes fhandle) 4, I32 len, I64 offset]) chunks)) w
      = rbind (ReadV_payload chunks) (\<lambda>rest. Inr (w @ rest))" for w
    unfolding ReadV_payload_def Writer_def by (rule w_run_append)
  have "ReadV_payload (c # chunks) = rbind (pack_i 4 len) (\<lambda>a. rbind (pack_i 8 off) (\<lambda>b.
      rbind (ReadV_payload chunks) (\<lambda>rest. Inr (pad_field 4 h @ a @ b @ rest))))"
    by (subst ReadV_payload_def) (simp add: Writer_def w_defs c rbind_assoc run)
  moreover have "packed_payload (c # chunks) = rbind (pack_i 4 len) (\<lambda>a. rbind (pack_i 8 off) (\<lambda>b.
      rbind (packed_payload chunks) (\<lambda>rest. Inr (pad_field 4 h @ a @ b @ rest))))"
    by (simp add: packed_payload_def c rbind_assoc)
  ultimately show ?case using Cons.IH by simp
qed

subsection \<open>Batching\<close>

lemma batch_loop_concat: "concat (batch_loop w b t xs) = b @ xs"
  by (induction w b t xs rule: batch_loop.induct) auto

lemma batch_loop_nonempty: "[] \<notin> set (batch_loop w b t xs)"
  by (induction w b t xs rule: batch_loop.induct) auto

lemma batch_loop_bounds:
  assumes "t = sum_list (map w b)" "length b \<le> READV_MAX_CHUNKS"
    and "length b \<le> 1 \<or> t \<le> READV_MAX_BYTES" and "c \<in> set (batch_loop w b t xs)"
  shows "length c \<le> READV_MAX_CHUNKS \<and> (length c = 1 \<or> sum_list (map w c) \<le> READV_MAX_BYTES)"
  using assms
proof (induction w b t xs rule: batch_loop.induct)
  case (1 w b t)
  then show ?case by (cases b) auto
next
  case (2 w b t x xs)
  show ?case
  proof (cases "b \<noteq> [] \<and> (READV_MAX_CHUNKS \<le> length b \<or> t + w x > READV_MAX_BYTES)")
    case True
    have "c = b \<or> c \<in> set (batch_loop w [x] (w x) xs)" using "2.prems"(4) True by auto
    then show ?thesis
    proof
      assume "c = b"
      moreover have "length b = 1 \<or> t \<le> READV_MAX_BYTES" using "2.prems"(3) True by (cases b) auto
      ultimately show ?thesis using "2.prems"(1,2) by auto
    qed (use "2.IH"(1) [OF True] in \<open>auto simp: READV_MAX_CHUNKS_def\<close>)
  next
    case False
    have "c \<in> set (batch_loop w (b @ [x]) (t + w x) xs)" using "2.prems"(4) False by auto
    then show ?thesis
      using "2.IH"(2) [OF False] "2.prems"(1,2) False by (auto simp: READV_MAX_CHUNKS_def)
  qed
qed

subsection \<open>Pieces\<close>

text \<open>The bytes of a file a range names: short, or empty, past the end of the file.\<close>

definition file_slice :: "bytes \<Rightarrow> read_range \<Rightarrow> bytes" where
  "file_slice file r = take (nat (rr_length r)) (drop (nat (rr_offset r)) file)"

lemma length_slice: "0 \<le> rr_length r \<Longrightarrow> int (length (file_slice file r)) \<le> rr_length r"
  by (simp add: file_slice_def)

lemma piece_loop_slices:
  "0 \<le> offset \<Longrightarrow> concat (map (file_slice file) (piece_loop offset len)) = take (nat len) (drop (nat offset) file)"
proof (induction offset len rule: piece_loop.induct)
  case (1 offset len)
  show ?case
  proof (cases "len \<le> READV_MAX_ELEMENT")
    case True
    have "piece_loop (offset + READV_MAX_ELEMENT) (len - READV_MAX_ELEMENT) = []"
      using True by (subst piece_loop.simps) simp
    then show ?thesis
      using True by (subst piece_loop.simps) (simp add: file_slice_def ReadRange_def)
  next
    case False
    have pos: "0 < len" "0 \<le> offset + READV_MAX_ELEMENT" "0 \<le> READV_MAX_ELEMENT"
      using False "1.prems" by (auto simp: READV_MAX_ELEMENT_def)
    have "nat (offset + READV_MAX_ELEMENT) = nat READV_MAX_ELEMENT + nat offset"
      using "1.prems" pos by (simp add: nat_add_distrib)
    moreover have "nat len = nat READV_MAX_ELEMENT + nat (len - READV_MAX_ELEMENT)"
      using False pos by (simp flip: nat_add_distrib)
    moreover have "file_slice file (ReadRange offset (min READV_MAX_ELEMENT len)) = take (nat READV_MAX_ELEMENT) (drop (nat offset) file)"
      using False by (simp add: file_slice_def ReadRange_def)
    ultimately show ?thesis
      using "1.IH" pos False by (subst piece_loop.simps) (simp add: take_add)
  qed
qed

lemma piece_loop_bounds:
  "r \<in> set (piece_loop offset len) \<Longrightarrow> 0 \<le> offset \<Longrightarrow>
   offset \<le> rr_offset r \<and> 0 < rr_length r \<and> rr_length r \<le> READV_MAX_ELEMENT \<and>
   rr_offset r + rr_length r \<le> offset + len"
proof (induction offset len rule: piece_loop.induct)
  case (1 offset len)
  show ?case
  proof (cases "len \<le> 0")
    case True
    then show ?thesis using "1.prems"(1) by (simp add: piece_loop.simps)
  next
    case False
    then have "r = ReadRange offset (min READV_MAX_ELEMENT len) \<or>
        r \<in> set (piece_loop (offset + READV_MAX_ELEMENT) (len - READV_MAX_ELEMENT))"
      using "1.prems"(1) by (simp add: piece_loop.simps [of offset])
    then show ?thesis
      using "1.IH" False "1.prems"(2) by (auto simp: ReadRange_def READV_MAX_ELEMENT_def)
  qed
qed

lemma pieces_slices: "0 \<le> rr_offset r \<Longrightarrow> concat (map (file_slice file) (pieces r)) = file_slice file r"
  by (simp add: pieces_def piece_loop_slices) (simp add: file_slice_def)

subsection \<open>Walking a reply\<close>

lemma walk_readv_loop:
  "case readv_loop \<lparr>rbuf = pre @ body, rpos = length pre\<rparr> of
     Inr ss \<Rightarrow> walk body = (map (\<lambda>s. (seg_offset s, seg_data s)) ss, None)
   | Inl e \<Rightarrow> e = ProtocolError \<and> snd (walk body) = Some ProtocolError"
proof (induction body arbitrary: pre rule: walk.induct)
  case (1 body)
  let ?len = "be_sdec (take 4 (drop 4 body))"
  let ?rest = "drop 16 body"
  show ?case
  proof (cases "16 \<le> length body \<and> 0 \<le> ?len \<and> ?len \<le> int (length ?rest)")
    case False
    let ?r = "\<lparr>rbuf = pre @ body, rpos = length pre\<rparr>"
    have rd: "remaining ?r = length body" by (simp add: remaining_def)
    show ?thesis
    proof (cases "body = []")
      case True
      then show ?thesis by (simp add: readv_loop.simps walk.simps remaining_def)
    next
      case ne: False
      then have "snd (walk body) = Some ProtocolError"
        using False by (auto simp: walk.simps [of body] Let_def)
      moreover have "readv_loop ?r = Inl ProtocolError"
        using False ne rd
        by (auto simp: readv_loop.simps [of ?r] r_bytes_def r_i32_def r_i64_def r_unpack_def r_take_def
            add.assoc split: if_splits)
      ultimately show ?thesis by simp
    qed
  next
    case True
    have body: "body \<noteq> []" "\<not> length body < 16" "\<not> ?len < 0" "\<not> int (length ?rest) < ?len"
      using True by auto
    let ?pre = "pre @ take (16 + nat ?len) body"
    have split: "pre @ body = ?pre @ drop (nat ?len) ?rest" by (simp add: add.commute)
    have pos: "length ?pre = length pre + 16 + nat ?len" using True by auto
    let ?n = "readv_loop \<lparr>rbuf = ?pre @ drop (nat ?len) ?rest, rpos = length ?pre\<rparr>"
    have IH: "case ?n of
        Inr ss \<Rightarrow> walk (drop (nat ?len) ?rest) = (map (\<lambda>s. (seg_offset s, seg_data s)) ss, None)
      | Inl e \<Rightarrow> e = ProtocolError \<and> snd (walk (drop (nat ?len) ?rest)) = Some ProtocolError"
      by (rule "1.IH" [OF body(1,2) refl refl refl body(3,4)])
    have "readv_loop \<lparr>rbuf = pre @ body, rpos = length pre\<rparr>
      = rbind ?n (\<lambda>rest. Inr (\<lparr>seg_fhandle = take 4 body, seg_offset = be_sdec (take 8 (drop 8 body)),
            seg_data = take (nat ?len) ?rest\<rparr> # rest))"
      unfolding split [symmetric] pos
      using True
      by (auto simp: readv_loop.simps [of "\<lparr>rbuf = pre @ body, rpos = length pre\<rparr>"] remaining_def r_bytes_def r_i32_def r_i64_def r_unpack_def r_take_def add.assoc)
    then show ?thesis
      using IH body by (auto simp: walk.simps [of body] Let_def split: sum.splits prod.splits)
  qed
qed

subsection \<open>Filing and claiming segments\<close>

definition at_offset :: "int \<Rightarrow> (int \<times> 'a) list \<Rightarrow> 'a list" where
  "at_offset o' xs = map snd (filter (\<lambda>x. fst x = o') xs)"

lemma at_offset_simps [simp]:
  "at_offset o' [] = []"
  "at_offset o' (x # xs) = (if fst x = o' then snd x # at_offset o' xs else at_offset o' xs)"
  "at_offset o' (xs @ ys) = at_offset o' xs @ at_offset o' ys"
  by (simp_all add: at_offset_def)

definition queue_at :: "int \<Rightarrow> (int \<times> bytes list) list \<Rightarrow> bytes list" where
  "queue_at o' d = (case map_of d o' of None \<Rightarrow> [] | Some q \<Rightarrow> q)"

lemma queue_file: "queue_at o' (file_segment seg d) = queue_at o' d @ (if fst seg = o' then [snd seg] else [])"
  by (auto simp: queue_at_def file_segment_def map_of_dict_set)

lemma queue_filed: "queue_at o' (fold file_segment segs d) = queue_at o' d @ at_offset o' segs"
  by (induction segs arbitrary: d) (simp_all add: queue_file)

definition segments :: "bytes list \<Rightarrow> (int \<times> bytes) list" where
  "segments bodies = concat (map (fst \<circ> walk) bodies)"

lemma by_offset_loop_filed:
  "by_offset_loop bodies d = Inr d' \<Longrightarrow> d' = fold file_segment (segments bodies) d"
  by (induction bodies d rule: by_offset_loop.induct) (auto simp: segments_def split: prod.splits option.splits)

lemma by_offset_ok:
  "(\<forall>b \<in> set bodies. snd (walk b) = None) \<Longrightarrow> by_offset_loop bodies d = Inr (fold file_segment (segments bodies) d)"
  by (induction bodies d rule: by_offset_loop.induct) (auto simp: segments_def split: prod.splits option.splits)

lemma segment_for_cases:
  assumes "segment_for r d = Inr (a, d')"
  shows "\<exists>as. queue_at (rr_offset r) d = a # as \<and> int (length a) \<le> rr_length r \<and>
     (as \<noteq> [] \<longrightarrow> queue_at (rr_offset r) d' = as) \<and>
     (\<forall>o'. o' \<noteq> rr_offset r \<longrightarrow> queue_at o' d' = queue_at o' d)"
  using assms by (auto simp: segment_for_def queue_at_def map_of_dict_set split: option.splits list.splits if_splits)

lemma segment_for_ok:
  assumes "queue_at (rr_offset r) d = a # as" "int (length a) \<le> rr_length r"
  shows "\<exists>d'. segment_for r d = Inr (a, d')"
  using assms by (auto simp: segment_for_def queue_at_def split: option.splits list.splits)

text \<open>What the ranges at one offset are given is the front of the queue filed there.\<close>

lemma claim_front:
  "claim rs d = Inr (ds, d') \<Longrightarrow>
   length ds = length rs \<and> list_all2 (\<lambda>r a. int (length a) \<le> rr_length r) rs ds \<and>
   (length (filter (\<lambda>r. rr_offset r = o') rs) \<le> length (queue_at o' d) \<longrightarrow>
    at_offset o' (zip (map rr_offset rs) ds)
      = take (length (filter (\<lambda>r. rr_offset r = o') rs)) (queue_at o' d))"
proof (induction rs arbitrary: d ds)
  case (Cons r rs)
  then obtain a d1 as where s: "segment_for r d = Inr (a, d1)" "claim rs d1 = Inr (as, d')" "ds = a # as"
    by (auto simp: rbind_eq_Inr)
  obtain q where q: "queue_at (rr_offset r) d = a # q" "int (length a) \<le> rr_length r"
    "q \<noteq> [] \<longrightarrow> queue_at (rr_offset r) d1 = q" "\<forall>o'. o' \<noteq> rr_offset r \<longrightarrow> queue_at o' d1 = queue_at o' d"
    using segment_for_cases [OF s(1)] by blast
  note IH = Cons.IH [OF s(2)]
  show ?case
  proof (cases "rr_offset r = o'")
    case True
    then show ?thesis using IH q s(3) by (cases "q = []") auto
  next
    case False
    then show ?thesis using IH q s(3) by auto
  qed
qed auto

text \<open>In the order asked, every range gets its own segment.\<close>

definition honest :: "bytes \<Rightarrow> read_range list \<Rightarrow> (int \<times> bytes) list" where
  "honest file rs = map (\<lambda>r. (rr_offset r, file_slice file r)) rs"

lemma claim_in_order:
  "(\<forall>o'. at_offset o' (honest file rs) \<noteq> [] \<longrightarrow> queue_at o' d = at_offset o' (honest file rs)) \<Longrightarrow>
   (\<forall>r \<in> set rs. 0 \<le> rr_length r) \<Longrightarrow> \<exists>d'. claim rs d = Inr (map (file_slice file) rs, d')"
proof (induction rs arbitrary: d)
  case (Cons r rs)
  let ?a = "file_slice file r"
  let ?q = "at_offset (rr_offset r) (honest file rs)"
  have q: "queue_at (rr_offset r) d = ?a # ?q" using Cons.prems(1) by (auto simp: honest_def)
  obtain d1 where s: "segment_for r d = Inr (?a, d1)"
    using segment_for_ok [OF q] length_slice Cons.prems(2) by force
  have "\<forall>o'. at_offset o' (honest file rs) \<noteq> [] \<longrightarrow> queue_at o' d1 = at_offset o' (honest file rs)"
  proof (intro allI impI)
    fix o'
    assume ne: "at_offset o' (honest file rs) \<noteq> []"
    show "queue_at o' d1 = at_offset o' (honest file rs)"
    proof (cases "o' = rr_offset r")
      case True
      then show ?thesis using segment_for_cases [OF s] q ne by auto
    next
      case False
      then have "queue_at o' d1 = queue_at o' d" using segment_for_cases [OF s] by blast
      also have "\<dots> = at_offset o' (honest file rs)"
        using Cons.prems(1) ne False by (auto simp: honest_def)
      finally show ?thesis .
    qed
  qed
  then obtain d' where "claim rs d1 = Inr (map (file_slice file) rs, d')"
    using Cons.IH Cons.prems(2) by fastforce
  then show ?case using s by simp
qed simp

lemma claim_append:
  "claim (xs @ ys) d = rbind (claim xs d) (\<lambda>(a, d1). rbind (claim ys d1) (\<lambda>(b, d2). Inr (a @ b, d2)))"
  by (induction xs arbitrary: d) (auto simp: rbind_assoc rbind_def split: sum.splits prod.splits)

lemma assemble_all_claim:
  assumes "claim (concat (map pieces rs)) d = Inr (map f (concat (map pieces rs)), d')"
  shows "assemble_all rs d = Inr (map (\<lambda>r. concat (map f (pieces r))) rs)"
  using assms
proof (induction rs arbitrary: d)
  case (Cons r rs)
  obtain a d1 b where c: "claim (pieces r) d = Inr (a, d1)" "claim (concat (map pieces rs)) d1 = Inr (b, d')"
    and e: "a @ b = map f (pieces r) @ map f (concat (map pieces rs))"
    using Cons.prems by (auto simp: claim_append rbind_eq_Inr)
  have "length a = length (pieces r)" using claim_front [OF c(1)] by blast
  then have "a = map f (pieces r)" "b = map f (concat (map pieces rs))" using e by simp_all
  then show ?case using Cons.IH [of d1] c by (simp add: assemble_def)
qed simp

subsection \<open>Replies in any order\<close>

lemma sum_pointwise:
  fixes f g :: "'a \<Rightarrow> nat"
  assumes "\<forall>x \<in> set xs. f x \<le> g x" "sum_list (map g xs) \<le> sum_list (map f xs)" "x \<in> set xs"
  shows "f x = g x"
  using assms
proof (induction xs)
  case (Cons y ys)
  have "sum_list (map f ys) \<le> sum_list (map g ys)" using Cons.prems(1) by (intro sum_list_mono) auto
  then show ?case using Cons by auto
qed simp

lemma slice_prefix:
  "d = file_slice file r' \<Longrightarrow> rr_offset r' = rr_offset r \<Longrightarrow> length d = length (file_slice file r) \<Longrightarrow>
   d = file_slice file r"
  by (auto simp: file_slice_def min_def split: if_splits)

lemma slice_short:
  assumes "d = file_slice file r'" "rr_offset r' = rr_offset r" "int (length d) \<le> rr_length r"
  shows "length d \<le> length (file_slice file r)"
proof -
  have "length d \<le> length (drop (nat (rr_offset r)) file)" using assms(1,2) by (simp add: file_slice_def)
  moreover have "length d \<le> nat (rr_length r)" using assms(3) by (simp add: le_nat_iff)
  ultimately show ?thesis by (simp add: file_slice_def)
qed

lemma honest_at: "at_offset o' (honest file rs) = map (file_slice file) (filter (\<lambda>r. rr_offset r = o') rs)"
  by (induction rs) (auto simp: honest_def)

lemma mset_at_offset: "mset xs = mset ys \<Longrightarrow> mset (at_offset o' xs) = mset (at_offset o' ys)"
  by (simp add: at_offset_def)

lemma at_offset_zip:
  "length ds = length rs \<Longrightarrow>
   at_offset o' (zip (map rr_offset rs) ds) = map snd (filter (\<lambda>(r, a). rr_offset r = o') (zip rs ds))"
  by (induction ds rs rule: list_induct2) auto

lemma filter_zip_fst:
  "length ds = length rs \<Longrightarrow> map fst (filter (\<lambda>(r, a). P r) (zip rs ds)) = filter P rs"
  by (induction ds rs rule: list_induct2) auto

lemma claim_any_order:
  assumes "mset segs = mset (honest file rs)" "claim rs (fold file_segment segs []) = Inr (ds, d')"
  shows "ds = map (file_slice file) rs"
proof -
  have len: "length ds = length rs" and le: "list_all2 (\<lambda>r a. int (length a) \<le> rr_length r) rs ds"
    using claim_front [OF assms(2)] by auto
  have "a = file_slice file r" if ra: "(r, a) \<in> set (zip rs ds)" for r a
  proof -
    let ?o = "rr_offset r"
    let ?Z = "filter (\<lambda>(r, a). rr_offset r = ?o) (zip rs ds)"
    have qm: "mset (at_offset ?o segs) = mset (map (file_slice file) (filter (\<lambda>r. rr_offset r = ?o) rs))"
      using mset_at_offset [OF assms(1)] by (simp add: honest_at)
    then have "length (at_offset ?o segs) = length (filter (\<lambda>r. rr_offset r = ?o) rs)"
      by (metis size_mset length_map)
    then have dq: "map snd ?Z = at_offset ?o segs"
      using claim_front [OF assms(2), of ?o] len
      by (simp add: queue_filed at_offset_zip) (simp add: queue_at_def)
    have dm: "mset (map snd ?Z) = mset (map (file_slice file) (map fst ?Z))"
      using qm dq filter_zip_fst [OF len, of "\<lambda>r. rr_offset r = ?o"] by simp
    have from_file: "\<exists>r'. rr_offset r' = ?o \<and> b = file_slice file r'" if "(x, b) \<in> set ?Z" for x b
    proof -
      have "b \<in> set (map snd ?Z)" using that by force
      then have "b \<in> set (map (file_slice file) (map fst ?Z))" using dm mset_eq_setD by blast
      then show ?thesis by auto
    qed
    have small: "\<forall>z \<in> set ?Z. length (snd z) \<le> length (file_slice file (fst z))"
    proof
      fix z
      assume z: "z \<in> set ?Z"
      then have "int (length (snd z)) \<le> rr_length (fst z)" "rr_offset (fst z) = ?o"
        using le by (auto simp: list_all2_iff)
      moreover obtain r' where "rr_offset r' = ?o" "snd z = file_slice file r'"
        using from_file [of "fst z" "snd z"] z by auto
      ultimately show "length (snd z) \<le> length (file_slice file (fst z))" using slice_short by simp
    qed
    have "mset (map length (map snd ?Z)) = mset (map length (map (file_slice file) (map fst ?Z)))"
      unfolding mset_map [of length] dm ..
    then have "sum_list (map length (map snd ?Z)) = sum_list (map length (map (file_slice file) (map fst ?Z)))"
      by (simp only: flip: sum_mset_sum_list)
    then have "sum_list (map (\<lambda>z. length (snd z)) ?Z) = sum_list (map (\<lambda>z. length (file_slice file (fst z))) ?Z)"
      by (simp add: comp_def)
    then have "length a = length (file_slice file r)"
      using sum_pointwise [OF small _, of "(r, a)"] ra by simp
    moreover obtain r' where "rr_offset r' = ?o" "a = file_slice file r'" using from_file [of r a] ra by auto
    ultimately show ?thesis using slice_prefix by blast
  qed
  then have "\<forall>i < length rs. ds ! i = file_slice file (rs ! i)" using len by (auto simp: set_zip)
  then show ?thesis using len by (auto intro: nth_equalityI)
qed

subsection \<open>The quick path\<close>

lemma match_segments_Some:
  "match_segments segs wanted = Some (out, left) \<Longrightarrow>
   \<exists>taken. wanted = taken @ left \<and> out = map snd segs \<and> map fst segs = map rr_offset taken \<and>
     map (\<lambda>d. int (length d)) out = map rr_length taken"
proof (induction segs wanted arbitrary: out rule: match_segments.induct)
  case (2 offset data segs wanted)
  then obtain r rs out' where m: "wanted = r # rs" "rr_offset r = offset" "rr_length r = int (length data)"
    "match_segments segs rs = Some (out', left)" "out = data # out'"
    by (auto split: list.splits if_splits option.splits)
  then obtain taken where "rs = taken @ left" "out' = map snd segs" "map fst segs = map rr_offset taken"
    "map (\<lambda>d. int (length d)) out' = map rr_length taken"
    using "2.IH" by (metis (no_types, lifting))
  then show ?case using m by (intro exI [of _ "r # taken"]) (auto simp: comp_def)
qed auto

lemma as_asked_loop_Some:
  "as_asked_loop bodies wanted = Inr (Some (out, left)) \<Longrightarrow>
   \<exists>taken. wanted = taken @ left \<and> out = map snd (segments bodies) \<and>
     map fst (segments bodies) = map rr_offset taken \<and> map (\<lambda>d. int (length d)) out = map rr_length taken"
proof (induction bodies wanted arbitrary: out rule: as_asked_loop.induct)
  case (2 body bodies wanted)
  obtain segs e where w: "walk body = (segs, e)" by (cases "walk body")
  with "2.prems" obtain o1 l1 o2 where m: "match_segments segs wanted = Some (o1, l1)" "e = None"
    "as_asked_loop bodies l1 = Inr (Some (o2, left))" "out = o1 @ o2"
    by (auto simp: rbind_eq_Inr split: option.splits prod.splits)
  obtain t1 where t1: "wanted = t1 @ l1" "o1 = map snd segs" "map fst segs = map rr_offset t1"
    "map (\<lambda>d. int (length d)) o1 = map rr_length t1"
    using match_segments_Some [OF m(1)] by blast
  obtain t2 where "l1 = t2 @ left" "o2 = map snd (segments bodies)" "map fst (segments bodies) = map rr_offset t2"
    "map (\<lambda>d. int (length d)) o2 = map rr_length t2"
    using "2.IH" [OF w [symmetric] m(1) refl m(2,3)] by blast
  then show ?case using t1 m(4) w by (intro exI [of _ "t1 @ t2"]) (auto simp: segments_def comp_def)
qed (simp add: segments_def)

lemma exact_slices:
  assumes "mset segs = mset (honest file rs)" "map fst segs = map rr_offset rs"
    and "map (\<lambda>d. int (length d)) (map snd segs) = map rr_length rs"
  shows "map snd segs = map (file_slice file) rs"
proof (rule nth_equalityI)
  show "length (map snd segs) = length (map (file_slice file) rs)" using assms(2) by (metis length_map)
next
  fix i
  assume i: "i < length (map snd segs)"
  have len: "length segs = length rs" using assms(2) by (metis length_map)
  have seg: "segs ! i \<in> set (honest file rs)" using assms(1) i mset_eq_setD by fastforce
  then obtain r' where r': "fst (segs ! i) = rr_offset r'" "snd (segs ! i) = file_slice file r'"
    by (auto simp: honest_def)
  have "rr_offset r' = rr_offset (rs ! i)" "int (length (snd (segs ! i))) = rr_length (rs ! i)"
    using assms(2,3) i len r'(1) by (auto simp: list_eq_iff_nth_eq)
  moreover have "d = take (length d) X" if "d = take k X" for d X :: bytes and k
    using that by (simp add: min_def)
  ultimately have "snd (segs ! i) = take (nat (rr_length (rs ! i))) (drop (nat (rr_offset (rs ! i))) file)"
    using r'(2) by (metis file_slice_def nat_int)
  then show "map snd segs ! i = map (file_slice file) rs ! i" using i len by (simp add: file_slice_def)
qed

lemma as_asked_safe:
  assumes "mset (segments bodies) = mset (honest file rs)" "as_asked bodies rs = Inr (Some out)"
  shows "out = map (file_slice file) rs"
proof -
  obtain left where l: "as_asked_loop bodies rs = Inr (Some (out, left))" "length out = length rs"
    using assms(2) by (auto simp: as_asked_def rbind_eq_Inr split: option.splits if_splits)
  then obtain taken where "rs = taken @ left" "out = map snd (segments bodies)"
    "map fst (segments bodies) = map rr_offset taken" "map (\<lambda>d. int (length d)) out = map rr_length taken"
    using as_asked_loop_Some by blast
  moreover have "length taken = length rs" using calculation l(2) by (metis length_map)
  ultimately show ?thesis using exact_slices [OF assms(1)] by simp
qed

text \<open>Without a malformed reply the quick path never raises.\<close>

lemma as_asked_quiet: "(\<forall>b \<in> set bodies. snd (walk b) = None) \<Longrightarrow> \<exists>q. as_asked bodies wanted = Inr q"
proof -
  assume "\<forall>b \<in> set bodies. snd (walk b) = None"
  then have "\<exists>q. as_asked_loop bodies wanted = Inr q"
  proof (induction bodies wanted rule: as_asked_loop.induct)
    case (2 body bodies wanted)
    then show ?case by (cases "walk body") (auto split: option.splits, fastforce)
  qed simp
  then show ?thesis by (auto simp: as_asked_def)
qed

lemma claim_honest:
  assumes "\<forall>r \<in> set rs. 0 \<le> rr_length r"
  shows "\<exists>d'. claim rs (fold file_segment (honest file rs) []) = Inr (map (file_slice file) rs, d')"
  by (rule claim_in_order [OF _ assms]) (simp add: queue_filed, simp add: queue_at_def)

lemma pieces_nonneg: "0 \<le> rr_offset r \<Longrightarrow> 0 \<le> rr_length r \<Longrightarrow> p \<in> set (pieces r) \<Longrightarrow> 0 \<le> rr_length p"
  by (auto simp: pieces_def dest: piece_loop_bounds split: if_splits)

text \<open>Replies that hold the file's bytes for the ranges asked, in order.\<close>

lemma elements_of_honest:
  assumes "\<forall>r \<in> set wanted. 0 \<le> rr_length r"
    and "\<forall>b \<in> set bodies. snd (walk b) = None" "segments bodies = honest file wanted"
  shows "elements_of bodies wanted = Inr (map (file_slice file) wanted)"
proof -
  obtain quick where q: "as_asked bodies wanted = Inr quick" using as_asked_quiet [OF assms(2)] by blast
  have "by_offset bodies = Inr (fold file_segment (honest file wanted) [])"
    using by_offset_ok [OF assms(2)] assms(3) by (simp add: by_offset_def)
  moreover obtain d' where "claim wanted (fold file_segment (honest file wanted) []) = Inr (map (file_slice file) wanted, d')"
    using claim_honest [OF assms(1)] by blast
  moreover have "out = map (file_slice file) wanted" if "quick = Some out" for out
    using as_asked_safe [of bodies "file" wanted out] assms(3) q that by simp
  ultimately show ?thesis using q by (cases quick) (auto simp: elements_of_def)
qed

lemma assembled_of_honest:
  assumes "\<forall>r \<in> set wanted. 0 \<le> rr_offset r \<and> 0 \<le> rr_length r"
    and "\<forall>b \<in> set bodies. snd (walk b) = None" "segments bodies = honest file (concat (map pieces wanted))"
  shows "assembled_of bodies wanted = Inr (map (file_slice file) wanted)"
proof -
  let ?ps = "concat (map pieces wanted)"
  have "by_offset bodies = Inr (fold file_segment (honest file ?ps) [])"
    using by_offset_ok [OF assms(2)] assms(3) by (simp add: by_offset_def)
  moreover obtain d' where "claim ?ps (fold file_segment (honest file ?ps) []) = Inr (map (file_slice file) ?ps, d')"
    using claim_honest [of ?ps] assms(1) pieces_nonneg by fastforce
  then have "assemble_all wanted (fold file_segment (honest file ?ps) [])
      = Inr (map (\<lambda>r. concat (map (file_slice file) (pieces r))) wanted)"
    by (rule assemble_all_claim)
  moreover have "map (\<lambda>r. concat (map (file_slice file) (pieces r))) wanted = map (file_slice file) wanted"
    using assms(1) pieces_slices by simp
  ultimately show ?thesis by (simp add: assembled_of_def)
qed

lemma batches_concat: "concat (batches rs) = rs"
  by (simp add: batches_def batch_loop_concat)

lemma batch_limits:
  assumes "b \<in> set (batches rs)" "\<forall>r \<in> set rs. rr_length r \<le> READV_MAX_ELEMENT"
  shows "length b \<le> READV_MAX_CHUNKS" "sum_list (map rr_length b) \<le> READV_MAX_BYTES" "set b \<subseteq> set rs"
proof -
  have lim: "length b \<le> READV_MAX_CHUNKS \<and> (length b = 1 \<or> sum_list (map rr_length b) \<le> READV_MAX_BYTES)"
    using batch_loop_bounds [of 0 rr_length "[]" b rs] assms(1) by (simp add: batches_def)
  then show "length b \<le> READV_MAX_CHUNKS" ..
  show sub: "set b \<subseteq> set rs" using assms(1) batches_concat [of rs] by (metis UN_upper set_concat)
  show "sum_list (map rr_length b) \<le> READV_MAX_BYTES"
  proof (cases "length b = 1")
    case True
    then obtain r where "b = [r]" by (cases b) auto
    then show ?thesis using sub assms(2) by (auto simp: READV_MAX_ELEMENT_def READV_MAX_BYTES_def)
  qed (use lim in simp)
qed

subsection \<open>Properties\<close>



text \<open>C37: the in-place walk of a vector-read reply and the decoder \<open>parse_readv\<close> agree: the same
  segments when the reply is well formed, a \<open>ProtocolError\<close> from both otherwise.\<close>

theorem walk_agrees_with_parse_readv:
  "case parse_readv body of
     Inr ss \<Rightarrow> walk body = (map (\<lambda>s. (seg_offset s, seg_data s)) ss, None)
   | Inl e \<Rightarrow> e = ProtocolError \<and> snd (walk body) = Some ProtocolError"
  using walk_readv_loop [where pre = "[]" and body = body] by (simp add: parse_readv_def Reader_def)

text \<open>C35: a server that answers out of order cannot make a vector read return wrong data: when the
  segments that arrive are the right ones in any order and any distribution over replies, what
  \<open>_readv_elements\<close> returns, if it returns, is the right slice for every range.\<close>

theorem readv_reordered_safe:
  assumes "mset (segments bodies) = mset (honest file wanted)" and "elements_of bodies wanted = Inr out"
  shows "out = map (file_slice file) wanted"
proof -
  obtain quick where q: "as_asked bodies wanted = Inr quick"
    "(case quick of Some o' \<Rightarrow> Inr o'
      | None \<Rightarrow> rbind (by_offset bodies) (\<lambda>d. rbind (claim wanted d) (\<lambda>(out, _). Inr out))) = Inr out"
    using assms(2) by (auto simp: elements_of_def rbind_eq_Inr)
  show ?thesis
  proof (cases quick)
    case None
    then obtain d d' where "by_offset_loop bodies [] = Inr d" "claim wanted d = Inr (out, d')"
      using q(2) by (auto simp: rbind_eq_Inr by_offset_def)
    then show ?thesis using by_offset_loop_filed claim_any_order [OF assms(1)] by blast
  next
    case (Some o')
    then show ?thesis using q as_asked_safe [OF assms(1)] by simp
  qed
qed

definition sample_reordered :: bytes where
  "sample_reordered =
     [0, 0, 0, 1, 0, 0, 0, 1, 0, 0, 0, 0, 0, 0, 0, 1, 20] @ [0, 0, 0, 1, 0, 0, 0, 1, 0, 0, 0, 0, 0, 0, 0, 0, 10]"

theorem readv_reordered_safe_witness:
  "elements_of [sample_reordered] [ReadRange 0 1, ReadRange 1 1]
     = Inr (map (file_slice [10, 20, 30]) [ReadRange 0 1, ReadRange 1 1])"
proof -
  have "segments [sample_reordered] = [(1, [20]), (0, [10])]" by code_simp
  moreover have "honest [10, 20, 30] [ReadRange 0 1, ReadRange 1 1] = [(0, [10]), (1, [20])]" by code_simp
  moreover have e: "elements_of [sample_reordered] [ReadRange 0 1, ReadRange 1 1] = Inr [[10], [20]]" by code_simp
  ultimately show ?thesis
    using readv_reordered_safe [of "[sample_reordered]" "[10, 20, 30]" "[ReadRange 0 1, ReadRange 1 1]" "[[10], [20]]"]
    by (simp add: add_mset_commute)
qed

end
