(* ===== verification/Test_Server.thy ===== *)
theory Test_Server
  imports Pages Vector
begin

text \<open>
  The data plane of the server the package ships for tests (\<open>testing/_server/files.py\<close> and
  \<open>wire.py\<close>): open handles, reads (also cut into partial replies), writes, truncation, vector
  reads and writes, and paged I/O with injected checksum failures. It is the reference the
  client's transfers are proved against, byte for byte.

  One connection is modelled; what the server keeps only for tests to read back (the logs of
  requests seen) is left out. A handler returns the frames it yields; \<open>_NotFound\<close> becomes an
  error frame in \<open>serve\<close>, and a handle or offset Python would raise on is \<open>Crash\<close>, which ends
  the connection.
\<close>

subsection \<open>State\<close>

record server =
  sv_files :: "(pystr \<times> bytes) list"
  sv_handles :: "(bytes \<times> pystr) list"
  sv_chunk_reads :: nat
  sv_pgwrite_corrupt :: "(int \<times> int) list"

datatype sv_exn = NotFound pystr int pystr | Crash

text \<open>Python's \<open>xs[a:b]\<close> with negative bounds counted from the end.\<close>

definition py_index :: "int \<Rightarrow> nat \<Rightarrow> nat" where
  "py_index i n = (if i < 0 then nat (int n + i) else min (nat i) n)"

definition py_slice :: "int \<Rightarrow> int \<Rightarrow> 'a list \<Rightarrow> 'a list" where
  "py_slice a b xs =
     take (py_index b (length xs) - py_index a (length xs)) (drop (py_index a (length xs)) xs)"

subsection \<open>Frames\<close>

definition sv_frame :: "int \<Rightarrow> int \<Rightarrow> bytes \<Rightarrow> bytes" where
  "sv_frame sid status body = server_frame (nat sid) (nat status) body"

definition sv_error :: "int \<Rightarrow> int \<Rightarrow> pystr \<Rightarrow> bytes" where
  "sv_error sid code message = sv_frame sid kXR_error (be_enc 4 (nat code) @ text_bytes message @ [0])"

text \<open>The status block both paged replies start with: a zero checksum, the stream, the request
  counted from the first opcode, the final-result mark, reserved bytes, and the length of the
  data that follows the frame; then eight bytes of the request's own.\<close>

definition status_block :: "int \<Rightarrow> int \<Rightarrow> nat \<Rightarrow> int \<Rightarrow> bytes" where
  "status_block sid opc len offset =
     be_enc 4 0 @ be_enc 2 (nat sid) @ [word_of_int (opc - kXR_1stRequest), word_of_int kXR_FinalResult]
     @ replicate 4 0 @ be_enc 4 len @ be_enc 8 (nat (offset mod 2 ^ 64))"

definition pgwrite_cse :: "int \<Rightarrow> int list \<Rightarrow> bytes" where
  "pgwrite_cse sid corrupt =
     (let tail = be_enc 4 0 @ be_enc 2 4096 @ be_enc 2 4096 @ concat (map (\<lambda>off. be_enc 8 (nat (off mod 2 ^ 64))) corrupt)
      in sv_frame sid kXR_status (status_block sid kXR_pgwrite (length tail) 0) @ tail)"

subsection \<open>Handlers\<close>

type_synonym 'a handled = "server \<times> (sv_exn + 'a)"

definition sv_path :: "server \<Rightarrow> bytes \<Rightarrow> sv_exn + pystr" where
  "sv_path sv handle =
     (if handle \<noteq> [0, 0, 0, 0] then
        case map_of (sv_handles sv) handle of
          Some path \<Rightarrow> Inr path
        | None \<Rightarrow> Inl (NotFound [] 3001 (str ''no path and no handle''))
      else Inl (NotFound [] 3001 (str ''no path and no handle'')))"

definition sv_file :: "server \<Rightarrow> pystr \<Rightarrow> sv_exn + bytes" where
  "sv_file sv path =
     (case map_of (sv_files sv) path of
        Some data \<Rightarrow> Inr data
      | None \<Rightarrow> Inl (NotFound path 3011 (str ''no such file or directory'')))"

definition splice :: "bytes \<Rightarrow> int \<Rightarrow> bytes \<Rightarrow> bytes" where
  "splice data offset body =
     (if body = [] then data
      else
        let data' = (if offset > int (length data) then data @ replicate (nat offset - length data) 0 else data);
            a = py_index offset (length data'); b = max a (py_index (offset + int (length body)) (length data'))
        in take a data' @ body @ drop b data')"

definition put_file :: "pystr \<Rightarrow> bytes \<Rightarrow> server \<Rightarrow> server" where
  "put_file path data sv = sv\<lparr>sv_files := dict_set path data (sv_files sv)\<rparr>"

definition write_at :: "bytes \<Rightarrow> int \<Rightarrow> bytes \<Rightarrow> server \<Rightarrow> unit handled" where
  "write_at handle offset body sv =
     (case rbind (sv_path sv handle) (\<lambda>path. rbind (sv_file sv path) (\<lambda>data. Inr (path, data))) of
        Inl e \<Rightarrow> (sv, Inl e)
      | Inr (path, data) \<Rightarrow> (put_file path (splice data offset body) sv, Inr ()))"

text \<open>The frames of \<open>_h_read\<close>: one, or \<open>chunk_reads\<close> bytes at a time.\<close>

definition read_frames :: "int \<Rightarrow> nat \<Rightarrow> bytes \<Rightarrow> bytes list" where
  "read_frames sid step data =
     (if step \<noteq> 0 \<and> length data > step
      then map (\<lambda>k. sv_frame sid kXR_oksofar (take step (drop (k * step) data))) [0 ..< (length data - 1) div step]
           @ [sv_frame sid kXR_ok (drop ((length data - 1) div step * step) data)]
      else [sv_frame sid kXR_ok data])"

definition h_read :: "int \<Rightarrow> bytes \<Rightarrow> bytes \<Rightarrow> server \<Rightarrow> bytes list handled" where
  "h_read sid ps body sv =
     (let offset = be_sdec (take 8 (drop 4 ps)); len = be_sdec (take 4 (drop 12 ps))
      in (sv, rbind (sv_path sv (take 4 ps)) (\<lambda>path. rbind (sv_file sv path) (\<lambda>file.
           Inr (read_frames sid (sv_chunk_reads sv) (py_slice offset (offset + len) file))))))"

definition h_write :: "int \<Rightarrow> bytes \<Rightarrow> bytes \<Rightarrow> server \<Rightarrow> bytes list handled" where
  "h_write sid ps body sv =
     (case write_at (take 4 ps) (be_sdec (take 8 (drop 4 ps))) body sv of
        (sv', Inl e) \<Rightarrow> (sv', Inl e)
      | (sv', Inr _) \<Rightarrow> (sv', Inr [sv_frame sid kXR_ok []]))"

definition h_sync :: "int \<Rightarrow> bytes \<Rightarrow> bytes \<Rightarrow> server \<Rightarrow> bytes list handled" where
  "h_sync sid ps body sv = (sv, rbind (sv_path sv (take 4 ps)) (\<lambda>_. Inr [sv_frame sid kXR_ok []]))"

text \<open>One element of a vector reply; an unknown handle is a \<open>KeyError\<close> here, not an answer.\<close>

definition readv_reply :: "server \<Rightarrow> bytes \<Rightarrow> int \<Rightarrow> int \<Rightarrow> sv_exn + bytes" where
  "readv_reply sv handle len offset =
     (case map_of (sv_handles sv) handle of
        None \<Rightarrow> Inl Crash
      | Some path \<Rightarrow> rbind (sv_file sv path) (\<lambda>file.
          let data = py_slice offset (offset + len) file
          in Inr (handle @ be_enc 4 (length data) @ be_enc 8 (nat (offset mod 2 ^ 64)) @ data)))"

function readv_replies :: "server \<Rightarrow> bytes \<Rightarrow> sv_exn + bytes" where
  "readv_replies sv body =
     (if length body < 16 then Inr []
      else rbind (readv_reply sv (take 4 body) (be_sdec (take 4 (drop 4 body))) (be_sdec (take 8 (drop 8 body)))) (\<lambda>e.
           rbind (readv_replies sv (drop 16 body)) (\<lambda>es. Inr (e @ es))))"
  by auto
termination by (relation "measure (\<lambda>(_, body). length body)") auto

declare readv_replies.simps [simp del]

definition h_readv :: "int \<Rightarrow> bytes \<Rightarrow> bytes \<Rightarrow> server \<Rightarrow> bytes list handled" where
  "h_readv sid ps body sv = (sv, rbind (readv_replies sv body) (\<lambda>out. Inr [sv_frame sid kXR_ok out]))"

text \<open>The data of a vector write stands behind the counted body on the link, as \<open>rest\<close>: the
  whole list of descriptors is read before the first element is stored.\<close>

function writev_entries :: "bytes \<Rightarrow> (bytes \<times> int \<times> int) list" where
  "writev_entries body =
     (if length body < 16 then []
      else (take 4 body, be_sdec (take 8 (drop 8 body)), be_sdec (take 4 (drop 4 body)))
           # writev_entries (drop 16 body))"
  by auto
termination by (relation "measure length") auto

declare writev_entries.simps [simp del]

fun writev_store :: "(bytes \<times> int \<times> int) list \<Rightarrow> bytes \<Rightarrow> server \<Rightarrow> unit handled" where
  "writev_store [] rest sv = (sv, Inr ())"
| "writev_store ((handle, offset, len) # es) rest sv =
     (case map_of (sv_handles sv) handle of
        None \<Rightarrow> (sv, Inl Crash)
      | Some path \<Rightarrow>
          (case sv_file sv path of
             Inl e \<Rightarrow> (sv, Inl e)
           | Inr data \<Rightarrow>
               writev_store es (drop (nat len) rest)
                 (put_file path (splice data offset (take (nat len) rest)) sv)))"

definition h_writev :: "bytes \<Rightarrow> int \<Rightarrow> bytes \<Rightarrow> bytes \<Rightarrow> server \<Rightarrow> bytes list handled" where
  "h_writev rest sid ps body sv =
     (if length body mod 16 \<noteq> 0 then (sv, Inr [sv_error sid 3000 (str ''Write vector is invalid'')])
      else case writev_store (writev_entries body) rest sv of
             (sv', Inl e) \<Rightarrow> (sv', Inl e)
           | (sv', Inr _) \<Rightarrow> (sv', Inr [sv_frame sid kXR_ok []]))"

text \<open>\<open>_h_truncate\<close> for a request that names an open handle, which has no body.\<close>

definition h_truncate :: "int \<Rightarrow> bytes \<Rightarrow> bytes \<Rightarrow> server \<Rightarrow> bytes list handled" where
  "h_truncate sid ps body sv =
     (let len = be_sdec (take 8 (drop 4 ps))
      in case rbind (sv_path sv (take 4 ps)) (\<lambda>path. rbind (sv_file sv path) (\<lambda>data. Inr (path, data))) of
           Inl e \<Rightarrow> (sv, Inl e)
         | Inr (path, data) \<Rightarrow>
             (put_file path (if len < int (length data) then py_take len data
                             else data @ replicate (nat (len - int (length data))) 0) sv,
              Inr [sv_frame sid kXR_ok []]))"

definition h_pgread :: "(bytes \<Rightarrow> 32 word) \<Rightarrow> int \<Rightarrow> bytes \<Rightarrow> bytes \<Rightarrow> server \<Rightarrow> bytes list handled" where
  "h_pgread crc sid ps body sv =
     (let offset = be_sdec (take 8 (drop 4 ps)); len = be_sdec (take 4 (drop 12 ps))
      in (sv, rbind (sv_path sv (take 4 ps)) (\<lambda>path. rbind (sv_file sv path) (\<lambda>file.
           let packed = pack_pages crc (py_slice offset (offset + len) file) offset
           in Inr [sv_frame sid kXR_status (status_block sid kXR_pgread (length packed) offset) @ packed]))))"

text \<open>The walk over the pages of a paged write that takes one injected failure off each page.\<close>

function inject :: "int \<Rightarrow> int \<Rightarrow> (int \<times> int) list \<Rightarrow> int list \<times> (int \<times> int) list" where
  "inject at stop knobs =
     (if stop \<le> at then ([], knobs)
      else
        let n = (case map_of knobs at of None \<Rightarrow> 0 | Some n \<Rightarrow> n);
            knobs' = (if n \<noteq> 0 then dict_set at (n - 1) knobs else knobs)
        in case inject (at + page_span at (stop - at)) stop knobs' of
             (bad, knobs'') \<Rightarrow> (if n \<noteq> 0 then at # bad else bad, knobs''))"
  by auto
termination
  by (relation "measure (\<lambda>(at, stop, _). nat (stop - at))")
     (auto simp: page_span_def PAGE_SIZE_def min_def)

declare inject.simps [simp del]

definition h_pgwrite :: "(bytes \<Rightarrow> 32 word) \<Rightarrow> int \<Rightarrow> bytes \<Rightarrow> bytes \<Rightarrow> server \<Rightarrow> bytes list handled" where
  "h_pgwrite crc sid ps body sv =
     (let offset = be_sdec (take 8 (drop 4 ps))
      in case unpack_pages crc body offset of (data, corrupt) \<Rightarrow>
         case write_at (take 4 ps) offset data sv of
           (sv', Inl e) \<Rightarrow> (sv', Inl e)
         | (sv', Inr _) \<Rightarrow>
             (case inject offset (offset + int (length data)) (sv_pgwrite_corrupt sv') of (injected, knobs) \<Rightarrow>
                let bad = sorted_list_of_set (set corrupt \<union> set injected)
                in (sv'\<lparr>sv_pgwrite_corrupt := knobs\<rparr>,
                    Inr [if bad \<noteq> [] then pgwrite_cse sid bad else sv_frame sid kXR_ok []])))"

subsection \<open>Requests off the wire\<close>

text \<open>The requests of the data plane; every other opcode is outside this model.\<close>

definition sv_handler ::
  "(bytes \<Rightarrow> 32 word) \<Rightarrow> bytes \<Rightarrow> int \<Rightarrow> (int \<Rightarrow> bytes \<Rightarrow> bytes \<Rightarrow> server \<Rightarrow> bytes list handled) option" where
  "sv_handler crc rest opc =
     (if opc = kXR_read then Some h_read
      else if opc = kXR_write then Some h_write
      else if opc = kXR_sync then Some h_sync
      else if opc = kXR_readv then Some h_readv
      else if opc = kXR_writev then Some (h_writev rest)
      else if opc = kXR_truncate then Some h_truncate
      else if opc = kXR_pgread then Some (h_pgread crc)
      else if opc = kXR_pgwrite then Some (h_pgwrite crc)
      else None)"

text \<open>One request as it stands on the link, header first, and the bytes sent back; \<open>None\<close> when
  the connection ends.\<close>

definition serve :: "(bytes \<Rightarrow> 32 word) \<Rightarrow> bytes \<Rightarrow> server \<Rightarrow> server \<times> bytes list option" where
  "serve crc wire sv =
     (case server_request_header wire of (sid, opc, ps, dlen) \<Rightarrow>
        case sv_handler crc (drop (24 + nat dlen) wire) opc of
          None \<Rightarrow> (sv, None)
        | Some h \<Rightarrow>
            (case h sid ps (take (nat dlen) (drop 24 wire)) sv of
               (sv', Inr frames) \<Rightarrow> (sv', Some frames)
             | (sv', Inl (NotFound path code message)) \<Rightarrow>
                 (sv', Some [sv_error sid code (message @ str '': '' @ path)])
             | (sv', Inl Crash) \<Rightarrow> (sv', None)))"

end
