(* ===== verification/File_Transfer.thy ===== *)
theory File_Transfer
  imports Pages Vector
begin

text \<open>
  The transfers of an open file (\<open>client/_reading.py\<close> and \<open>client/_writing.py\<close>, with what they
  use of \<open>client/_handle.py\<close>): chunked reads and writes, vector and paged I/O, sequential
  readahead and iteration. A request is carried by the parameter \<open>exe\<close>, the router's
  \<open>execute\<close> as a function of a state of its own; \<open>plane\<close> is the bulk data plane, for the one
  operation that calls it directly.

  The handle modelled has no automatic data paths (\<open>_data_paths\<close> is empty), so \<open>_bulk\<close> takes
  its first branch, and is not re-opened. \<open>config.chunk_size\<close> is at least 1: with less, the
  Python loops do not end, and the model returns at once.
\<close>

subsection \<open>State and sequencing\<close>

record file_state =
  fs_handle :: "bytes option"
  fs_checkpoint :: bool
  fs_pathid :: int
  fs_size_hint :: int
  fs_stat :: "stat_info option"
  fs_ahead :: "int \<times> bytes"
  fs_sequel :: int
  fs_window :: int

type_synonym 'w executor = "request \<Rightarrow> 'w \<Rightarrow> 'w \<times> bytes res"
type_synonym ('w, 'a) fop = "file_state \<times> 'w \<Rightarrow> (file_state \<times> 'w) \<times> 'a res"

definition fret :: "'a \<Rightarrow> ('w, 'a) fop" where "fret x s = (s, Inr x)"
definition flift :: "'a res \<Rightarrow> ('w, 'a) fop" where "flift r s = (s, r)"
definition fask :: "(file_state \<Rightarrow> ('w, 'a) fop) \<Rightarrow> ('w, 'a) fop" where "fask p s = p (fst s) s"
definition fupd :: "(file_state \<Rightarrow> file_state) \<Rightarrow> ('w, unit) fop" where "fupd g s = ((g (fst s), snd s), Inr ())"

definition fbind :: "('w, 'a) fop \<Rightarrow> ('a \<Rightarrow> ('w, 'b) fop) \<Rightarrow> ('w, 'b) fop" where
  "fbind p k s = (case p s of (s', Inl e) \<Rightarrow> (s', Inl e) | (s', Inr x) \<Rightarrow> k x s')"

definition call_router :: "'w executor \<Rightarrow> request \<Rightarrow> ('w, bytes) fop" where
  "call_router exe req s = (case exe req (snd s) of (w, r) \<Rightarrow> ((fst s, w), r))"

lemma fop_simps [simp]:
  "fret x s = (s, Inr x)" "flift r s = (s, r)" "fask p s = p (fst s) s"
  "fupd g s = ((g (fst s), snd s), Inr ())"
  by (simp_all add: fret_def flift_def fask_def fupd_def)

lemma fbind_simps [simp]:
  "p s = (s', Inl e) \<Longrightarrow> fbind p k s = (s', Inl e)"
  "p s = (s', Inr x) \<Longrightarrow> fbind p k s = k x s'"
  by (simp_all add: fbind_def)

subsection \<open>The handle\<close>

definition the_handle :: "('w, bytes) fop" where
  "the_handle = fask (\<lambda>f. flift (case fs_handle f of None \<Rightarrow> Inl ValueError | Some h \<Rightarrow> Inr h))"

definition split_path :: "bool \<Rightarrow> file_state \<Rightarrow> int" where
  "split_path write f = (if write then 0 else fs_pathid f)"

definition bulk :: "'w executor \<Rightarrow> (bytes \<Rightarrow> int \<Rightarrow> request) \<Rightarrow> bool \<Rightarrow> ('w, bytes) fop" where
  "bulk exe build write =
     fbind the_handle (\<lambda>h. fask (\<lambda>f. call_router exe (build h (split_path write f))))"

definition invalidate :: "int \<Rightarrow> bool \<Rightarrow> ('w, unit) fop" where
  "invalidate high exact =
     fupd (\<lambda>f. f\<lparr>fs_size_hint := if exact then high else max (fs_size_hint f) high, fs_stat := None\<rparr>)"

definition submit_write :: "'w executor \<Rightarrow> request \<Rightarrow> ('w, bytes) fop" where
  "submit_write exe req = fask (\<lambda>f.
     if fs_checkpoint f
     then fbind the_handle (\<lambda>h. fbind (flift (ChkPoint_execute h req)) (call_router exe))
     else call_router exe req)"

subsection \<open>Reading\<close>

definition read_one :: "'w executor \<Rightarrow> int \<Rightarrow> int \<Rightarrow> ('w, bytes) fop" where
  "read_one exe offset len = bulk exe (\<lambda>h pid. Read h offset len pid) False"

text \<open>The loop of \<open>_event_read\<close>: what is still appended to \<open>parts\<close>.\<close>

function read_loop :: "'w executor \<Rightarrow> int \<Rightarrow> int \<Rightarrow> int \<Rightarrow> ('w, bytes) fop" where
  "read_loop exe limit at togo =
     (if togo \<le> 0 \<or> limit < 1 then fret []
      else fbind (read_one exe at (min togo limit)) (\<lambda>chunk.
           if int (length chunk) < min togo limit then fret chunk
           else fbind (read_loop exe limit (at + min togo limit) (togo - min togo limit))
                  (\<lambda>rest. fret (chunk @ rest))))"
  by auto
termination by (relation "measure (\<lambda>(_, _, _, togo). nat togo)") auto

declare read_loop.simps [simp del]

definition event_read :: "'w executor \<Rightarrow> int \<Rightarrow> int \<Rightarrow> int \<Rightarrow> ('w, bytes) fop" where
  "event_read exe limit len offset =
     (if len \<le> limit then read_one exe offset len else read_loop exe limit offset len)"

text \<open>\<open>__iter__\<close>, as far as \<open>n\<close> blocks; \<open>None\<close> when the file has not ended by then.\<close>

fun iter_blocks :: "'w executor \<Rightarrow> int \<Rightarrow> nat \<Rightarrow> int \<Rightarrow> ('w, bytes list option) fop" where
  "iter_blocks exe limit 0 offset = fret None"
| "iter_blocks exe limit (Suc n) offset =
     fbind (event_read exe limit limit offset) (\<lambda>chunk.
       if chunk = [] then fret (Some [])
       else fbind (iter_blocks exe limit n (offset + int (length chunk))) (\<lambda>r.
              fret (map_option ((#) chunk) r)))"

text \<open>\<open>_readv_bodies\<close> on the event path.\<close>

fun fmap :: "('a \<Rightarrow> ('w, 'b) fop) \<Rightarrow> 'a list \<Rightarrow> ('w, 'b list) fop" where
  "fmap p [] = fret []"
| "fmap p (x # xs) = fbind (p x) (\<lambda>y. fbind (fmap p xs) (\<lambda>ys. fret (y # ys)))"

definition readv_body :: "'w executor \<Rightarrow> read_range list \<Rightarrow> ('w, bytes) fop" where
  "readv_body exe b = fbind the_handle (\<lambda>h. fask (\<lambda>f. call_router exe (readv_for b (fs_pathid f) h)))"

definition readv_bodies :: "'w executor \<Rightarrow> read_range list \<Rightarrow> ('w, bytes list) fop" where
  "readv_bodies exe ps = fmap (readv_body exe) (batches ps)"

definition readv :: "'w executor \<Rightarrow> read_range list \<Rightarrow> ('w, bytes list) fop" where
  "readv exe wanted =
     (if wanted = [] then fret []
      else if \<forall>r \<in> set wanted. rr_length r \<le> READV_MAX_ELEMENT
      then fbind (readv_bodies exe wanted) (\<lambda>bodies. flift (elements_of bodies wanted))
      else fbind (readv_bodies exe (concat (map pieces wanted))) (\<lambda>bodies. flift (assembled_of bodies wanted)))"

record page_result =
  pr_data :: bytes
  pr_offset :: int
  pr_corrupt :: "int list"

definition pgread :: "(bytes \<Rightarrow> 32 word) \<Rightarrow> 'w executor \<Rightarrow> int \<Rightarrow> int \<Rightarrow> bool \<Rightarrow> ('w, page_result) fop" where
  "pgread crc exe len offset verify =
     fbind the_handle (\<lambda>h. fask (\<lambda>f.
     fbind (call_router exe (PgRead_init h offset len False (fs_pathid f))) (\<lambda>reply.
       case unpack_pages crc reply offset of (data, corrupt) \<Rightarrow>
         fret \<lparr>pr_data = data, pr_offset = offset, pr_corrupt = (if verify then corrupt else [])\<rparr>)))"

subsection \<open>Sequential readahead\<close>

definition MAX_AHEAD :: int where "MAX_AHEAD = 8388608"

definition sequential ::
  "int \<Rightarrow> (int \<Rightarrow> int \<Rightarrow> ('w, bytes option) fop) \<Rightarrow> int \<Rightarrow> int \<Rightarrow> ('w, bytes option) fop" where
  "sequential readahead plane len offset = fask (\<lambda>f.
     case fs_ahead f of (start, block) \<Rightarrow>
       if start \<le> offset \<and> offset + len \<le> start + int (length block)
       then fbind (fupd (\<lambda>f. f\<lparr>fs_sequel := offset + len\<rparr>)) (\<lambda>_.
            fret (Some (take (nat len) (drop (nat (offset - start)) block))))
       else if offset \<noteq> fs_sequel f
       then fbind (fupd (\<lambda>f. f\<lparr>fs_sequel := offset + len, fs_window := readahead\<rparr>)) (\<lambda>_. plane len offset)
       else fbind (fupd (\<lambda>f. f\<lparr>fs_sequel := offset + len, fs_window := min (fs_window f * 2) MAX_AHEAD\<rparr>)) (\<lambda>_.
            fbind (plane (len + fs_window f) offset) (\<lambda>got.
              case got of
                None \<Rightarrow> fret None
              | Some data \<Rightarrow> fbind (fupd (\<lambda>f. f\<lparr>fs_ahead := (offset, data)\<rparr>)) (\<lambda>_.
                               fret (Some (take (nat len) data))))))"

subsection \<open>Writing\<close>

definition write_one :: "'w executor \<Rightarrow> int \<Rightarrow> bytes \<Rightarrow> ('w, bytes) fop" where
  "write_one exe at piece = fask (\<lambda>f.
     if fs_checkpoint f
     then fbind the_handle (\<lambda>h. submit_write exe (Write h at piece (split_path True f)))
     else bulk exe (\<lambda>h pid. Write h at piece pid) True)"

function write_loop :: "'w executor \<Rightarrow> int \<Rightarrow> int \<Rightarrow> bytes \<Rightarrow> ('w, unit) fop" where
  "write_loop exe limit at view =
     (if view = [] \<or> limit < 1 then fret ()
      else fbind (write_one exe at (take (nat limit) view)) (\<lambda>_.
           write_loop exe limit (at + int (length (take (nat limit) view))) (drop (nat limit) view)))"
  by auto
termination by (relation "measure (\<lambda>(_, _, _, view). length view)") auto

declare write_loop.simps [simp del]

definition event_write :: "'w executor \<Rightarrow> int \<Rightarrow> bytes \<Rightarrow> int \<Rightarrow> ('w, int) fop" where
  "event_write exe limit view offset =
     fbind (write_loop exe limit offset view) (\<lambda>_.
     fbind (invalidate (offset + int (length view)) False) (\<lambda>_. fret (int (length view))))"

text \<open>\<open>_stream_serially\<close> without hooks: each piece where the one before ended.\<close>

fun stream_serially :: "'w executor \<Rightarrow> int \<Rightarrow> bytes list \<Rightarrow> int \<Rightarrow> int \<Rightarrow> ('w, int) fop" where
  "stream_serially exe limit [] offset sofar = fret sofar"
| "stream_serially exe limit (view # source) offset sofar =
     fbind (event_write exe limit view (offset + sofar)) (\<lambda>count.
       stream_serially exe limit source offset (sofar + count))"

definition pgwrite_once :: "(bytes \<Rightarrow> 32 word) \<Rightarrow> 'w executor \<Rightarrow> bytes \<Rightarrow> int \<Rightarrow> bool \<Rightarrow> ('w, int list) fop" where
  "pgwrite_once crc exe data offset retry =
     fbind the_handle (\<lambda>h. fask (\<lambda>f.
     fbind (submit_write exe (PgWrite_init h offset (pack_pages crc data offset) retry (split_path True f))) (\<lambda>reply.
       if reply \<noteq> [] then flift (parse_pgwrite_cse reply) else fret [])))"

fun retry_loop :: "(bytes \<Rightarrow> 32 word) \<Rightarrow> 'w executor \<Rightarrow> nat \<Rightarrow> bytes \<Rightarrow> int \<Rightarrow> ('w, unit) fop" where
  "retry_loop crc exe 0 page at = flift (Inl (PageIntegrityError at PGW_MAX_RETRY))"
| "retry_loop crc exe (Suc n) page at =
     fbind (pgwrite_once crc exe page at True) (\<lambda>bad.
       if bad = [] then fret () else retry_loop crc exe n page at)"

definition pgwrite_retry :: "(bytes \<Rightarrow> 32 word) \<Rightarrow> 'w executor \<Rightarrow> bytes \<Rightarrow> int \<Rightarrow> int \<Rightarrow> ('w, unit) fop" where
  "pgwrite_retry crc exe data base page_offset =
     (let start = page_offset - base
      in if \<not> (0 \<le> start \<and> start < int (length data)) then flift (Inl ProtocolError)
         else retry_loop crc exe (nat PGW_MAX_RETRY)
                (take (nat (page_span page_offset (int (length data) - start))) (drop (nat start) data))
                page_offset)"

fun pgwrite_all :: "(bytes \<Rightarrow> 32 word) \<Rightarrow> 'w executor \<Rightarrow> bytes \<Rightarrow> int \<Rightarrow> int list \<Rightarrow> ('w, unit) fop" where
  "pgwrite_all crc exe data base [] = fret ()"
| "pgwrite_all crc exe data base (p # ps) =
     fbind (pgwrite_retry crc exe data base p) (\<lambda>_. pgwrite_all crc exe data base ps)"

definition pgwrite :: "(bytes \<Rightarrow> 32 word) \<Rightarrow> 'w executor \<Rightarrow> bytes \<Rightarrow> int \<Rightarrow> ('w, int) fop" where
  "pgwrite crc exe data offset =
     (if data = [] then fret 0
      else fbind (pgwrite_once crc exe data offset False) (\<lambda>corrupt.
           fbind (pgwrite_all crc exe data offset corrupt) (\<lambda>_.
           fbind (invalidate (offset + int (length data)) False) (\<lambda>_.
             fret (int (length data))))))"

definition truncate_file :: "'w executor \<Rightarrow> int \<Rightarrow> ('w, int) fop" where
  "truncate_file exe len =
     fbind the_handle (\<lambda>h.
     fbind (submit_write exe (Truncate [] len h)) (\<lambda>_.
     fbind (invalidate len True) (\<lambda>_. fret len)))"

text \<open>\<open>writev\<close>: the batches, the bytes they hold and the highest offset they reach.\<close>

definition writev_request :: "bytes \<Rightarrow> bool \<Rightarrow> write_chunk list \<Rightarrow> request" where
  "writev_request h sync batch = WriteV_init (map (\<lambda>ch. (h, wc_offset ch, wc_data ch)) batch) sync"

fun writev_loop :: "'w executor \<Rightarrow> bool \<Rightarrow> write_chunk list list \<Rightarrow> ('w, unit) fop" where
  "writev_loop exe sync [] = fret ()"
| "writev_loop exe sync (b # bs) =
     fbind the_handle (\<lambda>h.
     fbind (call_router exe (writev_request h sync b)) (\<lambda>_. writev_loop exe sync bs))"

definition writev :: "'w executor \<Rightarrow> write_chunk list \<Rightarrow> bool \<Rightarrow> ('w, int) fop" where
  "writev exe items sync =
     (if items = [] then fret 0
      else fask (\<lambda>f.
        if fs_checkpoint f then flift (Inl (ServerException UnsupportedError kXR_Unsupported
          (str ''kXR_writev cannot be checkpointed; write, pgwrite and truncate can'') None))
        else
          let sent = concat (write_batches items);
              total = sum_list (map chunk_size sent);
              high = fold (\<lambda>ch h. max h (wc_offset ch + chunk_size ch)) sent 0
          in fbind (writev_loop exe sync (write_batches items)) (\<lambda>_.
             fbind (invalidate high False) (\<lambda>_. fret total))))"

subsection \<open>Writing over a string\<close>

text \<open>What a file holds after \<open>d\<close> was stored at \<open>off\<close>; storing nothing does nothing.\<close>

definition overwrite :: "bytes \<Rightarrow> nat \<Rightarrow> bytes \<Rightarrow> bytes" where
  "overwrite old off d =
     (if d = [] then old
      else take off (old @ replicate (off - length old) 0) @ d @ drop (off + length d) old)"

lemma overwrite_Nil [simp]: "overwrite old off [] = old"
  by (simp add: overwrite_def)

lemma length_overwrite:
  "length (overwrite old off d) = (if d = [] then length old else max (length old) (off + length d))"
  by (auto simp: overwrite_def max_def)

lemma nth_overwrite:
  assumes "i < length (overwrite old off d)"
  shows "overwrite old off d ! i =
     (if off \<le> i \<and> i < off + length d then d ! (i - off) else if i < length old then old ! i else 0)"
  using assms by (auto simp: overwrite_def nth_append min_def split: if_splits)

lemma overwrite_eqI:
  assumes "length xs = length (overwrite old off d)"
    and "\<And>i. i < length xs \<Longrightarrow> xs ! i =
      (if off \<le> i \<and> i < off + length d then d ! (i - off) else if i < length old then old ! i else 0)"
  shows "xs = overwrite old off d"
  using assms by (intro nth_equalityI) (simp_all add: nth_overwrite)

lemma overwrite_append: "overwrite (overwrite old off a) (off + length a) b = overwrite old off (a @ b)"
  by (cases "a = [] \<or> b = []")
     (auto intro!: overwrite_eqI simp: length_overwrite nth_overwrite nth_append max_def)

lemma overwrite_inside:
  assumes "k + length p \<le> length d"
  shows "overwrite (overwrite old off d) (off + k) p = overwrite old off (take k d @ p @ drop (k + length p) d)"
  using assms
  by (cases "p = []")
     (auto intro!: overwrite_eqI simp: length_overwrite nth_overwrite nth_append max_def min_def)

lemma slice_of_overwrite: "take (length d) (drop off (overwrite old off d)) = d"
  by (cases "d = []") (auto simp: overwrite_def)

lemma prefix_rest: "take k xs @ drop (length (take k xs)) xs = xs"
  by (simp add: min_def)

lemma slice_split:
  assumes "0 \<le> at" "0 \<le> n" "n \<le> len"
  shows "file_slice file (ReadRange at n) @ file_slice file (ReadRange (at + n) (len - n)) = file_slice file (ReadRange at len)"
proof -
  have "nat len = nat n + nat (len - n)" using assms by (simp flip: nat_add_distrib)
  then show ?thesis
    using assms by (simp add: file_slice_def ReadRange_def take_add nat_add_distrib add.commute)
qed

subsection \<open>A remote file\<close>

text \<open>A handle the transfers run on: open, outside a checkpoint, without a data path.\<close>

definition plain :: "bytes \<Rightarrow> file_state \<Rightarrow> bool" where
  "plain fh f \<longleftrightarrow> fs_handle f = Some fh \<and> \<not> fs_checkpoint f \<and> fs_pathid f = 0"

text \<open>What a server promises about reads, writes and truncation of one open file, whose bytes are
  \<open>content w\<close> while the connection is \<open>alive\<close>. Offsets are those of a 64-bit file, a reply is no
  longer than the client accepts, a request no longer than it may send.\<close>

locale remote_file =
  fixes exe :: "'w executor" and fh :: bytes and content :: "'w \<Rightarrow> bytes" and alive :: "'w \<Rightarrow> bool"
  assumes read_law:
      "alive w \<Longrightarrow> 0 \<le> off \<Longrightarrow> off < 2 ^ 63 \<Longrightarrow> 0 \<le> len \<Longrightarrow> len \<le> MAX_RESPONSE_BODY \<Longrightarrow>
       \<exists>w'. exe (Read fh off len 0) w = (w', Inr (file_slice (content w) (ReadRange off len))) \<and>
         alive w' \<and> content w' = content w"
    and write_law:
      "alive w \<Longrightarrow> 0 \<le> off \<Longrightarrow> off < 2 ^ 63 \<Longrightarrow> int (length d) \<le> MAX_FRAME_PAYLOAD \<Longrightarrow>
       \<exists>w'. exe (Write fh off d 0) w = (w', Inr []) \<and> alive w' \<and>
         content w' = overwrite (content w) (nat off) d"
    and truncate_law:
      "alive w \<Longrightarrow> 0 \<le> len \<Longrightarrow> len < 2 ^ 63 \<Longrightarrow>
       \<exists>w'. exe (Truncate [] len fh) w = (w', Inr []) \<and> alive w' \<and>
         content w' = take (nat len) (content w) @ replicate (nat len - length (content w)) 0"
begin

lemma read_one_ok:
  assumes "plain fh f" "alive w" "0 \<le> off" "off < 2 ^ 63" "0 \<le> len" "len \<le> MAX_RESPONSE_BODY"
  obtains w' where "read_one exe off len (f, w) = ((f, w'), Inr (file_slice (content w) (ReadRange off len)))"
    "alive w'" "content w' = content w"
  using read_law [OF assms(2-6)] assms(1)
  by (auto simp: read_one_def bulk_def the_handle_def plain_def split_path_def call_router_def)

lemma read_loop_ok:
  assumes "plain fh f" "alive w" "0 \<le> at" "at + togo < 2 ^ 63" "1 \<le> limit" "limit \<le> MAX_RESPONSE_BODY"
  shows "\<exists>w'. read_loop exe limit at togo (f, w) = ((f, w'), Inr (file_slice (content w) (ReadRange at togo))) \<and>
    alive w' \<and> content w' = content w"
  using assms
proof (induction "nat togo" arbitrary: at togo w rule: less_induct)
  case less
  show ?case
  proof (cases "togo \<le> 0")
    case True
    then show ?thesis using less.prems by (subst read_loop.simps) (auto simp: file_slice_def ReadRange_def)
  next
    case False
    let ?n = "min togo limit" and ?file = "content w"
    obtain w1 where one: "read_one exe at ?n (f, w) = ((f, w1), Inr (file_slice ?file (ReadRange at ?n)))"
      "alive w1" "content w1 = ?file"
      by (rule read_one_ok [of f w at ?n]) (use less.prems False in auto)
    show ?thesis
    proof (cases "int (length (file_slice ?file (ReadRange at ?n))) < ?n")
      case True
      then have "file_slice ?file (ReadRange at ?n) = file_slice ?file (ReadRange at togo)"
        using False by (auto simp: file_slice_def ReadRange_def min_def split: if_splits)
      then show ?thesis using True False less.prems one by (subst read_loop.simps) simp
    next
      case full: False
      obtain w2 where rest: "read_loop exe limit (at + ?n) (togo - ?n) (f, w1)
          = ((f, w2), Inr (file_slice ?file (ReadRange (at + ?n) (togo - ?n))))" "alive w2" "content w2 = ?file"
        using less.hyps [of "togo - ?n" w1 "at + ?n"] less.prems False one by auto
      have "file_slice ?file (ReadRange at ?n) @ file_slice ?file (ReadRange (at + ?n) (togo - ?n))
          = file_slice ?file (ReadRange at togo)"
        using less.prems(3,5) False by (intro slice_split) auto
      then show ?thesis using full False less.prems one rest by (subst read_loop.simps) auto
    qed
  qed
qed

lemma event_read_ok:
  assumes "plain fh f" "alive w" "0 \<le> off" "off + len < 2 ^ 63" "0 \<le> len" "1 \<le> limit" "limit \<le> MAX_RESPONSE_BODY"
  obtains w' where "event_read exe limit len off (f, w) = ((f, w'), Inr (file_slice (content w) (ReadRange off len)))"
    "alive w'" "content w' = content w"
proof (cases "len \<le> limit")
  case True
  obtain w' where "read_one exe off len (f, w) = ((f, w'), Inr (file_slice (content w) (ReadRange off len)))"
    "alive w'" "content w' = content w"
    by (rule read_one_ok [of f w off len]) (use assms True in auto)
  then show ?thesis using that [of w'] True by (simp add: event_read_def)
next
  case False
  then show ?thesis using read_loop_ok [OF assms(1-4,6,7)] that by (auto simp: event_read_def)
qed

text \<open>A slice of a whole block is empty only at the end of the file.\<close>

lemma iter_blocks_ok:
  assumes "plain fh f" "alive w" "0 \<le> off" "int (length (content w)) + limit < 2 ^ 63" "off \<le> int (length (content w))"
    and "1 \<le> limit" "limit \<le> MAX_RESPONSE_BODY" "length (content w) < n + nat off"
  shows "\<exists>w' bs. iter_blocks exe limit n off (f, w) = ((f, w'), Inr (Some bs)) \<and> alive w' \<and> content w' = content w \<and>
    concat bs = drop (nat off) (content w)"
  using assms
proof (induction n arbitrary: off w)
  case 0
  then show ?case by simp
next
  case (Suc n)
  let ?c = "file_slice (content w) (ReadRange off limit)"
  have c: "?c = take (nat limit) (drop (nat off) (content w))" by (simp add: file_slice_def ReadRange_def)
  obtain w1 where r: "event_read exe limit limit off (f, w) = ((f, w1), Inr ?c)" "alive w1" "content w1 = content w"
    by (rule event_read_ok [of f w off limit limit]) (use Suc.prems in auto)
  show ?case
  proof (cases "?c = []")
    case True
    then have "drop (nat off) (content w) = []" using c Suc.prems(6) by simp
    then show ?thesis using True r by auto
  next
    case False
    then have pos: "0 < length ?c" by simp
    have "off + int (length ?c) \<le> int (length (content w))" using c Suc.prems(3,5) by simp
    then obtain w2 bs where "iter_blocks exe limit n (off + int (length ?c)) (f, w1) = ((f, w2), Inr (Some bs))"
      "alive w2" "content w2 = content w" "concat bs = drop (nat (off + int (length ?c))) (content w)"
      using Suc.IH [of w1 "off + int (length ?c)"] Suc.prems r pos by (auto simp: nat_add_distrib)
    moreover have "?c @ drop (nat (off + int (length ?c))) (content w) = drop (nat off) (content w)"
      using prefix_rest [of "nat limit" "drop (nat off) (content w)"] c Suc.prems(3)
      by (simp add: nat_add_distrib add.commute)
    ultimately show ?thesis using False r by (intro exI [of _ w2] exI [of _ "?c # bs"]) simp
  qed
qed

lemma write_loop_ok:
  assumes "plain fh f" "alive w" "0 \<le> at" "at + int (length view) < 2 ^ 63" "1 \<le> limit" "limit \<le> MAX_FRAME_PAYLOAD"
  shows "\<exists>w'. write_loop exe limit at view (f, w) = ((f, w'), Inr ()) \<and> alive w' \<and>
    content w' = overwrite (content w) (nat at) view"
  using assms
proof (induction "length view" arbitrary: at view w rule: less_induct)
  case less
  show ?case
  proof (cases "view = []")
    case True
    then show ?thesis using less.prems by (subst write_loop.simps) auto
  next
    case False
    let ?p = "take (nat limit) view"
    have "length ?p \<le> nat limit" by simp
    then have "int (length ?p) \<le> MAX_FRAME_PAYLOAD" using less.prems(6) by linarith
    then obtain w1 where one: "exe (Write fh at ?p 0) w = (w1, Inr [])" "alive w1"
      "content w1 = overwrite (content w) (nat at) ?p"
      using write_law [of w at ?p] less.prems by auto
    then have "write_one exe at ?p (f, w) = ((f, w1), Inr [])"
      using less.prems(1) by (simp add: write_one_def plain_def bulk_def the_handle_def split_path_def call_router_def)
    moreover obtain w2 where "write_loop exe limit (at + int (length ?p)) (drop (nat limit) view) (f, w1) = ((f, w2), Inr ())"
      "alive w2" "content w2 = overwrite (content w1) (nat (at + int (length ?p))) (drop (nat limit) view)"
    proof -
      have "int (length ?p) + int (length (drop (nat limit) view)) = int (length view)" by auto
      then show ?thesis
        using that less.hyps [of "drop (nat limit) view" w1 "at + int (length ?p)"] less.prems one(2) False by auto
    qed
    moreover have "overwrite (content w1) (nat (at + int (length ?p))) (drop (nat limit) view) = overwrite (content w) (nat at) view"
      using overwrite_append [of "content w" "nat at" ?p "drop (nat limit) view"] less.prems(3) one(3)
      by (simp add: nat_add_distrib)
    ultimately show ?thesis using False less.prems(5) by (subst write_loop.simps) simp
  qed
qed

lemma event_write_ok:
  assumes "plain fh f" "alive w" "0 \<le> off" "off + int (length view) < 2 ^ 63" "1 \<le> limit" "limit \<le> MAX_FRAME_PAYLOAD"
  obtains f' w' where "event_write exe limit view off (f, w) = ((f', w'), Inr (int (length view)))" "plain fh f'"
    "alive w'" "content w' = overwrite (content w) (nat off) view"
proof -
  obtain w' where "write_loop exe limit off view (f, w) = ((f, w'), Inr ())" "alive w'"
    "content w' = overwrite (content w) (nat off) view"
    using write_loop_ok [OF assms] by blast
  then show ?thesis
    using that assms(1) by (simp add: event_write_def invalidate_def plain_def)
qed

lemma stream_serially_ok:
  assumes "plain fh f" "alive w" "0 \<le> off" "0 \<le> sofar" "off + sofar + int (length (concat source)) < 2 ^ 63"
    and "1 \<le> limit" "limit \<le> MAX_FRAME_PAYLOAD"
  shows "\<exists>f' w'. stream_serially exe limit source off sofar (f, w) = ((f', w'), Inr (sofar + int (length (concat source)))) \<and>
    plain fh f' \<and> alive w' \<and> content w' = overwrite (content w) (nat (off + sofar)) (concat source)"
  using assms
proof (induction source arbitrary: f w sofar)
  case (Cons v source)
  obtain f1 w1 where one: "event_write exe limit v (off + sofar) (f, w) = ((f1, w1), Inr (int (length v)))"
    "plain fh f1" "alive w1" "content w1 = overwrite (content w) (nat (off + sofar)) v"
    by (rule event_write_ok [of f w "off + sofar" v limit]) (use Cons.prems in auto)
  obtain f2 w2 where "stream_serially exe limit source off (sofar + int (length v)) (f1, w1)
      = ((f2, w2), Inr (sofar + int (length v) + int (length (concat source))))"
    "plain fh f2" "alive w2" "content w2 = overwrite (content w1) (nat (off + (sofar + int (length v)))) (concat source)"
    using Cons.IH [OF one(2,3), of "sofar + int (length v)"] Cons.prems by auto
  moreover have "nat (off + (sofar + int (length v))) = nat (off + sofar) + length v"
    using Cons.prems(3,4) by simp
  ultimately show ?case
    using one overwrite_append [of "content w" "nat (off + sofar)" v "concat source"] by (simp add: algebra_simps)
qed auto

lemma truncate_ok:
  assumes "plain fh f" "alive w" "0 \<le> len" "len < 2 ^ 63"
  obtains f' w' where "truncate_file exe len (f, w) = ((f', w'), Inr len)" "plain fh f'" "alive w'"
    "content w' = take (nat len) (content w) @ replicate (nat len - length (content w)) 0" "fs_size_hint f' = len"
  using truncate_law [OF assms(2-4)] assms(1)
  by (auto simp: truncate_file_def the_handle_def plain_def submit_write_def call_router_def invalidate_def)

end

subsection \<open>Vector reads of a remote file\<close>

text \<open>A vector request within the ceilings the batches keep is answered range by range, in the
  order asked.\<close>

locale vector_file = remote_file +
  assumes readv_law:
    "alive w \<Longrightarrow> \<forall>r \<in> set b. 0 \<le> rr_offset r \<and> rr_offset r < 2 ^ 63 \<and> 0 \<le> rr_length r \<Longrightarrow>
     length b \<le> READV_MAX_CHUNKS \<Longrightarrow> sum_list (map rr_length b) \<le> READV_MAX_BYTES \<Longrightarrow>
     \<exists>w' body. exe (readv_for b 0 fh) w = (w', Inr body) \<and> walk body = (honest (content w) b, None) \<and>
       alive w' \<and> content w' = content w"
begin

lemma readv_batches_ok:
  assumes "plain fh f" "alive w" "\<forall>r \<in> set (concat bs). 0 \<le> rr_offset r \<and> rr_offset r < 2 ^ 63 \<and> 0 \<le> rr_length r"
    and "\<forall>b \<in> set bs. length b \<le> READV_MAX_CHUNKS \<and> sum_list (map rr_length b) \<le> READV_MAX_BYTES"
  shows "\<exists>w' bodies. fmap (readv_body exe) bs (f, w) = ((f, w'), Inr bodies) \<and> alive w' \<and> content w' = content w \<and>
    (\<forall>b \<in> set bodies. snd (walk b) = None) \<and> segments bodies = honest (content w) (concat bs)"
  using assms
proof (induction bs arbitrary: w)
  case Nil
  then show ?case by (auto simp: segments_def honest_def)
next
  case (Cons b bs)
  obtain w1 body where one: "exe (readv_for b 0 fh) w = (w1, Inr body)" "walk body = (honest (content w) b, None)"
    "alive w1" "content w1 = content w"
    using readv_law [of w b] Cons.prems by auto
  obtain w2 bodies where "fmap (readv_body exe) bs (f, w1) = ((f, w2), Inr bodies)" "alive w2" "content w2 = content w"
    "\<forall>b \<in> set bodies. snd (walk b) = None" "segments bodies = honest (content w) (concat bs)"
    using Cons.IH [of w1] Cons.prems one by auto
  moreover have "readv_body exe b (f, w) = ((f, w1), Inr body)"
    using one(1) Cons.prems(1) by (simp add: readv_body_def the_handle_def plain_def call_router_def)
  ultimately show ?case using one(2) by (auto simp: segments_def honest_def)
qed

lemma readv_bodies_ok:
  assumes "plain fh f" "alive w" "\<forall>r \<in> set ps. 0 \<le> rr_offset r \<and> rr_offset r < 2 ^ 63 \<and> 0 \<le> rr_length r"
    and "\<forall>r \<in> set ps. rr_length r \<le> READV_MAX_ELEMENT"
  obtains w' bodies where "readv_bodies exe ps (f, w) = ((f, w'), Inr bodies)" "alive w'" "content w' = content w"
    "\<forall>b \<in> set bodies. snd (walk b) = None" "segments bodies = honest (content w) ps"
  using readv_batches_ok [OF assms(1,2), of "batches ps"] assms(3,4) batch_limits [OF _ assms(4)]
  by (auto simp: readv_bodies_def batches_concat)

lemma pieces_range:
  assumes "p \<in> set (pieces r)" "0 \<le> rr_offset r" "0 \<le> rr_length r" "rr_offset r + rr_length r < 2 ^ 63"
  shows "0 \<le> rr_offset p \<and> rr_offset p < 2 ^ 63 \<and> 0 \<le> rr_length p \<and> rr_length p \<le> READV_MAX_ELEMENT"
  using assms by (auto simp: pieces_def dest: piece_loop_bounds split: if_splits)

lemma readv_ok:
  assumes "plain fh f" "alive w" "\<forall>r \<in> set wanted. 0 \<le> rr_offset r \<and> 0 \<le> rr_length r \<and> rr_offset r + rr_length r < 2 ^ 63"
  obtains w' where "readv exe wanted (f, w) = ((f, w'), Inr (map (file_slice (content w)) wanted))"
    "alive w'" "content w' = content w"
proof (cases "\<forall>r \<in> set wanted. rr_length r \<le> READV_MAX_ELEMENT")
  case True
  obtain w' bodies where b: "readv_bodies exe wanted (f, w) = ((f, w'), Inr bodies)" "alive w'" "content w' = content w"
    "\<forall>b \<in> set bodies. snd (walk b) = None" "segments bodies = honest (content w) wanted"
    by (rule readv_bodies_ok [OF assms(1,2) _ True]) (use assms(3) in force)
  have e: "elements_of bodies wanted = Inr (map (file_slice (content w)) wanted)"
    using elements_of_honest [OF _ b(4,5)] assms(3) by blast
  show ?thesis
  proof (cases "wanted = []")
    case True
    then show ?thesis by (intro that [of w]) (simp_all add: readv_def assms(2))
  next
    case False
    then show ?thesis using True by (intro that [of w']) (simp_all add: readv_def b(1-3) e)
  qed
next
  case False
  have ps: "0 \<le> rr_offset p \<and> rr_offset p < 2 ^ 63 \<and> 0 \<le> rr_length p \<and> rr_length p \<le> READV_MAX_ELEMENT"
    if "p \<in> set (concat (map pieces wanted))" for p
  proof -
    obtain r where "r \<in> set wanted" "p \<in> set (pieces r)" using \<open>p \<in> _\<close> by auto
    then show ?thesis using assms(3) pieces_range by blast
  qed
  obtain w' bodies where b: "readv_bodies exe (concat (map pieces wanted)) (f, w) = ((f, w'), Inr bodies)" "alive w'"
    "content w' = content w" "\<forall>b \<in> set bodies. snd (walk b) = None"
    "segments bodies = honest (content w) (concat (map pieces wanted))"
    by (rule readv_bodies_ok [OF assms(1,2), of "concat (map pieces wanted)"]) (use ps in blast)+
  have "assembled_of bodies wanted = Inr (map (file_slice (content w)) wanted)"
    using assembled_of_honest [OF _ b(4,5)] assms(3) by blast
  moreover have "wanted \<noteq> []" using False by auto
  ultimately show ?thesis using False by (intro that [of w']) (simp_all only: readv_def if_False fbind_simps(2) b(1-3) fop_simps)
qed

end

subsection \<open>Paged I/O of a remote file\<close>

text \<open>The bytes of a paged write of \<open>n\<close> bytes at \<open>off\<close> that lie in a page the server reported.\<close>

definition reported :: "int list \<Rightarrow> int \<Rightarrow> nat \<Rightarrow> nat \<Rightarrow> bool" where
  "reported bad off n i \<longleftrightarrow>
     (\<exists>p \<in> set bad. p \<le> off + int i \<and> off + int i < p + page_span p (off + int n - p))"

text \<open>A paged read returns the file's bytes framed with their checksums. A paged write stores as
  many bytes as it was sent, at the offset it names, and reports the pages it did not get
  intact: a byte in no reported page is the byte that was sent. Nothing is promised of the
  bytes of a reported page.\<close>

locale paged_file = remote_file +
  fixes crc :: "bytes \<Rightarrow> 32 word"
  assumes pgread_law:
      "alive w \<Longrightarrow> 0 \<le> off \<Longrightarrow> off < 2 ^ 63 \<Longrightarrow> 0 \<le> len \<Longrightarrow> len \<le> 1000000000 \<Longrightarrow>
       \<exists>w'. exe (PgRead_init fh off len False 0) w
           = (w', Inr (pack_pages crc (file_slice (content w) (ReadRange off len)) off)) \<and>
         alive w' \<and> content w' = content w"
    and pgwrite_law:
      "alive w \<Longrightarrow> 0 \<le> off \<Longrightarrow> off + int (length d) < 2 ^ 63 \<Longrightarrow> d \<noteq> [] \<Longrightarrow> length d \<le> 1000000000 \<Longrightarrow>
       \<exists>w' reply d' bad. exe (PgWrite_init fh off (pack_pages crc d off) retry 0) w = (w', Inr reply) \<and>
         (if reply = [] then bad = [] else parse_pgwrite_cse reply = Inr bad \<and> bad \<noteq> []) \<and>
         alive w' \<and> content w' = overwrite (content w) (nat off) d' \<and> length d' = length d \<and>
         (\<forall>i < length d. \<not> reported bad off (length d) i \<longrightarrow> d' ! i = d ! i)"
begin

lemma pgread_ok:
  assumes "plain fh f" "alive w" "0 \<le> off" "off < 2 ^ 63" "0 \<le> len" "len \<le> 1000000000"
  obtains w' where "pgread crc exe len off verify (f, w)
      = ((f, w'), Inr \<lparr>pr_data = file_slice (content w) (ReadRange off len), pr_offset = off, pr_corrupt = []\<rparr>)"
    "alive w'" "content w' = content w"
  using pgread_law [OF assms(2-6)] assms(1)
  by (auto simp: pgread_def the_handle_def plain_def call_router_def unpack_pages_def pack_pages_def
      unpack_pack_loop first_page_bounds)

lemma pgwrite_once_ok:
  assumes "plain fh f" "alive w" "0 \<le> off" "off + int (length d) < 2 ^ 63" "d \<noteq> []" "length d \<le> 1000000000"
  obtains w' d' bad where "pgwrite_once crc exe d off retry (f, w) = ((f, w'), Inr bad)" "alive w'"
    "content w' = overwrite (content w) (nat off) d'" "length d' = length d"
    "\<forall>i < length d. \<not> reported bad off (length d) i \<longrightarrow> d' ! i = d ! i"
proof -
  obtain w' reply d' bad where "exe (PgWrite_init fh off (pack_pages crc d off) retry 0) w = (w', Inr reply)"
    "if reply = [] then bad = [] else parse_pgwrite_cse reply = Inr bad \<and> bad \<noteq> []"
    "alive w'" "content w' = overwrite (content w) (nat off) d'" "length d' = length d"
    "\<forall>i < length d. \<not> reported bad off (length d) i \<longrightarrow> d' ! i = d ! i"
    using pgwrite_law [OF assms(2-6), of retry] by blast
  then show ?thesis
    using assms(1) by (intro that [of w' bad d'])
      (auto simp: pgwrite_once_def the_handle_def plain_def submit_write_def call_router_def split_path_def split: if_splits)
qed

lemma not_reported_Nil [simp]: "\<not> reported [] off n i"
  by (simp add: reported_def)

lemma retry_loop_ok:
  assumes "plain fh f" "alive w" "0 \<le> at" "at + int (length page) < 2 ^ 63" "page \<noteq> []" "length page \<le> 1000000000"
    and "retry_loop crc exe n page at (f, w) = (s', r)"
  shows "\<exists>w' got. s' = (f, w') \<and> alive w' \<and> (r = Inr () \<longrightarrow> got = page) \<and> length got = length page \<and>
    (n = 0 \<and> w' = w \<or> content w' = overwrite (content w) (nat at) got)"
  using assms
proof (induction n arbitrary: w)
  case 0
  then show ?case by (intro exI [of _ w] exI [of _ page]) auto
next
  case (Suc n)
  obtain w1 d bad where one: "pgwrite_once crc exe page at True (f, w) = ((f, w1), Inr bad)" "alive w1"
    "content w1 = overwrite (content w) (nat at) d" "length d = length page"
    "\<forall>i < length page. \<not> reported bad at (length page) i \<longrightarrow> d ! i = page ! i"
    by (rule pgwrite_once_ok [OF Suc.prems(1-6)])
  show ?case
  proof (cases "bad = []")
    case True
    then have "d = page" using one(4,5) by (auto intro: nth_equalityI)
    then show ?thesis using True one Suc.prems(7) by (intro exI [of _ w1] exI [of _ page]) simp
  next
    case False
    then have "retry_loop crc exe n page at (f, w1) = (s', r)" using Suc.prems(7) one(1) by simp
    from Suc.IH [OF Suc.prems(1) one(2) Suc.prems(3-6) this] obtain w' got where
      g: "s' = (f, w')" "alive w'" "r = Inr () \<longrightarrow> got = page" "length got = length page"
      "n = 0 \<and> w' = w1 \<or> content w' = overwrite (content w1) (nat at) got" by blast
    show ?thesis
    proof (cases "n = 0 \<and> w' = w1")
      case True
      moreover have "r \<noteq> Inr ()" using True \<open>retry_loop crc exe n page at (f, w1) = (s', r)\<close> by auto
      ultimately show ?thesis using g one by (intro exI [of _ w'] exI [of _ d]) simp
    next
      case False
      then have "content w' = overwrite (content w) (nat at) got"
        using g(4,5) one(3,4) overwrite_inside [of 0 got d "content w" "nat at"] by auto
      then show ?thesis using g by blast
    qed
  qed
qed

text \<open>Retrying the reported pages one by one: what is stored agrees with the data outside the pages
  still to be retried.\<close>

lemma pgwrite_retry_ok:
  assumes "plain fh f" "alive w" "0 \<le> off" "off + int (length data) < 2 ^ 63" "length data \<le> 1000000000"
    and "content w = overwrite old (nat off) cur" "length cur = length data"
    and "\<forall>i < length data. \<not> reported (p # ps) off (length data) i \<longrightarrow> cur ! i = data ! i"
    and "pgwrite_retry crc exe data off p (f, w) = (s', r)"
  shows "\<exists>w' new. s' = (f, w') \<and> alive w' \<and> content w' = overwrite old (nat off) new \<and> length new = length data \<and>
    (r = Inr () \<longrightarrow> (\<forall>i < length data. \<not> reported ps off (length data) i \<longrightarrow> new ! i = data ! i))"
proof (cases "0 \<le> p - off \<and> p - off < int (length data)")
  case False
  then have "s' = (f, w)" "r \<noteq> Inr ()" using assms(9) by (auto simp: pgwrite_retry_def Let_def split: if_splits)
  then show ?thesis using assms(2,6,7) by auto
next
  case True
  define k where "k = nat (p - off)"
  define m where "m = nat (page_span p (int (length data) - (p - off)))"
  define page where "page = take m (drop k data)"
  have span: "0 < page_span p (int (length data) - (p - off))" "page_span p (int (length data) - (p - off)) \<le> int (length data) - (p - off)"
    using True by (auto simp: page_span_def PAGE_SIZE_def)
  have k: "int k = p - off" "k + m \<le> length data" "0 < m" using True span by (auto simp: k_def m_def)
  have len: "length page = m" using k(2) by (simp add: page_def)
  have run: "retry_loop crc exe (nat PGW_MAX_RETRY) page p (f, w) = (s', r)"
    using assms(9) True by (simp add: pgwrite_retry_def Let_def page_def k_def m_def)
  have "p + int (length page) < 2 ^ 63" "page \<noteq> []" "length page \<le> 1000000000" "0 \<le> p"
    using k len assms(3-5) True by auto
  then obtain w' got where g: "s' = (f, w')" "alive w'" "r = Inr () \<longrightarrow> got = page" "length got = m"
    "content w' = overwrite (content w) (nat p) got"
    using retry_loop_ok [OF assms(1,2) _ _ _ _ run] len by auto
  let ?new = "take k cur @ got @ drop (k + m) cur"
  have "nat p = nat off + k" using True assms(3) k(1) by linarith
  then have c: "content w' = overwrite old (nat off) ?new"
    using g(4,5) assms(6,7) k(2) overwrite_inside [of k got cur old "nat off"] by simp
  have "?new ! i = data ! i" if "r = Inr ()" "i < length data" "\<not> reported ps off (length data) i" for i
  proof (cases "k \<le> i \<and> i < k + m")
    case True
    then show ?thesis using g(3) that(1) len k(2) assms(7) by (auto simp: nth_append page_def)
  next
    case False
    have "(p \<le> off + int i \<and> off + int i < p + page_span p (off + int (length data) - p)) \<longleftrightarrow> k \<le> i \<and> i < k + m"
      using k(1) span by (auto simp: m_def algebra_simps)
    then have "\<not> reported (p # ps) off (length data) i" using that(3) False by (auto simp: reported_def)
    then have "cur ! i = data ! i" using assms(8) that(2) by blast
    then show ?thesis using False g(4) k(2) assms(7) that(2) by (auto simp: nth_append)
  qed
  moreover have "length ?new = length data" using g(4) k(2) assms(7) by simp
  ultimately show ?thesis using g(1,2) c by blast
qed

lemma pgwrite_all_ok:
  assumes "plain fh f" "alive w" "0 \<le> off" "off + int (length data) < 2 ^ 63" "length data \<le> 1000000000"
    and "content w = overwrite old (nat off) cur" "length cur = length data"
    and "\<forall>i < length data. \<not> reported ps off (length data) i \<longrightarrow> cur ! i = data ! i"
    and "pgwrite_all crc exe data off ps (f, w) = (s', r)"
  shows "\<exists>w'. s' = (f, w') \<and> alive w' \<and> (r = Inr () \<longrightarrow> content w' = overwrite old (nat off) data)"
  using assms
proof (induction ps arbitrary: w cur)
  case Nil
  then have "cur = data" by (auto intro: nth_equalityI)
  then show ?case using Nil.prems by auto
next
  case (Cons p ps)
  obtain s1 r1 where one: "pgwrite_retry crc exe data off p (f, w) = (s1, r1)" by (cases "pgwrite_retry crc exe data off p (f, w)")
  obtain w1 new where n: "s1 = (f, w1)" "alive w1" "content w1 = overwrite old (nat off) new" "length new = length data"
    "r1 = Inr () \<longrightarrow> (\<forall>i < length data. \<not> reported ps off (length data) i \<longrightarrow> new ! i = data ! i)"
    using pgwrite_retry_ok [OF Cons.prems(1-8) one] by blast
  show ?case
  proof (cases r1)
    case (Inl e)
    then show ?thesis using Cons.prems(9) one n(1,2) by auto
  next
    case (Inr u)
    then have "pgwrite_all crc exe data off ps (f, w1) = (s', r)" using Cons.prems(9) one n(1) by simp
    then show ?thesis using Cons.IH [OF Cons.prems(1) n(2) Cons.prems(3-5) n(3,4)] n(5) Inr by simp
  qed
qed

lemma pgwrite_ok:
  assumes "plain fh f" "alive w" "0 \<le> off" "off + int (length data) < 2 ^ 63" "length data \<le> 1000000000"
    and "pgwrite crc exe data off (f, w) = ((f', w'), r)"
  shows "plain fh f' \<and> alive w' \<and>
    (\<forall>n. r = Inr n \<longrightarrow> n = int (length data) \<and> content w' = overwrite (content w) (nat off) data)"
proof (cases "data = []")
  case True
  then show ?thesis using assms by (auto simp: pgwrite_def)
next
  case False
  obtain w1 d bad where one: "pgwrite_once crc exe data off False (f, w) = ((f, w1), Inr bad)" "alive w1"
    "content w1 = overwrite (content w) (nat off) d" "length d = length data"
    "\<forall>i < length data. \<not> reported bad off (length data) i \<longrightarrow> d ! i = data ! i"
    by (rule pgwrite_once_ok [OF assms(1-4) False assms(5)])
  obtain s2 r2 where two: "pgwrite_all crc exe data off bad (f, w1) = (s2, r2)" by (cases "pgwrite_all crc exe data off bad (f, w1)")
  obtain w2 where "s2 = (f, w2)" "alive w2" "r2 = Inr () \<longrightarrow> content w2 = overwrite (content w) (nat off) data"
    using pgwrite_all_ok [OF assms(1) one(2) assms(3-5) one(3-5) two] by blast
  then show ?thesis
    using assms(1,6) False one(1) two by (cases r2) (auto simp: pgwrite_def invalidate_def plain_def)
qed

end

subsection \<open>Reads through the readahead block\<close>

text \<open>A data plane that returns the bytes of the file, or declines, and leaves the handle alone.\<close>

definition may_decline :: "bool \<Rightarrow> 'a \<Rightarrow> 'a option set" where
  "may_decline d x = (if d then {None, Some x} else {Some x})"

locale data_plane =
  fixes plane :: "int \<Rightarrow> int \<Rightarrow> ('w, bytes option) fop" and content :: "'w \<Rightarrow> bytes" and alive :: "file_state \<Rightarrow> 'w \<Rightarrow> bool"
    and bound :: int and declines :: bool
  assumes plane_law:
      "alive f w \<Longrightarrow> 0 \<le> len \<Longrightarrow> 0 \<le> off \<Longrightarrow> off + len < bound \<Longrightarrow>
       \<exists>w' got. plane len off (f, w) = ((f, w'), Inr got) \<and> alive f w' \<and> content w' = content w \<and>
         got \<in> may_decline declines (file_slice (content w) (ReadRange off len))"
    and alive_reading: "alive f w \<Longrightarrow> alive (f\<lparr>fs_ahead := a, fs_sequel := q, fs_window := n\<rparr>) w"

text \<open>The block held is what the file has at its offset, and the window is within its ceiling.\<close>

definition ahead_ok :: "bytes \<Rightarrow> file_state \<Rightarrow> bool" where
  "ahead_ok file f \<longleftrightarrow> 0 \<le> fst (fs_ahead f) \<and> 0 \<le> fs_window f \<and> fs_window f \<le> MAX_AHEAD \<and>
     snd (fs_ahead f) = take (length (snd (fs_ahead f))) (drop (nat (fst (fs_ahead f))) file)"

lemma ahead_slice:
  assumes "ahead_ok file f" "fs_ahead f = (start, block)" "start \<le> off" "0 \<le> len" "off + len \<le> start + int (length block)"
  shows "take (nat len) (drop (nat (off - start)) block) = file_slice file (ReadRange off len)"
proof -
  define k where "k = nat (off - start)"
  have s: "0 \<le> start" "block = take (length block) (drop (nat start) file)" using assms(1,2) by (auto simp: ahead_ok_def)
  have k: "nat off = nat start + k" "k + nat len \<le> length block" using assms(3-5) s(1) by (auto simp: k_def)
  have "take (nat len) (drop k block) = take (nat len) (drop k (take (length block) (drop (nat start) file)))"
    using s(2) by simp
  also have "\<dots> = take (nat len) (drop (nat off) file)" using k by (simp add: drop_take min_def add.commute)
  finally show ?thesis by (simp add: file_slice_def ReadRange_def k_def)
qed

lemma ahead_fetched:
  assumes "0 \<le> off" "0 \<le> len" "0 \<le> n" "n \<le> MAX_AHEAD"
  shows "ahead_ok c (f\<lparr>fs_sequel := q, fs_window := n, fs_ahead := (off, file_slice c (ReadRange off len))\<rparr>)"
  using assms by (auto simp: ahead_ok_def file_slice_def ReadRange_def min_def)

context data_plane
begin

lemma sequential_ok:
  assumes "alive f w" "ahead_ok (content w) f" "0 \<le> readahead" "readahead \<le> MAX_AHEAD" "0 \<le> len" "0 \<le> off"
    and "off + len + MAX_AHEAD < bound"
  shows "\<exists>f' w' got. sequential readahead plane len off (f, w) = ((f', w'), Inr got) \<and> alive f' w' \<and> content w' = content w \<and>
    ahead_ok (content w) f' \<and> got \<in> may_decline declines (file_slice (content w) (ReadRange off len))"
proof -
  obtain start block where ah: "fs_ahead f = (start, block)" by (cases "fs_ahead f")
  define g where "g n = f\<lparr>fs_ahead := fs_ahead f, fs_sequel := off + len, fs_window := n\<rparr>" for n
  have f: "f\<lparr>fs_sequel := off + len, fs_window := n\<rparr> = g n" "f\<lparr>fs_sequel := off + len\<rparr> = g (fs_window f)" for n
    by (simp_all add: g_def)
  have live: "alive (g n) w" for n unfolding g_def by (rule alive_reading [OF assms(1)])
  have ok: "ahead_ok (content w) (g n)" if "0 \<le> n" "n \<le> MAX_AHEAD" for n
    using assms(2) that by (simp add: ahead_ok_def g_def)
  have win: "0 \<le> fs_window f" "fs_window f \<le> MAX_AHEAD" using assms(2) by (auto simp: ahead_ok_def)
  consider (hit) "start \<le> off \<and> off + len \<le> start + int (length block)"
    | (jump) "\<not> (start \<le> off \<and> off + len \<le> start + int (length block))" "off \<noteq> fs_sequel f"
    | (follow) "\<not> (start \<le> off \<and> off + len \<le> start + int (length block))" "off = fs_sequel f" by blast
  then show ?thesis
  proof cases
    case hit
    then show ?thesis
      using ahead_slice [OF assms(2) ah _ assms(5)] live [of "fs_window f"] ok [OF win] ah
      by (auto simp: sequential_def f(2) may_decline_def)
  next
    case jump
    obtain w' got where "plane len off (g readahead, w) = ((g readahead, w'), Inr got)" "alive (g readahead) w'"
      "content w' = content w" "got \<in> may_decline declines (file_slice (content w) (ReadRange off len))"
      using plane_law [OF live assms(5,6)] assms(7) by (fastforce simp: MAX_AHEAD_def)
    then show ?thesis
      using jump ah ok [OF assms(3,4)] by (auto simp: sequential_def f(1))
  next
    case follow
    let ?n = "min (fs_window f * 2) MAX_AHEAD" and ?big = "len + fs_window f"
    obtain w' got where p: "plane ?big off (g ?n, w) = ((g ?n, w'), Inr got)" "alive (g ?n) w'"
      "content w' = content w" "got \<in> may_decline declines (file_slice (content w) (ReadRange off ?big))"
      using plane_law [OF live _ assms(6), of ?big ?n] assms(5,7) win by auto
    have "take (nat len) (file_slice (content w) (ReadRange off ?big)) = file_slice (content w) (ReadRange off len)"
      using assms(5) win by (simp add: file_slice_def ReadRange_def min_def)
    moreover have "ahead_ok (content w) ((g ?n)\<lparr>fs_ahead := (off, file_slice (content w) (ReadRange off ?big))\<rparr>)"
      using ahead_fetched [where c = "content w" and f = f and q = "off + len", OF assms(6), of ?big ?n] assms(5) win
      by (simp add: g_def MAX_AHEAD_def)
    moreover have "alive ((g ?n)\<lparr>fs_ahead := a\<rparr>) w'" for a
    proof -
      have "(g ?n)\<lparr>fs_ahead := a, fs_sequel := off + len, fs_window := ?n\<rparr> = (g ?n)\<lparr>fs_ahead := a\<rparr>"
        by (rule file_state.equality) (simp_all add: g_def)
      then show ?thesis using alive_reading [where a = a and q = "off + len" and n = ?n, OF p(2)] by simp
    qed
    moreover have "sequential readahead plane len off (f, w)
        = (case got of
             None \<Rightarrow> ((g ?n, w'), Inr None)
           | Some data \<Rightarrow> (((g ?n)\<lparr>fs_ahead := (off, data)\<rparr>, w'), Inr (Some (take (nat len) data))))"
      using follow(1) ah p(1) by (cases got) (auto simp: sequential_def follow(2) [symmetric] f(1))
    moreover have "0 \<le> ?n" "?n \<le> MAX_AHEAD" using win by (auto simp: MAX_AHEAD_def)
    ultimately show ?thesis
      using p(2-4) ok [of ?n] by (cases got) (auto simp: may_decline_def split: if_splits)
  qed
qed

lemma sequential_all_ok:
  assumes "alive f w" "ahead_ok (content w) f" "0 \<le> readahead" "readahead \<le> MAX_AHEAD"
    and "\<forall>(len, off) \<in> set reqs. 0 \<le> len \<and> 0 \<le> off \<and> off + len + MAX_AHEAD < bound"
  shows "\<exists>f' w' outs. fmap (\<lambda>(len, off). sequential readahead plane len off) reqs (f, w) = ((f', w'), Inr outs) \<and>
    list_all2 (\<lambda>(len, off) got. got \<in> may_decline declines (file_slice (content w) (ReadRange off len))) reqs outs"
  using assms
proof (induction reqs arbitrary: f w)
  case (Cons q reqs)
  obtain len off where q: "q = (len, off)" by (cases q)
  obtain f1 w1 got where one: "sequential readahead plane len off (f, w) = ((f1, w1), Inr got)" "alive f1 w1"
    "content w1 = content w" "ahead_ok (content w1) f1" "got \<in> may_decline declines (file_slice (content w) (ReadRange off len))"
    using sequential_ok [OF Cons.prems(1-4), of len off] Cons.prems(5) q by auto
  obtain f2 w2 outs where "fmap (\<lambda>(len, off). sequential readahead plane len off) reqs (f1, w1) = ((f2, w2), Inr outs)"
    "list_all2 (\<lambda>(len, off) got. got \<in> may_decline declines (file_slice (content w) (ReadRange off len))) reqs outs"
    using Cons.IH [OF one(2,4) Cons.prems(3,4)] Cons.prems(5) one(3) by auto
  then show ?case using one q by (intro exI [of _ f2] exI [of _ w2] exI [of _ "got # outs"]) simp
qed auto

end

text \<open>The event path as a data plane that never declines.\<close>

definition event_plane :: "'w executor \<Rightarrow> int \<Rightarrow> int \<Rightarrow> int \<Rightarrow> ('w, bytes option) fop" where
  "event_plane exe limit len off = fbind (event_read exe limit len off) (\<lambda>d. fret (Some d))"

end
