(* ===== verification/Exchange.thy ===== *)
theory Exchange
  imports Machine_Streams Test_Server File_Transfer
begin

text \<open>
  The client against the server, with the wire between them: a request is submitted to the
  protocol machine, the bytes it queues are handed to the server of \<open>Test_Server\<close>, the frames
  that come back are fed to the machine, and the answer is what its events say. This is one
  request at a time on one connection, without waits or redirects.

  The theory proves that this composition keeps the promises the transfers of \<open>File_Transfer\<close>
  are proved from, by interpreting their locales on it. What follows for the whole path from
  a caller to the bytes the server stores stands at the end.
\<close>

subsection \<open>One request\<close>

text \<open>What a caller waiting on a stream makes of the machine's events.\<close>

fun answer :: "int \<Rightarrow> event list \<Rightarrow> bytes res" where
  "answer sid [] = Inl (XrdConnectionError (str ''no answer''))"
| "answer sid (Completed s req data st # es) = (if s = sid then Inr data else answer sid es)"
| "answer sid (Failed (Some s) req e # es) = (if s = sid then Inl e else answer sid es)"
| "answer sid (_ # es) = answer sid es"

definition hear ::
  "env \<Rightarrow> int \<Rightarrow> bytes list \<Rightarrow> machine \<Rightarrow> machine \<times> bytes res" where
  "hear env sid frames m =
     (case receive_all env frames 0 m of
        (m', Inl e) \<Rightarrow> (m', Inl e)
      | (m', Inr _) \<Rightarrow> (case drain m' of (m'', evs) \<Rightarrow> (m'', answer sid evs)))"

text \<open>A server that hangs up is the end of file on the link.\<close>

definition exchange :: "env \<Rightarrow> (bytes \<Rightarrow> 32 word) \<Rightarrow> (machine \<times> server) executor" where
  "exchange env crc req w =
     (case submit env req [] False (fst w) of
        (m1, Inl e) \<Rightarrow> ((m1, snd w), Inl e)
      | (m1, Inr sid) \<Rightarrow>
          (case buffers_to_send m1 of (m2, out) \<Rightarrow>
             (case serve crc (concat out) (snd w) of
                (sv, frames) \<Rightarrow>
                  (case hear env sid (case frames of None \<Rightarrow> [[]] | Some fs \<Rightarrow> fs) m2 of
                     (m3, r) \<Rightarrow> ((m3, sv), r)))))"

subsection \<open>A session ready for the next request\<close>

definition steady :: "env \<Rightarrow> machine \<Rightarrow> bool" where
  "steady env m \<longleftrightarrow> reachable env m \<and> m_state m = READY \<and> m_signer m = None \<and> at_rest (the_framer 0 m) \<and>
     m_out m = [] \<and> m_events m = [] \<and> (\<exists>m' sid. acquire_sid m = (m', Inr sid))"

lemma acquire_signer: "acquire_sid m = (m', r) \<Longrightarrow> m_signer m' = m_signer m"
  by (auto simp: acquire_sid_def Let_def split: list.splits if_splits)

lemma submit_steady:
  assumes "steady env m" "req_pathid req = 0" "path_data req = []"
    and "\<And>sid. \<exists>parts. encode_parts req sid = Inr parts"
  obtains m' sid parts where "submit env req [] False m = (m', Inr sid)" "encode_parts req sid = Inr parts"
    "m_out m' = parts" "m_events m' = []" "m_signer m' = None" "m_state m' = READY" "m_framers m' = m_framers m"
    "map_of (m_pending m') sid = Some \<lparr>pd_request = req, pd_parts = parts, pd_buffer = [], pd_status = None,
       pd_path = [], pd_pathid = 0, pd_path_bytes = [], pd_cap = reply_cap req\<rparr>"
    "4 \<le> sid" "sid < 65536"
proof -
  obtain m1 sid where a: "acquire_sid m = (m1, Inr sid)" using assms(1) by (auto simp: steady_def)
  obtain parts where p: "encode_parts req sid = Inr parts" using assms(4) by blast
  have "m_signer m1 = None" using acquire_signer [OF a] assms(1) by (simp add: steady_def)
  then have f: "frame env req sid m1 = (m1, Inr parts)" using p by (simp add: frame_def)
  have s: "submit env req [] False m = (fst (send env req sid [] False m1), Inr sid)"
    using a assms(1-3) f by (simp add: submit_def steady_def send_def send_out_def Let_def)
  obtain m' where m': "send env req sid [] False m1 = (m', Inr ())"
    using f assms(2,3) by (simp add: send_def send_out_def Let_def)
  have "sid_inv m" using assms(1) by (auto simp: steady_def intro: reachable_sid_inv)
  then have "4 \<le> sid" "sid \<le> 65535" using submit_limbo a by blast+
  moreover have "m_signer m' = None" using m' f \<open>m_signer m1 = None\<close> assms(2,3) by (auto simp: send_def send_out_def Let_def)
  ultimately show ?thesis
    using that [of m' sid parts] s m' p send_records [OF f m'] acquire_fields [OF a] assms(1-3)
    by (simp add: steady_def map_of_dict_set)
qed

lemma reachable_receive_all: "reachable env m \<Longrightarrow> reachable env (fst (receive_all env ds link m))"
proof (induction ds arbitrary: m)
  case (Cons d ds)
  obtain m1 r where d: "receive_data env d link m = (m1, r)" by (cases "receive_data env d link m")
  have "reachable env m1" using reachable.step [OF Cons.prems, of "Receive d link"] d by simp
  then show ?case using Cons.IH d by (cases r) auto
qed simp

lemma answer_chunks: "answer sid (map (Chunk sid req) bodies @ [Completed sid req data st]) = Inr data"
  by (induction bodies) auto

lemma acquire_after_free: "m_free m \<noteq> [] \<Longrightarrow> \<exists>m' sid. acquire_sid m = (m', Inr sid)"
  by (cases "m_free m") (auto simp: acquire_sid_def)

text \<open>An answer, however the machine got it, leaves the session ready again.\<close>

lemma exchange_answered:
  assumes "steady env m" "req_pathid req = 0" "path_data req = []"
    and "\<And>sid. \<exists>parts. encode_parts req sid = Inr parts"
    and "\<And>sid parts. encode_parts req sid = Inr parts \<Longrightarrow> 4 \<le> sid \<Longrightarrow> sid < 65536 \<Longrightarrow>
      \<exists>frames. serve crc (concat parts) sv = (sv', Some frames) \<and>
        (\<forall>m p. at_rest (the_framer 0 m) \<and> m_state m = READY \<and> map_of (m_pending m) sid = Some p \<and>
           pd_request p = req \<and> pd_buffer p = [] \<and> pd_status p = None \<and> pd_cap p = reply_cap req \<longrightarrow>
         (\<exists>m' bodies st. receive_all env frames 0 m = (m', Inr ()) \<and> undisturbed 0 m m' \<and>
           m_free m' = m_free m @ [sid] \<and>
           m_events m' = m_events m @ map (Chunk sid req) bodies @ [Completed sid req data st]))"
  shows "\<exists>m'. exchange env crc req (m, sv) = ((m', sv'), Inr data) \<and> steady env m'"
proof -
  obtain m1 sid parts where s: "submit env req [] False m = (m1, Inr sid)" "encode_parts req sid = Inr parts"
    "m_out m1 = parts" "m_events m1 = []" "m_signer m1 = None" "m_state m1 = READY" "m_framers m1 = m_framers m"
    "map_of (m_pending m1) sid = Some \<lparr>pd_request = req, pd_parts = parts, pd_buffer = [], pd_status = None,
       pd_path = [], pd_pathid = 0, pd_path_bytes = [], pd_cap = reply_cap req\<rparr>"
    "4 \<le> sid" "sid < 65536"
    by (rule submit_steady [OF assms(1-4)])
  let ?m2 = "m1\<lparr>m_out := []\<rparr>"
  obtain frames where fr: "serve crc (concat parts) sv = (sv', Some frames)"
    "\<forall>m p. at_rest (the_framer 0 m) \<and> m_state m = READY \<and> map_of (m_pending m) sid = Some p \<and>
           pd_request p = req \<and> pd_buffer p = [] \<and> pd_status p = None \<and> pd_cap p = reply_cap req \<longrightarrow>
         (\<exists>m' bodies st. receive_all env frames 0 m = (m', Inr ()) \<and> undisturbed 0 m m' \<and>
           m_free m' = m_free m @ [sid] \<and>
           m_events m' = m_events m @ map (Chunk sid req) bodies @ [Completed sid req data st])"
    using assms(5) [OF s(2,9,10)] by blast
  have "at_rest (the_framer 0 ?m2)" using assms(1) s(7) by (simp add: steady_def the_framer_def)
  then obtain m3 bodies st where r: "receive_all env frames 0 ?m2 = (m3, Inr ())" "undisturbed 0 ?m2 m3"
    "m_free m3 = m_free ?m2 @ [sid]" "m_events m3 = map (Chunk sid req) bodies @ [Completed sid req data st]"
    using fr(2) s(4,6,8) by (fastforce split: prod.splits)
  let ?m4 = "m3\<lparr>m_events := []\<rparr>"
  have "reachable env m1" using reachable.step [of env m "Submit req [] False"] assms(1) s(1) by (simp add: steady_def)
  then have "reachable env ?m2" using reachable.step [of env m1 TakeOut] by (simp add: buffers_to_send_def)
  then have "reachable env m3" using reachable_receive_all [of env ?m2 frames 0] r(1) by simp
  then have "reachable env ?m4" using reachable.step [of env m3 Drain] by (simp add: drain_def)
  moreover have "\<exists>m' sid. acquire_sid ?m4 = (m', Inr sid)" using r(3) by (intro acquire_after_free) simp
  ultimately have "steady env ?m4"
    using r(2) s(5,6) by (simp add: steady_def undisturbed_def the_framer_def)
  moreover have "exchange env crc req (m, sv) = ((?m4, sv'), Inr data)"
    using s(1,3) fr(1) r(1,4) by (simp add: exchange_def buffers_to_send_def hear_def drain_def answer_chunks)
  ultimately show ?thesis by blast
qed

subsection \<open>Replies\<close>

lemma sv_frame_parts:
  "sv_frame sid kXR_ok = server_frame (nat sid) 0"
  "sv_frame sid kXR_oksofar = server_frame (nat sid) 4000"
  "sv_frame sid kXR_status = server_frame (nat sid) 4007"
  by (simp_all add: sv_frame_def fun_eq_iff)

text \<open>Any number of partial frames and a final one.\<close>

lemma plain_reply:
  assumes "4 \<le> sid" "sid < 65536" "at_rest (the_framer 0 m)" "m_state m = READY" "map_of (m_pending m) sid = Some p"
    and "pd_request p = req" "pd_buffer p = []" "pd_cap p = reply_cap req"
    and "\<forall>b \<in> set (bodies @ [final]). int (length b) \<le> MAX_RESPONSE_BODY"
    and "reply_cap req = 0 \<or> int (length (concat (bodies @ [final]))) \<le> reply_cap req"
  shows "\<exists>m' bodies' st. receive_all env (map (sv_frame sid kXR_oksofar) bodies @ [sv_frame sid kXR_ok final]) 0 m = (m', Inr ()) \<and>
    undisturbed 0 m m' \<and> m_free m' = m_free m @ [sid] \<and>
    m_events m' = m_events m @ map (Chunk sid req) bodies' @ [Completed sid req (concat bodies @ final) st]"
proof -
  have "map_of (m_pending m) (int (nat sid)) = Some p" "fits p (length (concat (bodies @ [final])))"
    using assms by (auto simp: fits_def)
  from receive_partial [OF assms(3,4) this(1) _ _ assms(9) this(2), of env] show ?thesis
    using assms(1,2,6,7) unfolding sv_frame_parts by force
qed

lemma serve_encoded:
  assumes "encode_parts req sid = Inr parts" "header_params req = Inr ps" "payload req = Inr body" "path_data req = []"
    and "4 \<le> sid" "sid < 65536" "sv_handler crc (trailer req) (opcode req) = Some h" "h sid ps body sv = (sv', Inr frames)"
  shows "serve crc (concat parts) sv = (sv', Some frames)"
proof -
  have lim: "int (length body) + int (length (path_data req)) \<le> MAX_FRAME_PAYLOAD"
    using assms(1) by (rule encode_parts_cases) (use assms(2,3) in simp)
  have "concat parts = be_enc 2 (nat sid) @ be_enc 2 (nat (opcode req)) @ ps @ be_enc 4 (length body) @ body @ trailer req"
    using encode_parts_unfold [OF assms(2,3) lim, of sid] assms(1,4-6) by simp
  moreover have "length ps = 16" using assms(2) by (rule header_params_length)
  moreover from this have "server_request_header (concat parts) = (sid, opcode req, ps, int (length body))"
    using calculation lim assms(4-6) opcode_range [of req] by (simp add: server_request_header_frame nat_less_iff)
  ultimately show ?thesis using assms(7,8) by (simp add: serve_def)
qed

lemma exchange_plain:
  assumes "steady env m" "req_pathid req = 0" "path_data req = []"
    and "header_params req = Inr ps" "payload req = Inr body" "int (length body) \<le> MAX_FRAME_PAYLOAD"
    and "sv_handler crc (trailer req) (opcode req) = Some h"
    and "\<And>sid. h sid ps body sv = (sv', Inr (map (sv_frame sid kXR_oksofar) bodies @ [sv_frame sid kXR_ok final]))"
    and "\<forall>b \<in> set (bodies @ [final]). int (length b) \<le> MAX_RESPONSE_BODY"
    and "reply_cap req = 0 \<or> int (length (concat (bodies @ [final]))) \<le> reply_cap req"
  shows "\<exists>m'. exchange env crc req (m, sv) = ((m', sv'), Inr (concat bodies @ final)) \<and> steady env m'"
proof (rule exchange_answered [OF assms(1-3)])
  show "\<exists>parts. encode_parts req sid = Inr parts" for sid
    using encode_parts_unfold [OF assms(4,5), of sid] assms(3,6) by auto
  show "\<exists>frames. serve crc (concat parts) sv = (sv', Some frames) \<and>
        (\<forall>m p. at_rest (the_framer 0 m) \<and> m_state m = READY \<and> map_of (m_pending m) sid = Some p \<and>
           pd_request p = req \<and> pd_buffer p = [] \<and> pd_status p = None \<and> pd_cap p = reply_cap req \<longrightarrow>
         (\<exists>m' bodies' st. receive_all env frames 0 m = (m', Inr ()) \<and> undisturbed 0 m m' \<and>
           m_free m' = m_free m @ [sid] \<and>
           m_events m' = m_events m @ map (Chunk sid req) bodies' @ [Completed sid req (concat bodies @ final) st]))"
    if "encode_parts req sid = Inr parts" "4 \<le> sid" "sid < 65536" for sid parts
    by (rule exI, rule conjI, rule serve_encoded [OF that(1) assms(4,5,3) that(2,3) assms(7,8)], intro allI impI, elim conjE,
        rule plain_reply [OF that(2,3) _ _ _ _ _ _ assms(9,10)])
qed

text \<open>The chunks of a read put together.\<close>

lemma chunks_concat:
  "concat (map (\<lambda>k. take step (drop (k * step) data)) [0 ..< n]) @ drop (n * step) data = data"
proof (induction n)
  case (Suc n)
  have "take step (drop (n * step) data) @ drop (Suc n * step) data = drop (n * step) data"
    by (metis append_take_drop_id drop_drop mult_Suc)
  then show ?case using Suc by simp
qed simp

lemma read_frames_shape:
  obtains bodies final where "\<And>sid. read_frames sid step data = map (sv_frame sid kXR_oksofar) bodies @ [sv_frame sid kXR_ok final]"
    "concat bodies @ final = data"
proof (cases "step \<noteq> 0 \<and> length data > step")
  case True
  let ?n = "(length data - 1) div step"
  show ?thesis
    by (rule that [of "map (\<lambda>k. take step (drop (k * step) data)) [0 ..< ?n]" "drop (?n * step) data"])
       (simp_all add: read_frames_def True comp_def chunks_concat)
next
  case False
  then show ?thesis by (intro that [of "[]" data]) (auto simp: read_frames_def)
qed

subsection \<open>The server's side of plain I/O\<close>

lemma py_slice_file:
  assumes "0 \<le> off" "0 \<le> len"
  shows "py_slice off (off + len) xs = file_slice xs (ReadRange off len)"
proof (cases "nat off \<le> length xs")
  case True
  have "nat (off + len) = nat off + nat len" using assms by (simp add: nat_add_distrib)
  then show ?thesis
    using assms True by (auto simp: py_slice_def py_index_def file_slice_def ReadRange_def min_def)
next
  case False
  then show ?thesis using assms by (simp add: py_slice_def py_index_def file_slice_def ReadRange_def)
qed

lemma splice_overwrite:
  assumes "0 \<le> off"
  shows "splice data off body = overwrite data (nat off) body"
proof -
  have "nat (off + int (length body)) = nat off + length body" using assms by simp
  then show ?thesis
    using assms
    by (auto simp: splice_def overwrite_def py_index_def Let_def min_def max_def)
qed

text \<open>One open file of the server.\<close>

definition holds :: "bytes \<Rightarrow> server \<Rightarrow> bytes \<Rightarrow> bool" where
  "holds fh sv data \<longleftrightarrow> length fh = 4 \<and> fh \<noteq> [0, 0, 0, 0] \<and>
     (\<exists>path. map_of (sv_handles sv) fh = Some path \<and> map_of (sv_files sv) path = Some data)"

definition file_of :: "bytes \<Rightarrow> machine \<times> server \<Rightarrow> bytes" where
  "file_of fh w =
     (case map_of (sv_handles (snd w)) fh of
        None \<Rightarrow> []
      | Some path \<Rightarrow> (case map_of (sv_files (snd w)) path of None \<Rightarrow> [] | Some data \<Rightarrow> data))"

definition ready_for :: "env \<Rightarrow> bytes \<Rightarrow> machine \<times> server \<Rightarrow> bool" where
  "ready_for env fh w \<longleftrightarrow> steady env (fst w) \<and> (\<exists>data. holds fh (snd w) data)"

lemma holds_file_of: "holds fh sv data \<Longrightarrow> file_of fh (m, sv) = data"
  by (auto simp: holds_def file_of_def)

lemma ready_forE:
  assumes "ready_for env fh (m, sv)"
  obtains path where "steady env m" "length fh = 4" "sv_path sv fh = Inr path" "sv_file sv path = Inr (file_of fh (m, sv))"
    "map_of (sv_handles sv) fh = Some path" "holds fh sv (file_of fh (m, sv))"
proof -
  obtain data where h: "steady env m" "holds fh sv data" using assms by (auto simp: ready_for_def)
  then obtain path where "map_of (sv_handles sv) fh = Some path" "map_of (sv_files sv) path = Some data"
    "length fh = 4" "fh \<noteq> [0, 0, 0, 0]"
    by (auto simp: holds_def)
  then show ?thesis using that [of path] h holds_file_of [OF h(2), of m] by (simp add: sv_path_def sv_file_def)
qed

lemma ready_forI:
  "steady env m \<Longrightarrow> holds fh sv data \<Longrightarrow> ready_for env fh (m, sv) \<and> file_of fh (m, sv) = data"
  by (auto simp: ready_for_def holds_file_of)

lemma holds_put_file:
  assumes "map_of (sv_handles sv) fh = Some path" "holds fh sv old"
  shows "holds fh (put_file path data sv) data"
  using assms by (auto simp: holds_def put_file_def map_of_dict_set)

lemma pad_handle: "length fh = 4 \<Longrightarrow> pad_field 4 fh = fh"
  by (simp add: pad_field_id)

lemma pack_i_ok: "0 \<le> v \<Longrightarrow> 2 * v < 256 ^ n \<Longrightarrow> pack_i n v = Inr (be_enc n (nat (v mod 256 ^ n)))"
  by (auto simp: pack_i_def intro: order_trans [of _ 0])

lemma read_params_ok:
  assumes "length fh = 4" "0 \<le> off" "off < 2 ^ 63" "0 \<le> len" "len < 2 ^ 31"
  shows "struct_pack READ_PARAMS [SBytes fh, SInt off, SInt len]
    = Inr (fh @ be_enc 8 (nat (off mod 256 ^ 8)) @ be_enc 4 (nat (len mod 256 ^ 4)))"
  using assms pack_i_ok [of off 8] pack_i_ok [of len 4] by (simp add: READ_PARAMS_def pad_handle)

lemma sdec_field:
  assumes "length a = n" "0 \<le> v" "2 * v < 256 ^ k"
  shows "be_sdec (take k (drop n (a @ be_enc k (nat (v mod 256 ^ k)) @ c))) = v"
  using assms be_sdec_enc [of k v] by (simp add: order_trans [of "- (256 ^ k)" 0 "2 * v"])

lemma wire_read:
  assumes "ready_for env fh w" "0 \<le> off" "off < 2 ^ 63" "0 \<le> len" "len \<le> MAX_RESPONSE_BODY"
  shows "\<exists>w'. exchange env crc (Read fh off len 0) w = (w', Inr (file_slice (file_of fh w) (ReadRange off len))) \<and>
    ready_for env fh w' \<and> file_of fh w' = file_of fh w"
proof -
  obtain m sv where w: "w = (m, sv)" by (cases w)
  obtain path where p: "steady env m" "length fh = 4" "sv_path sv fh = Inr path" "sv_file sv path = Inr (file_of fh (m, sv))"
    "map_of (sv_handles sv) fh = Some path" "holds fh sv (file_of fh (m, sv))"
    using assms(1) w by (auto elim: ready_forE)
  let ?data = "file_slice (file_of fh w) (ReadRange off len)"
  let ?ps = "fh @ be_enc 8 (nat (off mod 256 ^ 8)) @ be_enc 4 (nat (len mod 256 ^ 4))"
  obtain bodies final where fr: "\<And>sid. read_frames sid (sv_chunk_reads sv) ?data
      = map (sv_frame sid kXR_oksofar) bodies @ [sv_frame sid kXR_ok final]" "concat bodies @ final = ?data"
    by (rule read_frames_shape [of "sv_chunk_reads sv" ?data]) blast
  have len: "int (length ?data) \<le> len" using assms(4) length_slice [of "ReadRange off len"] by (simp add: ReadRange_def)
  have "length b \<le> length (concat bodies @ final)" if "b \<in> set (bodies @ [final])" for b
    using that member_le_sum_list [of "length b" "map length bodies"] by (auto simp: length_concat)
  then have small: "\<forall>b \<in> set (bodies @ [final]). int (length b) \<le> MAX_RESPONSE_BODY"
    using len assms(5) fr(2) by fastforce
  have "h_read sid ?ps [] sv = (sv, Inr (map (sv_frame sid kXR_oksofar) bodies @ [sv_frame sid kXR_ok final]))" for sid
    using p w assms fr(1) sdec_field [of fh 4 off 8] sdec_field [of "fh @ be_enc 8 (nat (off mod 256 ^ 8))" 12 len 4 "[]"]
    by (simp add: h_read_def py_slice_file)
  moreover have "header_params (Read fh off len 0) = Inr ?ps" "reply_cap (Read fh off len 0) = len"
    using read_params_ok [of fh off len] p(2) assms(2-5)
    by (simp_all add: header_params_def Read_header_params_def reply_cap_def Read_reply_cap_def)
  ultimately obtain m' where "exchange env crc (Read fh off len 0) w = ((m', sv), Inr ?data)" "steady env m'"
    using exchange_plain [OF p(1), of "Read fh off len 0" ?ps "[]" crc h_read sv sv bodies final] small len fr(2) w
    by (auto simp: payload_def Read_payload_def path_data_def req_pathid_def sv_handler_def)
  then show ?thesis using ready_forI [of env m' fh sv] p(6) w by auto
qed

text \<open>The answer of a request that returns nothing, after the file was changed.\<close>

lemma wire_stored:
  assumes "ready_for env fh (m, sv)" "req_pathid req = 0" "path_data req = []"
    and "header_params req = Inr ps" "payload req = Inr body" "int (length body) \<le> MAX_FRAME_PAYLOAD"
    and "sv_handler crc (trailer req) (opcode req) = Some h"
    and "\<And>sid path. map_of (sv_handles sv) fh = Some path \<Longrightarrow> sv_path sv fh = Inr path \<Longrightarrow>
      sv_file sv path = Inr (file_of fh (m, sv)) \<Longrightarrow>
      h sid ps body sv = (put_file path new sv, Inr [sv_frame sid kXR_ok []])"
    and "0 \<le> reply_cap req"
  shows "\<exists>w'. exchange env crc req (m, sv) = (w', Inr []) \<and> ready_for env fh w' \<and> file_of fh w' = new"
proof -
  obtain path where p: "steady env m" "length fh = 4" "sv_path sv fh = Inr path" "sv_file sv path = Inr (file_of fh (m, sv))"
    "map_of (sv_handles sv) fh = Some path" "holds fh sv (file_of fh (m, sv))"
    using assms(1) by (rule ready_forE)
  have "h sid ps body sv = (put_file path new sv, Inr (map (sv_frame sid kXR_oksofar) [] @ [sv_frame sid kXR_ok []]))" for sid
    using assms(8) [OF p(5,3,4)] by simp
  from exchange_plain [OF p(1) assms(2-7) this] assms(9) obtain m' where
    "exchange env crc req (m, sv) = ((m', put_file path new sv), Inr [])" "steady env m'" by auto
  then show ?thesis using ready_forI [OF _ holds_put_file [OF p(5,6)], of env m' new] by blast
qed

lemma wire_write:
  assumes "ready_for env fh w" "0 \<le> off" "off < 2 ^ 63" "int (length d) \<le> MAX_FRAME_PAYLOAD"
  shows "\<exists>w'. exchange env crc (Write fh off d 0) w = (w', Inr []) \<and> ready_for env fh w' \<and>
    file_of fh w' = overwrite (file_of fh w) (nat off) d"
proof -
  obtain m sv where w: "w = (m, sv)" by (cases w)
  have len: "length fh = 4" using assms(1) by (auto simp: ready_for_def holds_def)
  let ?ps = "fh @ be_enc 8 (nat (off mod 256 ^ 8)) @ be_enc 1 0 @ replicate 3 0"
  have ps: "header_params (Write fh off d 0) = Inr ?ps"
    using pack_i_ok [of off 8] assms(2,3) len
    by (simp add: header_params_def Write_header_params_def WRITE_PARAMS_def pad_handle pack_u_def)
  have h: "h_write sid ?ps d sv = (put_file path (overwrite (file_of fh (m, sv)) (nat off) d) sv, Inr [sv_frame sid kXR_ok []])"
    if "map_of (sv_handles sv) fh = Some path" "sv_path sv fh = Inr path" "sv_file sv path = Inr (file_of fh (m, sv))" for sid path
    using that len assms(2,3) sdec_field [of fh 4 off 8]
    by (simp add: h_write_def write_at_def splice_overwrite)
  show ?thesis
    unfolding w
    by (rule wire_stored [where h = h_write and body = d, OF assms(1) [unfolded w] _ _ ps _ _ _ h])
       (use assms(4) in \<open>simp_all add: payload_def Write_payload_def path_data_def Write_path_data_def req_pathid_def sv_handler_def reply_cap_def\<close>)
qed

lemma wire_truncate:
  assumes "ready_for env fh w" "0 \<le> len" "len < 2 ^ 63"
  shows "\<exists>w'. exchange env crc (Truncate [] len fh) w = (w', Inr []) \<and> ready_for env fh w' \<and>
    file_of fh w' = take (nat len) (file_of fh w) @ replicate (nat len - length (file_of fh w)) 0"
proof -
  obtain m sv where w: "w = (m, sv)" by (cases w)
  have four: "length fh = 4" using assms(1) by (auto simp: ready_for_def holds_def)
  let ?ps = "fh @ be_enc 8 (nat (len mod 256 ^ 8)) @ replicate 4 0"
  have ps: "header_params (Truncate [] len fh) = Inr ?ps"
    using pack_i_ok [of len 8] assms(2,3) four
    by (simp add: header_params_agree params_def Truncate_params_def Writer_def w_defs pad_handle)
  have h: "h_truncate sid ?ps [] sv
      = (put_file path (take (nat len) (file_of fh (m, sv)) @ replicate (nat len - length (file_of fh (m, sv))) 0) sv,
         Inr [sv_frame sid kXR_ok []])"
    if "map_of (sv_handles sv) fh = Some path" "sv_path sv fh = Inr path" "sv_file sv path = Inr (file_of fh (m, sv))" for sid path
    using that four assms(2,3) sdec_field [of fh 4 len 8]
    by (auto simp: h_truncate_def py_take_def nat_diff_distrib)
  show ?thesis
    unfolding w
    by (rule wire_stored [where h = h_truncate and body = "[]", OF assms(1) [unfolded w] _ _ ps _ _ _ h])
       (simp_all add: payload_def encode_path_def encode_text_def utf8_encode_def path_data_def req_pathid_def sv_handler_def reply_cap_def)
qed

subsection \<open>The server's side of vector reads\<close>

definition range_entry :: "bytes \<Rightarrow> read_range \<Rightarrow> bytes" where
  "range_entry fh r = fh @ be_enc 4 (nat (rr_length r mod 256 ^ 4)) @ be_enc 8 (nat (rr_offset r mod 256 ^ 8))"

definition range_segment :: "bytes \<Rightarrow> bytes \<Rightarrow> read_range \<Rightarrow> bytes" where
  "range_segment fh file r =
     fh @ be_enc 4 (length (file_slice file r)) @ be_enc 8 (nat (rr_offset r mod 2 ^ 64)) @ file_slice file r"

lemma ReadRange_id [simp]: "ReadRange (rr_offset r) (rr_length r) = r"
  by (simp add: ReadRange_def)

lemma readv_payload_ok:
  assumes "length fh = 4" "\<forall>r \<in> set b. 0 \<le> rr_offset r \<and> rr_offset r < 2 ^ 63 \<and> 0 \<le> rr_length r \<and> rr_length r < 2 ^ 31"
  shows "payload (readv_for b 0 fh) = Inr (concat (map (range_entry fh) b))"
proof -
  have "w_run (concat (map (\<lambda>r. [Padded (OfBytes fh) 4, I32 (rr_length r), I64 (rr_offset r)]) b)) pre
      = Inr (pre @ concat (map (range_entry fh) b))" for pre
    using assms(2)
  proof (induction b arbitrary: pre)
    case (Cons r b)
    then show ?case
      using pack_i_ok [of "rr_length r" 4] pack_i_ok [of "rr_offset r" 8] assms(1)
      by (simp add: w_defs range_entry_def pad_handle)
  qed simp
  from this [of "[]"] show ?thesis by (simp add: readv_for_def payload_def ReadV_payload_def Writer_def comp_def)
qed

lemma readv_replies_ok:
  assumes "length fh = 4" "map_of (sv_handles sv) fh = Some path" "sv_file sv path = Inr file"
    and "\<forall>r \<in> set b. 0 \<le> rr_offset r \<and> rr_offset r < 2 ^ 63 \<and> 0 \<le> rr_length r \<and> rr_length r < 2 ^ 31"
  shows "readv_replies sv (concat (map (range_entry fh) b)) = Inr (concat (map (range_segment fh file) b))"
  using assms(4)
proof (induction b)
  case Nil
  then show ?case by (subst readv_replies.simps) simp
next
  case (Cons r b)
  define body where "body = range_entry fh r @ concat (map (range_entry fh) b)"
  have f: "16 \<le> length body" "take 4 body = fh" "drop 16 body = concat (map (range_entry fh) b)"
    "be_sdec (take 4 (drop 4 body)) = rr_length r" "be_sdec (take 8 (drop 8 body)) = rr_offset r"
    using assms(1) Cons.prems sdec_field [of fh 4 "rr_length r" 4]
      sdec_field [of "fh @ be_enc 4 (nat (rr_length r mod 256 ^ 4))" 8 "rr_offset r" 8]
    by (simp_all add: range_entry_def body_def)
  have "py_slice (rr_offset r) (rr_offset r + rr_length r) file = file_slice file r"
    using py_slice_file [of "rr_offset r" "rr_length r" "file"] Cons.prems by simp
  then have "readv_reply sv fh (rr_length r) (rr_offset r) = Inr (range_segment fh file r)"
    using assms(2,3) by (simp add: readv_reply_def range_segment_def Let_def)
  then have "readv_replies sv body = Inr (range_segment fh file r @ concat (map (range_segment fh file) b))"
    using f Cons by (subst readv_replies.simps) simp
  then show ?case by (simp add: body_def)
qed

lemma walk_segments:
  assumes "length fh = 4" "\<forall>r \<in> set b. 0 \<le> rr_offset r \<and> rr_offset r < 2 ^ 63 \<and> 0 \<le> rr_length r \<and> rr_length r < 2 ^ 31"
  shows "walk (concat (map (range_segment fh file) b)) = (honest file b, None)"
  using assms(2)
proof (induction b)
  case Nil
  then show ?case by (subst walk.simps) (simp add: honest_def)
next
  case (Cons r b)
  let ?d = "file_slice file r" and ?rest = "concat (map (range_segment fh file) b)"
  define body where "body = range_segment fh file r @ ?rest"
  have n: "int (length ?d) < 2 ^ 31" using length_slice [of r "file"] Cons.prems by force
  have f: "be_sdec (take 4 (drop 4 body)) = int (length ?d)" "be_sdec (take 8 (drop 8 body)) = rr_offset r"
    "drop 16 body = ?d @ ?rest" "16 \<le> length body"
    using assms(1) Cons.prems n sdec_field [of fh 4 "int (length ?d)" 4]
      sdec_field [of "fh @ be_enc 4 (length ?d)" 8 "rr_offset r" 8]
    by (simp_all add: range_segment_def body_def)
  then have "walk body = ((rr_offset r, ?d) # honest file b, None)"
    using Cons by (subst walk.simps) (auto simp: Let_def)
  then show ?case by (simp add: body_def honest_def)
qed

lemma wire_readv:
  assumes "ready_for env fh w" "\<forall>r \<in> set b. 0 \<le> rr_offset r \<and> rr_offset r < 2 ^ 63 \<and> 0 \<le> rr_length r"
    and "length b \<le> READV_MAX_CHUNKS" "sum_list (map rr_length b) \<le> READV_MAX_BYTES"
  shows "\<exists>w' body. exchange env crc (readv_for b 0 fh) w = (w', Inr body) \<and> walk body = (honest (file_of fh w) b, None) \<and>
    ready_for env fh w' \<and> file_of fh w' = file_of fh w"
proof -
  obtain m sv where w: "w = (m, sv)" by (cases w)
  obtain path where p: "steady env m" "length fh = 4" "sv_file sv path = Inr (file_of fh (m, sv))"
    "map_of (sv_handles sv) fh = Some path" "holds fh sv (file_of fh (m, sv))"
    using assms(1) w by (auto elim: ready_forE)
  let ?req = "readv_for b 0 fh" and ?file = "file_of fh w"
  let ?out = "concat (map (range_segment fh ?file) b)" and ?body = "concat (map (range_entry fh) b)"
  have "rr_length r \<le> sum_list (map rr_length b)" if "r \<in> set b" for r
    using that assms(2) by (intro member_le_sum_list) auto
  then have r: "\<forall>r \<in> set b. 0 \<le> rr_offset r \<and> rr_offset r < 2 ^ 63 \<and> 0 \<le> rr_length r \<and> rr_length r < 2 ^ 31"
    using assms(2,4) by (fastforce simp: READV_MAX_BYTES_def)
  have "h_readv sid ps ?body sv = (sv, Inr (map (sv_frame sid kXR_oksofar) [] @ [sv_frame sid kXR_ok ?out]))" for sid ps
    using readv_replies_ok [OF p(2,4,3) r] w by (simp add: h_readv_def)
  moreover have "header_params ?req = Inr (replicate 15 0 @ be_enc 1 0)"
    by (simp add: readv_for_def header_params_agree params_def ReadV_params_def Writer_def w_defs pack_u_def)
  moreover have "int (length ?out) \<le> 16 * int (length b) + sum_list (map rr_length b)"
    using r
  proof (induction b)
    case (Cons r b)
    then show ?case using p(2) length_slice [of r ?file] by (auto simp: range_segment_def)
  qed simp
  moreover have "reply_cap ?req = 16 * int (length b) + sum_list (map rr_length b)"
    by (simp add: readv_for_def reply_cap_def ReadV_reply_cap_def comp_def)
  moreover have "length ?body = 16 * length b"
    using p(2) by (induction b) (auto simp: range_entry_def)
  ultimately obtain m' where "exchange env crc ?req w = ((m', sv), Inr ?out)" "steady env m'"
    using exchange_plain [OF p(1), of ?req "replicate 15 0 @ be_enc 1 0" ?body crc h_readv sv sv "[]" ?out]
      readv_payload_ok [OF p(2) r] w assms(3,4)
    by (auto simp: readv_for_def path_data_def req_pathid_def sv_handler_def READV_MAX_CHUNKS_def READV_MAX_BYTES_def)
  then show ?thesis using ready_forI [of env m' fh sv] p(5) w walk_segments [OF p(2) r, of ?file] by auto
qed

subsection \<open>Replies with a status block\<close>

lemma parse_status_block:
  assumes "4 \<le> sid" "sid < 65536" "kXR_1stRequest \<le> opc" "opc < kXR_1stRequest + 256" "int n < 2 ^ 31"
  obtains st where "parse_status (status_block sid opc n off) = Inr st" "si_dlen st = int n" "si_is_final st"
proof -
  have "be_sdec (be_enc 4 n) = int n" using be_sdec_enc [of 4 "int n"] assms(5) by simp
  then have "\<exists>st. parse_status (status_block sid opc n off) = Inr st \<and> si_dlen st = int n \<and> si_is_final st"
    by (simp add: parse_status_def status_block_def r_int_defs r_unpack_def r_take_def r_skip_def r_rest_def
        remaining_def Reader_def si_is_final_def be_dec_def)
  then show ?thesis using that by blast
qed

lemma length_status_block [simp]: "length (status_block sid opc n off) = 24"
  by (simp add: status_block_def)

text \<open>The block, and the data behind it in the same delivery.\<close>

lemma status_data_final:
  assumes "map_of (m_pending m) sid = Some p" "pd_status p = Some st" "si_is_final st" "fits p (length data)"
  shows "on_status_data sid data m
     = ((release sid m)\<lparr>m_events := m_events (release sid m)
          @ [Completed sid (pd_request p) (pd_buffer p @ data) (Some st)]\<rparr>, Inr ())"
  using assms by (simp add: on_status_data_def within_cap_ok finish_def emit_def)

lemma parse_more: "parse_step env fm = (fm', Inr True) \<Longrightarrow> parse env fm = parse env fm'"
  by (simp add: parse.simps [of env fm])

lemma parse_done: "parse_step env fm = (fm', Inr False) \<Longrightarrow> parse env fm = (fm', Inr ())"
  by (simp add: parse.simps [of env fm])

text \<open>The parser's three turns: the block, the data, and nothing left.\<close>

lemma parse_status_reply:
  assumes "at_rest f" "m_state m = READY" "map_of (m_pending m) sid = Some p" "0 \<le> sid" "sid < 65536"
    and "parse_status blk = Inr st" "si_dlen st = int (length data)" "si_is_final st" "data \<noteq> []"
    and "int (length blk) \<le> MAX_RESPONSE_BODY" "fits p (length data)"
  shows "\<exists>f' m'. parse env (f\<lparr>fm_buffer := server_frame (nat sid) 4007 blk @ data\<rparr>, m) = ((f', m'), Inr ()) \<and> at_rest f' \<and>
    m_state m' = READY \<and> m_signer m' = m_signer m \<and> m_out m' = m_out m \<and> m_free m' = m_free (release sid m) \<and>
    m_events m' = m_events m @ [Completed sid (pd_request p) (pd_buffer p @ data) (Some st)]"
proof -
  let ?p = "p\<lparr>pd_status := Some st\<rparr>" and ?frame = "server_frame (nat sid) 4007 blk"
  let ?m1 = "m\<lparr>m_pending := dict_set sid ?p (m_pending m)\<rparr>"
  let ?f1 = "f\<lparr>fm_sid := sid, fm_status := 4007, fm_dlen := - 1, fm_buffer := data,
    fm_need_trailer := int (length data), fm_trailer_for := Some sid\<rparr>"
  have r: "fm_need_trailer f = 0" "fm_dlen f < 0" using assms(1) by (auto simp: at_rest_def)
  have h: "header_fields (?frame @ data) 0 = Inr (sid, 4007, int (length blk))"
    using header_fields_frame [of "nat sid" 4007 blk data] assms(4,5,10) by simp
  have "dispatch env sid 4007 blk m = (?m1, Some (int (length data), Some sid), Inr ())"
    using assms(2,3,6,7,9) by (simp add: dispatch_pending BRINGUP_def handle_def response_status_def Let_def)
  then have one: "parse_step env (f\<lparr>fm_buffer := ?frame @ data\<rparr>, m) = ((?f1, ?m1), Inr True)"
    using r h drop_server_frame [of "nat sid" 4007 blk]
    by (simp add: parse_step_def parse_body_def run_dispatch_def set_trailer_def Let_def)
  let ?f2 = "?f1\<lparr>fm_need_trailer := 0, fm_trailer_for := None, fm_buffer := []\<rparr>"
  let ?m2 = "(release sid ?m1)\<lparr>m_events := m_events m @ [Completed sid (pd_request p) (pd_buffer p @ data) (Some st)]\<rparr>"
  have "on_status_data sid data ?m1 = (?m2, Inr ())"
    using status_data_final [of ?m1 sid ?p st data] assms(8,11) by (simp add: map_of_dict_set fits_def)
  then have two: "parse_step env (?f1, ?m1) = ((?f2, ?m2), Inr True)"
    using assms(9) by (simp add: parse_step_def Let_def)
  have three: "parse_step env (?f2, ?m2) = ((?f2, ?m2), Inr False)" by (simp add: parse_step_def)
  have "parse env (f\<lparr>fm_buffer := ?frame @ data\<rparr>, m) = ((?f2, ?m2), Inr ())"
    by (rule trans [OF parse_more [OF one] trans [OF parse_more [OF two] parse_done [OF three]]])
  moreover have "m_free (release sid ?m1) = m_free (release sid m)"
    using map_of_Some_keys [OF assms(3)] by (simp add: release_def Let_def)
  ultimately show ?thesis using assms(2) by (simp add: at_rest_def)
qed

lemma receive_status:
  assumes "at_rest (the_framer 0 m)" "m_state m = READY" "map_of (m_pending m) sid = Some p" "4 \<le> sid" "sid < 65536"
    and "parse_status blk = Inr st" "si_dlen st = int (length data)" "si_is_final st"
    and "int (length blk) \<le> MAX_RESPONSE_BODY" "fits p (length data)"
  shows "\<exists>m'. receive_data env (server_frame (nat sid) 4007 blk @ data) 0 m = (m', Inr ()) \<and> undisturbed 0 m m' \<and>
    m_free m' = m_free m @ [sid] \<and>
    m_events m' = m_events m @ [Completed sid (pd_request p) (pd_buffer p @ data) (Some st)]"
proof -
  let ?frame = "server_frame (nat sid) 4007 blk" and ?f = "the_framer 0 m"
  let ?m = "put_framer 0 ?f m"
  have free: "m_free (release sid ?m) = m_free m @ [sid]"
    using release_frees [of sid ?m] map_of_Some_keys [OF assms(3)] assms(4) by (simp add: FIRST_SID_def)
  show ?thesis
  proof (cases "data = []")
    case True
    let ?p = "p\<lparr>pd_status := Some st\<rparr>"
    let ?m1 = "?m\<lparr>m_pending := dict_set sid ?p (m_pending m)\<rparr>"
    have "dispatch env sid 4007 blk ?m = no_trailer (on_status_data sid [] ?m1)"
      using assms(2,3,6,7) True by (simp add: dispatch_pending BRINGUP_def handle_def response_status_def Let_def)
    then have "dispatch env (int (nat sid)) (int 4007) blk ?m
        = ((release sid ?m1)\<lparr>m_events := m_events m @ [Completed sid (pd_request p) (pd_buffer p) (Some st)]\<rparr>, None, Inr ())"
      using status_data_final [of ?m1 sid ?p st "[]"] assms(4,8,10) True
      by (simp add: map_of_dict_set fits_def no_trailer_def)
    moreover have "m_free (release sid ?m1) = m_free m @ [sid]"
      using release_frees [of sid ?m1] assms(4) by (simp add: FIRST_SID_def)
    ultimately show ?thesis
      using receive_frame [OF assms(1) _ _ assms(9)] True assms(1,2,4,5) by (simp add: undisturbed_def)
  next
    case False
    have len: "header_fields (?frame @ data) 0 = Inr (sid, 4007, int (length blk))"
      using header_fields_frame [of "nat sid" 4007 blk data] assms(4,5,9) by simp
    have "map_of (m_pending ?m) sid = Some p" "m_state ?m = READY" using assms(2,3) by simp_all
    from parse_status_reply [OF assms(1) this(2,1) _ assms(5-8) False assms(9,10), of env] assms(4) obtain f' m' where
      q: "parse env (?f\<lparr>fm_buffer := ?frame @ data\<rparr>, ?m) = ((f', m'), Inr ())" "at_rest f'"
      "m_state m' = READY" "m_signer m' = m_signer m" "m_out m' = m_out m" "m_free m' = m_free (release sid ?m)"
      "m_events m' = m_events m @ [Completed sid (pd_request p) (pd_buffer p @ data) (Some st)]"
      by auto
    have "whole_frame env (?frame @ data) (?f, ?m) = ((?f, ?m), Inr False)"
      using len assms(1) False by (simp add: whole_frame_def)
    moreover have "fm_buffer ?f = []" using assms(1) by (simp add: at_rest_def)
    ultimately have "feed env (?frame @ data) (?f, ?m) = ((f', m'), Inr ())" using q(1) by (simp add: feed_def)
    then have "receive_data env (?frame @ data) 0 m = (put_framer 0 f' m', Inr ())"
      using False by (simp add: receive_data_def Let_def)
    then show ?thesis using q(2-7) free assms(2) by (simp add: undisturbed_def)
  qed
qed

lemma exchange_status:
  assumes "steady env m" "req_pathid req = 0" "path_data req = []"
    and "header_params req = Inr ps" "payload req = Inr body" "int (length body) \<le> MAX_FRAME_PAYLOAD"
    and "sv_handler crc (trailer req) (opcode req) = Some h"
    and "\<And>sid. h sid ps body sv = (sv', Inr [sv_frame sid kXR_status (status_block sid (opcode req) (length data) off) @ data])"
    and "kXR_1stRequest \<le> opcode req" "opcode req < kXR_1stRequest + 256"
    and "int (length data) < 2 ^ 31" "int (length data) \<le> reply_cap req"
  shows "\<exists>m'. exchange env crc req (m, sv) = ((m', sv'), Inr data) \<and> steady env m'"
proof (rule exchange_answered [OF assms(1-3)])
  show "\<exists>parts. encode_parts req sid = Inr parts" for sid
    using encode_parts_unfold [OF assms(4,5), of sid] assms(3,6) by auto
  fix sid parts
  assume e: "encode_parts req sid = Inr parts" "4 \<le> sid" "sid < 65536"
  let ?blk = "status_block sid (opcode req) (length data) off"
  obtain st where st: "parse_status ?blk = Inr st" "si_dlen st = int (length data)" "si_is_final st"
    by (rule parse_status_block [OF e(2,3) assms(9-11)])
  have "\<exists>m' bodies st. receive_all env [sv_frame sid kXR_status ?blk @ data] 0 m = (m', Inr ()) \<and> undisturbed 0 m m' \<and>
      m_free m' = m_free m @ [sid] \<and>
      m_events m' = m_events m @ map (Chunk sid req) bodies @ [Completed sid req data st]"
    if m: "at_rest (the_framer 0 m)" "m_state m = READY" "map_of (m_pending m) sid = Some p"
      "pd_request p = req" "pd_buffer p = []" "pd_cap p = reply_cap req" for m p
  proof -
    have "fits p (length data)" using m(5,6) assms(12) by (simp add: fits_def)
    from receive_status [OF m(1-3) e(2,3) st _ this, of env] obtain m' where
      "receive_data env (server_frame (nat sid) 4007 ?blk @ data) 0 m = (m', Inr ())" "undisturbed 0 m m'"
      "m_free m' = m_free m @ [sid]" "m_events m' = m_events m @ [Completed sid req data (Some st)]"
      using m(4,5) by auto
    then show ?thesis
      by (intro exI [of _ m'] exI [of _ "[]"] exI [of _ "Some st"]) (simp add: sv_frame_parts)
  qed
  then show "\<exists>frames. serve crc (concat parts) sv = (sv', Some frames) \<and>
        (\<forall>m p. at_rest (the_framer 0 m) \<and> m_state m = READY \<and> map_of (m_pending m) sid = Some p \<and>
           pd_request p = req \<and> pd_buffer p = [] \<and> pd_status p = None \<and> pd_cap p = reply_cap req \<longrightarrow>
         (\<exists>m' bodies st. receive_all env frames 0 m = (m', Inr ()) \<and> undisturbed 0 m m' \<and>
           m_free m' = m_free m @ [sid] \<and>
           m_events m' = m_events m @ map (Chunk sid req) bodies @ [Completed sid req data st]))"
    using serve_encoded [OF e(1) assms(4,5,3) e(2,3) assms(7,8)] by blast
qed

subsection \<open>The server's side of paged I/O\<close>

text \<open>How many pages of the file \<open>n\<close> bytes at \<open>off\<close> touch.\<close>

definition page_count :: "int \<Rightarrow> int \<Rightarrow> int" where
  "page_count off n = (off mod 4096 + n + 4095) div 4096"

lemma page_count_mono: "n \<le> k \<Longrightarrow> page_count off n \<le> page_count off k"
  by (simp add: page_count_def zdiv_mono1)

lemma page_count_bounds: "0 \<le> n \<Longrightarrow> 0 \<le> page_count off n \<and> 4096 * page_count off n \<le> n + 8190"
  using pos_mod_bound [of 4096 off] pos_mod_sign [of 4096 off] unfolding page_count_def by linarith

lemma page_count_pos: "0 < n \<Longrightarrow> 1 \<le> page_count off n"
  using pos_mod_sign [of 4096 off] unfolding page_count_def by linarith

lemma length_pack_pages:
  assumes "data \<noteq> []"
  shows "int (length (pack_pages crc data off)) = int (length data) + 4 * page_count off (int (length data))"
proof -
  have "int (length (pack_pages crc data off))
      = int (length data) + 4 * (1 + (int (length data) - (4096 - off mod 4096) + 4095) div 4096)"
    using length_pack_loop [OF first_page_bounds assms, of crc off] first_page_int [of off]
    by (simp add: pack_pages_def PAGE_SIZE_def)
  moreover have "1 + (int (length data) - (4096 - off mod 4096) + 4095) div 4096 = page_count off (int (length data))"
    using div_add_self2 [of 4096 "int (length data) - (4096 - off mod 4096) + 4095"]
    by (simp add: page_count_def algebra_simps)
  ultimately show ?thesis by simp
qed

lemma pgread_cap: "PgRead_reply_cap off n = n + 4 * page_count off n"
proof -
  have "- ((- (off mod 4096 + n)) div 4096) = page_count off n" unfolding page_count_def by linarith
  then show ?thesis by (simp add: PgRead_reply_cap_def Let_def)
qed

lemma packed_within:
  assumes "length data \<le> n"
  shows "int (length (pack_pages crc data off)) \<le> int n + 4 * page_count off (int n)"
proof (cases "data = []")
  case True
  then show ?thesis using page_count_bounds [of "int n" off] by (simp add: pack_pages_def)
next
  case False
  then show ?thesis
    using assms length_pack_pages [OF False, of crc off] page_count_mono [of "int (length data)" "int n" off] by simp
qed

lemma wire_pgread:
  assumes "ready_for env fh w" "0 \<le> off" "off < 2 ^ 63" "0 \<le> len" "len \<le> 1000000000"
  shows "\<exists>w'. exchange env crc (PgRead_init fh off len False 0) w
      = (w', Inr (pack_pages crc (file_slice (file_of fh w) (ReadRange off len)) off)) \<and>
    ready_for env fh w' \<and> file_of fh w' = file_of fh w"
proof -
  obtain m sv where w: "w = (m, sv)" by (cases w)
  obtain path where p: "steady env m" "length fh = 4" "sv_path sv fh = Inr path" "sv_file sv path = Inr (file_of fh (m, sv))"
    "map_of (sv_handles sv) fh = Some path" "holds fh sv (file_of fh (m, sv))"
    using assms(1) w by (auto elim: ready_forE)
  let ?data = "pack_pages crc (file_slice (file_of fh w) (ReadRange off len)) off"
  let ?ps = "fh @ be_enc 8 (nat (off mod 256 ^ 8)) @ be_enc 4 (nat (len mod 256 ^ 4))"
  have "length (file_slice (file_of fh w) (ReadRange off len)) \<le> nat len"
    using length_slice [of "ReadRange off len" "file_of fh w"] assms(4) by (simp add: ReadRange_def)
  from packed_within [OF this, of crc off] have cap: "int (length ?data) \<le> len + 4 * page_count off len" using assms(4) by simp
  moreover have "4096 * page_count off len \<le> len + 8190" using page_count_bounds [OF assms(4), of off] by simp
  ultimately have small: "int (length ?data) < 2 ^ 31" using assms(5) by simp
  have h: "h_pgread crc sid ?ps [] sv
      = (sv, Inr [sv_frame sid kXR_status (status_block sid (opcode (PgRead fh off len 0 0)) (length ?data) off) @ ?data])" for sid
    using p w assms sdec_field [of fh 4 off 8] sdec_field [of "fh @ be_enc 8 (nat (off mod 256 ^ 8))" 12 len 4 "[]"]
    by (simp add: h_pgread_def py_slice_file Let_def)
  have ps: "header_params (PgRead fh off len 0 0) = Inr ?ps"
    using read_params_ok [of fh off len] p(2) assms(2-5) by (simp add: header_params_def PgRead_header_params_def)
  have "\<exists>m'. exchange env crc (PgRead fh off len 0 0) (m, sv) = ((m', sv), Inr ?data) \<and> steady env m'"
    by (rule exchange_status [where h = "h_pgread crc" and body = "[]", OF p(1) _ _ ps _ _ _ h])
       (use cap small in \<open>simp_all add: payload_def PgRead_payload_def path_data_def req_pathid_def sv_handler_def
          reply_cap_def pgread_cap\<close>)
  then show ?thesis using ready_forI [OF _ p(6)] w by (auto simp: PgRead_init_def)
qed

text \<open>The pages the server pretends to have found damaged.\<close>

lemma page_span_step:
  assumes "pos < stop"
  shows "0 < page_span pos (stop - pos)" "pos + page_span pos (stop - pos) \<le> stop"
  using assms by (auto simp: page_span_def PAGE_SIZE_def)

lemma page_count_step:
  assumes "pos < stop"
  shows "1 + (if pos + page_span pos (stop - pos) < stop then page_count (pos + page_span pos (stop - pos)) (stop - (pos + page_span pos (stop - pos))) else 0)
    \<le> page_count pos (stop - pos)"
proof (cases "pos + page_span pos (stop - pos) < stop")
  case True
  then have span: "page_span pos (stop - pos) = 4096 - pos mod 4096" by (auto simp: page_span_def PAGE_SIZE_def min_def split: if_splits)
  have "pos + (4096 - pos mod 4096) = 4096 * (pos div 4096 + 1)"
    using minus_mod_eq_mult_div [of pos 4096] by (simp add: algebra_simps)
  then have "(pos + (4096 - pos mod 4096)) mod 4096 = 0" by (simp only: mod_mult_self1_is_0)
  moreover have "1 + (stop - (pos + (4096 - pos mod 4096)) + 4095) div 4096 = (pos mod 4096 + (stop - pos) + 4095) div 4096"
    using div_add_self2 [of 4096 "stop - (pos + (4096 - pos mod 4096)) + 4095"] by (simp add: algebra_simps)
  ultimately show ?thesis using True by (simp add: span page_count_def)
next
  case False
  then show ?thesis using page_count_pos [of "stop - pos" pos] assms by simp
qed

lemma inject_facts:
  "inject pos stop knobs = (bad, knobs') \<Longrightarrow>
   set bad \<subseteq> {pos..<stop} \<and> int (length bad) \<le> (if pos < stop then page_count pos (stop - pos) else 0)"
proof (induction pos stop knobs arbitrary: bad knobs' rule: inject.induct)
  case (1 pos stop knobs)
  show ?case
  proof (cases "stop \<le> pos")
    case True
    then show ?thesis using "1.prems" by (simp add: inject.simps [of pos])
  next
    case False
    let ?n = "case map_of knobs pos of None \<Rightarrow> 0 | Some n \<Rightarrow> n"
    let ?k = "if ?n \<noteq> 0 then dict_set pos (?n - 1) knobs else knobs"
    obtain b k where r: "inject (pos + page_span pos (stop - pos)) stop ?k = (b, k)" by fastforce
    have "bad = (if ?n \<noteq> 0 then pos # b else b)"
      using "1.prems" False r by (simp add: inject.simps [of pos] Let_def)
    then show ?thesis
      using "1.IH" [OF False refl refl r] page_count_step [of pos stop] page_span_step [of pos stop] False
      by (auto split: if_splits)
  qed
qed

definition cse_tail :: "int list \<Rightarrow> bytes" where
  "cse_tail bad = be_enc 4 0 @ be_enc 2 4096 @ be_enc 2 4096 @ concat (map (\<lambda>off. be_enc 8 (nat (off mod 2 ^ 64))) bad)"

lemma length_cse_tail: "length (cse_tail bad) = 8 + 8 * length bad"
  unfolding cse_tail_def by (induction bad) auto

lemma parse_cse_tail:
  assumes "set bad \<subseteq> {0..<2 ^ 63}"
  shows "parse_pgwrite_cse (cse_tail bad) = Inr bad"
proof -
  let ?bss = "map (\<lambda>off. be_enc 8 (nat (off mod 2 ^ 64))) bad" and ?pre = "be_enc 4 0 @ be_enc 2 4096 @ be_enc 2 4096"
  have "rmap (pack_i 8) bad = Inr ?bss"
    using assms
  proof (induction bad)
    case (Cons p bad)
    then show ?case using pack_i_ok [of p 8] by simp
  qed simp
  from i64.r_many_put [OF this, of ?pre "[]"]
  have "r_many r_i64 (length bad) \<lparr>rbuf = cse_tail bad, rpos = 8\<rparr>
      = Inr (bad, \<lparr>rbuf = cse_tail bad, rpos = 8 + 8 * length bad\<rparr>)"
    by (simp add: cse_tail_def)
  then show ?thesis
    by (simp add: parse_pgwrite_cse_def Let_def length_cse_tail r_skip_def r_take_def Reader_def)
qed

lemma ceil_units: "4100 * (c - 2) < x \<Longrightarrow> c - 1 \<le> - ((- x) div 4100)" for x :: int
  using mult_div_mod_eq [of 4100 "- x"] pos_mod_sign [of 4100 "- x"] by simp

lemma cse_within_cap:
  assumes "d \<noteq> []" "int (length bad) \<le> page_count off (int (length d))"
  shows "int (length (cse_tail bad)) \<le> PgWrite_reply_cap (pack_pages crc d off)"
proof -
  let ?n = "int (length d)" and ?c = "page_count off (int (length d))"
  have "4096 * ?c \<le> ?n + 8190" using page_count_bounds [of ?n off] by simp
  then have "4100 * (?c - 2) < ?n + 4 * ?c" by (simp add: algebra_simps)
  then have "?c - 1 \<le> - ((- (?n + 4 * ?c)) div 4100)" by (rule ceil_units)
  then show ?thesis
    using assms(2) by (simp add: PgWrite_reply_cap_def Let_def length_cse_tail length_pack_pages [OF assms(1)])
qed

text \<open>The pages a paged write is answered with, and what is left of the server's knobs.\<close>

definition injected :: "server \<Rightarrow> int \<Rightarrow> nat \<Rightarrow> int list" where
  "injected sv off n = sorted_list_of_set (set (fst (inject off (off + int n) (sv_pgwrite_corrupt sv))))"

lemma injected_facts:
  assumes "0 < n"
  shows "set (injected sv off n) \<subseteq> {off..<off + int n}" "int (length (injected sv off n)) \<le> page_count off (int n)"
proof -
  obtain bad knobs where b: "inject off (off + int n) (sv_pgwrite_corrupt sv) = (bad, knobs)" by fastforce
  from inject_facts [OF b] assms show "set (injected sv off n) \<subseteq> {off..<off + int n}"
    by (simp add: injected_def b)
  have "length (injected sv off n) \<le> length bad" by (simp add: injected_def b card_length)
  then show "int (length (injected sv off n)) \<le> page_count off (int n)"
    using inject_facts [OF b] assms by simp
qed

lemma wire_pgwrite:
  assumes "ready_for env fh (m, sv)" "0 \<le> off" "off + int (length d) < 2 ^ 63" "d \<noteq> []" "length d \<le> 1000000000"
  shows "\<exists>m' sv'. exchange env crc (PgWrite_init fh off (pack_pages crc d off) retry 0) (m, sv)
      = ((m', sv'), Inr (if injected sv off (length d) = [] then [] else cse_tail (injected sv off (length d)))) \<and>
    ready_for env fh (m', sv') \<and> file_of fh (m', sv') = overwrite (file_of fh (m, sv)) (nat off) d \<and>
    sv_pgwrite_corrupt sv' = snd (inject off (off + int (length d)) (sv_pgwrite_corrupt sv))"
proof -
  obtain path where p: "steady env m" "length fh = 4" "sv_path sv fh = Inr path" "sv_file sv path = Inr (file_of fh (m, sv))"
    "map_of (sv_handles sv) fh = Some path" "holds fh sv (file_of fh (m, sv))"
    using assms(1) by (rule ready_forE)
  define body where "body = pack_pages crc d off"
  define flags where "flags = (if retry then kXR_pgRetry else 0)"
  define bad where "bad = injected sv off (length d)"
  define knobs where "knobs = snd (inject off (off + int (length d)) (sv_pgwrite_corrupt sv))"
  define sv' where "sv' = (put_file path (overwrite (file_of fh (m, sv)) (nat off) d) sv)\<lparr>sv_pgwrite_corrupt := knobs\<rparr>"
  let ?req = "PgWrite fh off body flags 0"
  let ?ps = "fh @ be_enc 8 (nat (off mod 256 ^ 8)) @ be_enc 1 0 @ be_enc 1 (nat flags) @ replicate 2 0"
  have ps: "header_params ?req = Inr ?ps"
    using pack_i_ok [of off 8] assms(2,3) p(2)
    by (simp add: header_params_agree params_def PgWrite_params_def Writer_def w_defs pad_handle pack_u_def flags_def)
  have unpack: "unpack_pages crc body off = (d, [])"
    by (simp add: body_def unpack_pages_def pack_pages_def unpack_pack_loop first_page_bounds)
  have "page_count off (int (length d)) \<le> length d + 8190" using page_count_bounds [of "int (length d)" off] by linarith
  then have body: "int (length body) \<le> MAX_FRAME_PAYLOAD"
    using length_pack_pages [OF assms(4), of crc off] page_count_bounds [of "int (length d)" off] assms(5)
    unfolding body_def by linarith
  have "write_at fh off d sv = (put_file path (overwrite (file_of fh (m, sv)) (nat off) d) sv, Inr ())"
    using p(3,4) assms(2) by (simp add: write_at_def splice_overwrite)
  then have h: "h_pgwrite crc sid ?ps body sv
      = (sv', Inr [if bad \<noteq> [] then sv_frame sid kXR_status (status_block sid (opcode ?req) (length (cse_tail bad)) 0) @ cse_tail bad
                   else sv_frame sid kXR_ok []])" for sid
    using unpack p(2) assms(2,3) sdec_field [of fh 4 off 8]
    by (simp add: h_pgwrite_def Let_def put_file_def sv'_def bad_def injected_def knobs_def pgwrite_cse_def cse_tail_def
        split: prod.splits)
  have holds': "holds fh sv' (overwrite (file_of fh (m, sv)) (nat off) d)"
    using holds_put_file [OF p(5,6), of "overwrite (file_of fh (m, sv)) (nat off) d"] by (simp add: sv'_def holds_def)
  have common: "req_pathid ?req = 0" "path_data ?req = []" "payload ?req = Inr body"
    "sv_handler crc (trailer ?req) (opcode ?req) = Some (h_pgwrite crc)" "reply_cap ?req = PgWrite_reply_cap body"
    by (simp_all add: req_pathid_def path_data_def PgWrite_path_data_def payload_def PgWrite_payload_def sv_handler_def
        reply_cap_def)
  have cap: "int (length (cse_tail bad)) \<le> PgWrite_reply_cap body" "set bad \<subseteq> {0..<2 ^ 63}"
    using cse_within_cap [OF assms(4), of "injected sv off (length d)" off crc] injected_facts [of "length d" sv off] assms(2-4)
    unfolding bad_def body_def by (auto; fastforce)+
  have small: "int (length (cse_tail bad)) < 2 ^ 31"
    using injected_facts(2) [of "length d" sv off] page_count_bounds [of "int (length d)" off] assms(4,5)
    by (auto simp: length_cse_tail bad_def)
  have "\<exists>m'. exchange env crc ?req (m, sv) = ((m', sv'), Inr (if bad = [] then [] else cse_tail bad)) \<and> steady env m'"
  proof (cases "bad = []")
    case True
    then have "h_pgwrite crc sid ?ps body sv = (sv', Inr (map (sv_frame sid kXR_oksofar) [] @ [sv_frame sid kXR_ok []]))" for sid
      using h by simp
    from exchange_plain [OF p(1) common(1,2) ps common(3) body common(4) this] True cap(1) common(5) show ?thesis
      by (simp add: length_cse_tail)
  next
    case False
    then have "h_pgwrite crc sid ?ps body sv
        = (sv', Inr [sv_frame sid kXR_status (status_block sid (opcode ?req) (length (cse_tail bad)) 0) @ cse_tail bad])" for sid
      using h by simp
    from exchange_status [OF p(1) common(1,2) ps common(3) body common(4) this] False cap(1) small common(5) show ?thesis
      by simp
  qed
  then show ?thesis
    using ready_forI [OF _ holds'] by (auto simp: PgWrite_init_def flags_def body_def bad_def sv'_def knobs_def)
qed

subsection \<open>The transfers on the wire\<close>

interpretation wire: vector_file "exchange env crc" fh "file_of fh" "ready_for env fh" for env crc fh
  by unfold_locales (rule wire_read wire_write wire_truncate wire_readv; assumption)+

interpretation wire_pages: paged_file "exchange env crc" fh "file_of fh" "ready_for env fh" crc for env crc fh
proof unfold_locales
  fix w :: "machine \<times> server" and off :: int and d :: bytes and retry :: bool
  assume a: "ready_for env fh w" "0 \<le> off" "off + int (length d) < 2 ^ 63" "d \<noteq> []" "length d \<le> 1000000000"
  let ?bad = "injected (snd w) off (length d)"
  have "set ?bad \<subseteq> {off..<off + int (length d)}" using injected_facts(1) [of "length d" "snd w" off] a(4) by simp
  then have "set ?bad \<subseteq> {0..<2 ^ 63}" using a(2,3) by (auto; fastforce)
  then have "parse_pgwrite_cse (cse_tail ?bad) = Inr ?bad" by (rule parse_cse_tail)
  moreover have "cse_tail ?bad \<noteq> []" using length_cse_tail [of ?bad] by force
  ultimately show "\<exists>w' reply d' bad. exchange env crc (PgWrite_init fh off (pack_pages crc d off) retry 0) w = (w', Inr reply) \<and>
         (if reply = [] then bad = [] else parse_pgwrite_cse reply = Inr bad \<and> bad \<noteq> []) \<and>
         ready_for env fh w' \<and> file_of fh w' = overwrite (file_of fh w) (nat off) d' \<and> length d' = length d \<and>
         (\<forall>i < length d. \<not> reported bad off (length d) i \<longrightarrow> d' ! i = d ! i)"
    using wire_pgwrite [of env fh "fst w" "snd w" off d crc retry] a
    by (cases "?bad = []") (fastforce intro: exI [of _ d])+
qed (rule wire_pgread; assumption)+

end
