(* ===== verification/End_To_End.thy ===== *)
theory End_To_End
  imports Exchange
begin

text \<open>
  What a caller of the file API gets, with every layer in between: the transfer loops of
  \<open>File_Transfer\<close>, the request encoders, the protocol machine with its framing and stream
  bookkeeping, and the server's handlers. Each theorem is about the composition \<open>exchange\<close>;
  the lemmas behind them come from the interpretations of the transfer locales on it.
\<close>

subsection \<open>Reading through the readahead block\<close>

text \<open>A handle open on a file behind a connection that is ready.\<close>

definition usable :: "env \<Rightarrow> bytes \<Rightarrow> file_state \<Rightarrow> machine \<times> server \<Rightarrow> bool" where
  "usable env fh f w \<longleftrightarrow> plain fh f \<and> ready_for env fh w"

interpretation ahead: data_plane "event_plane (exchange env crc) (int (Suc n))" "file_of fh" "usable env fh"
  "if int (Suc n) \<le> MAX_RESPONSE_BODY then 2 ^ 63 else 0" False for env crc n fh
proof unfold_locales
  fix f and w :: "machine \<times> server" and len off :: int
  assume a: "usable env fh f w" "0 \<le> len" "0 \<le> off" "off + len < (if int (Suc n) \<le> MAX_RESPONSE_BODY then 2 ^ 63 else 0)"
  then have small: "int (Suc n) \<le> MAX_RESPONSE_BODY" "off + len < 2 ^ 63" by (auto split: if_splits)
  obtain w' where "event_read (exchange env crc) (int (Suc n)) len off (f, w)
      = ((f, w'), Inr (file_slice (file_of fh w) (ReadRange off len)))" "ready_for env fh w'" "file_of fh w' = file_of fh w"
    by (rule wire.event_read_ok [of fh f env w off len "int (Suc n)" crc]) (use a small in \<open>auto simp: usable_def\<close>)
  then show "\<exists>w' got. event_plane (exchange env crc) (int (Suc n)) len off (f, w) = ((f, w'), Inr got) \<and> usable env fh f w' \<and>
      file_of fh w' = file_of fh w \<and> got \<in> may_decline False (file_slice (file_of fh w) (ReadRange off len))"
    using a(1) by (auto simp: event_plane_def usable_def may_decline_def)
qed (simp add: usable_def plain_def)

subsection \<open>The retry budget of paged writes\<close>

text \<open>How often the server still refuses a page, and the pages of a write.\<close>

definition knob :: "(int \<times> int) list \<Rightarrow> int \<Rightarrow> int" where
  "knob knobs p = (case map_of knobs p of None \<Rightarrow> 0 | Some n \<Rightarrow> n)"

function page_list :: "int \<Rightarrow> int \<Rightarrow> int list" where
  "page_list p stop = (if stop \<le> p then [] else p # page_list (p + page_span p (stop - p)) stop)"
  by auto
termination
  by (relation "measure (\<lambda>(p, stop). nat (stop - p))") (auto simp: page_span_def PAGE_SIZE_def min_def)

declare page_list.simps [simp del]

lemma knob_set: "knob (dict_set p n knobs) q = (if q = p then n else knob knobs q)"
  by (simp add: knob_def map_of_dict_set)

lemma page_list_bounds: "set (page_list p stop) \<subseteq> {p..<stop} \<and> sorted (page_list p stop) \<and> distinct (page_list p stop)"
proof (induction p stop rule: page_list.induct)
  case (1 p stop)
  show ?case
  proof (cases "stop \<le> p")
    case True
    then show ?thesis by (simp add: page_list.simps [of p])
  next
    case False
    then show ?thesis
      using "1.IH" page_span_step [of p stop] by (fastforce simp: page_list.simps [of p])
  qed
qed

lemma inject_exact:
  "fst (inject p stop knobs) = filter (\<lambda>q. knob knobs q \<noteq> 0) (page_list p stop) \<and>
   knob (snd (inject p stop knobs)) q
     = knob knobs q - (if q \<in> set (page_list p stop) \<and> knob knobs q \<noteq> 0 then 1 else 0)"
proof (induction p stop knobs arbitrary: q rule: inject.induct)
  case (1 p stop knobs)
  show ?case
  proof (cases "stop \<le> p")
    case True
    then show ?thesis by (simp add: inject.simps [of p] page_list.simps [of p])
  next
    case False
    let ?k = "if knob knobs p \<noteq> 0 then dict_set p (knob knobs p - 1) knobs else knobs"
    let ?rest = "page_list (p + page_span p (stop - p)) stop"
    have IH: "fst (inject (p + page_span p (stop - p)) stop ?k) = filter (\<lambda>q. knob ?k q \<noteq> 0) ?rest \<and>
        knob (snd (inject (p + page_span p (stop - p)) stop ?k)) q
          = knob ?k q - (if q \<in> set ?rest \<and> knob ?k q \<noteq> 0 then 1 else 0)" for q
      by (rule "1.IH" [OF False refl refl, folded knob_def])
    have out: "p \<notin> set ?rest"
      using page_list_bounds [of "p + page_span p (stop - p)" stop] page_span_step [of p stop] False by auto
    have same: "filter (\<lambda>q. knob ?k q \<noteq> 0) ?rest = filter (\<lambda>q. knob knobs q \<noteq> 0) ?rest"
      by (rule filter_cong) (use out in \<open>auto simp: knob_set\<close>)
    have "inject p stop knobs = (case inject (p + page_span p (stop - p)) stop ?k of
        (bad, knobs'') \<Rightarrow> (if knob knobs p \<noteq> 0 then p # bad else bad, knobs''))"
      using False by (simp add: inject.simps [of p] knob_def Let_def)
    then show ?thesis
      using IH same out False by (auto simp: page_list.simps [of p] knob_set split: prod.splits)
  qed
qed

lemma injected_exact:
  "injected sv off n = filter (\<lambda>p. knob (sv_pgwrite_corrupt sv) p \<noteq> 0) (page_list off (off + int n))"
  unfolding injected_def inject_exact [THEN conjunct1]
  by (rule sorted_list_of_set.idem_if_sorted_distinct) (use page_list_bounds in \<open>auto simp: sorted_wrt_filter\<close>)

lemma one_page: "0 < n \<Longrightarrow> page_span p n = n \<Longrightarrow> page_list p (p + n) = [p]"
  by (simp add: page_list.simps [of p "p + n"] page_list.simps [of "p + n" "p + n"])

lemma once_exact:
  assumes "plain fh f" "ready_for env fh (m, sv)" "0 \<le> off" "off + int (length d) < 2 ^ 63" "d \<noteq> []" "length d \<le> 1000000000"
  obtains m' sv' where "pgwrite_once crc (exchange env crc) d off retry (f, m, sv)
      = ((f, m', sv'), Inr (filter (\<lambda>p. knob (sv_pgwrite_corrupt sv) p \<noteq> 0) (page_list off (off + int (length d)))))"
    "ready_for env fh (m', sv')"
    "\<And>q. knob (sv_pgwrite_corrupt sv') q = knob (sv_pgwrite_corrupt sv) q
      - (if q \<in> set (page_list off (off + int (length d))) \<and> knob (sv_pgwrite_corrupt sv) q \<noteq> 0 then 1 else 0)"
proof -
  let ?bad = "injected sv off (length d)"
  obtain m' sv' where w: "exchange env crc (PgWrite_init fh off (pack_pages crc d off) retry 0) (m, sv)
      = ((m', sv'), Inr (if ?bad = [] then [] else cse_tail ?bad))" "ready_for env fh (m', sv')"
    "sv_pgwrite_corrupt sv' = snd (inject off (off + int (length d)) (sv_pgwrite_corrupt sv))"
    using wire_pgwrite [OF assms(2-6)] by blast
  have "set ?bad \<subseteq> {off..<off + int (length d)}" using injected_facts(1) [of "length d" sv off] assms(5) by simp
  then have "set ?bad \<subseteq> {0..<2 ^ 63}" using assms(3,4) by (auto; fastforce)
  then have cse: "parse_pgwrite_cse (cse_tail ?bad) = Inr ?bad" by (rule parse_cse_tail)
  have ne: "cse_tail ?bad \<noteq> []" using length_cse_tail [of ?bad] by force
  have "pgwrite_once crc (exchange env crc) d off retry (f, m, sv) = ((f, m', sv'), Inr ?bad)"
    using w(1) cse ne assms(1)
    by (auto simp: pgwrite_once_def the_handle_def plain_def submit_write_def call_router_def split_path_def)
  then show ?thesis using w(2,3) inject_exact by (intro that [of m' sv']) (auto simp: injected_exact)
qed

lemma retry_exact:
  assumes "plain fh f" "ready_for env fh (m, sv)" "0 \<le> p" "p + int (length page) < 2 ^ 63" "page \<noteq> []" "length page \<le> 1000000000"
    and "page_list p (p + int (length page)) = [p]" "0 \<le> knob (sv_pgwrite_corrupt sv) p"
  shows "\<exists>m' sv'. retry_loop crc (exchange env crc) n page p (f, m, sv)
      = ((f, m', sv'), if knob (sv_pgwrite_corrupt sv) p < int n then Inr () else Inl (PageIntegrityError p PGW_MAX_RETRY)) \<and>
    ready_for env fh (m', sv') \<and>
    (\<forall>q. q \<noteq> p \<longrightarrow> knob (sv_pgwrite_corrupt sv') q = knob (sv_pgwrite_corrupt sv) q)"
  using assms(2,8)
proof (induction n arbitrary: m sv)
  case 0
  then show ?case by auto
next
  case (Suc n)
  obtain m1 sv1 where one: "pgwrite_once crc (exchange env crc) page p True (f, m, sv)
      = ((f, m1, sv1), Inr (filter (\<lambda>q. knob (sv_pgwrite_corrupt sv) q \<noteq> 0) [p]))" "ready_for env fh (m1, sv1)"
    "\<And>q. knob (sv_pgwrite_corrupt sv1) q = knob (sv_pgwrite_corrupt sv) q
      - (if q \<in> set [p] \<and> knob (sv_pgwrite_corrupt sv) q \<noteq> 0 then 1 else 0)"
    by (rule once_exact [where retry = True and crc = crc, OF assms(1) Suc.prems(1) assms(3-6)]) (auto simp: assms(7))
  show ?case
  proof (cases "knob (sv_pgwrite_corrupt sv) p = 0")
    case True
    then show ?thesis using one by auto
  next
    case False
    then have "0 \<le> knob (sv_pgwrite_corrupt sv1) p" using one(3) [of p] Suc.prems(2) by auto
    from Suc.IH [OF one(2) this] False one show ?thesis by auto
  qed
qed

lemma page_of_list:
  assumes "p \<in> set (page_list off (off + int (length data)))"
  defines "page \<equiv> take (nat (page_span p (int (length data) - (p - off)))) (drop (nat (p - off)) data)"
  shows "page \<noteq> []" "length page \<le> length data" "page_list p (p + int (length page)) = [p]" "off \<le> p" "p < off + int (length data)"
    "p + int (length page) \<le> off + int (length data)"
proof -
  show b: "off \<le> p" "p < off + int (length data)" using page_list_bounds [of off "off + int (length data)"] assms(1) by auto
  let ?left = "int (length data) - (p - off)"
  have span: "0 < page_span p ?left" "page_span p ?left \<le> ?left" using b by (auto simp: page_span_def PAGE_SIZE_def)
  then have len: "int (length page) = page_span p ?left" using b by (simp add: page_def)
  then show "page \<noteq> []" using span(1) by auto
  show "length page \<le> length data" by (simp add: page_def)
  show "p + int (length page) \<le> off + int (length data)" using len span(2) by simp
  have "page_span p (int (length page)) = int (length page)"
    unfolding len using span by (auto simp: page_span_def PAGE_SIZE_def)
  then show "page_list p (p + int (length page)) = [p]" using span(1) len by (intro one_page) auto
qed

lemma all_exact:
  assumes "plain fh f" "0 \<le> off" "off + int (length data) < 2 ^ 63" "length data \<le> 1000000000"
    and "set ps \<subseteq> set (page_list off (off + int (length data)))" "distinct ps"
    and "\<forall>p \<in> set ps. 0 \<le> knob (sv_pgwrite_corrupt sv) p" "ready_for env fh (m, sv)"
  shows "\<exists>m' sv'. pgwrite_all crc (exchange env crc) data off ps (f, m, sv)
      = ((f, m', sv'), case find (\<lambda>p. PGW_MAX_RETRY \<le> knob (sv_pgwrite_corrupt sv) p) ps of
           None \<Rightarrow> Inr () | Some p \<Rightarrow> Inl (PageIntegrityError p PGW_MAX_RETRY)) \<and> ready_for env fh (m', sv')"
  using assms(5-8)
proof (induction ps arbitrary: m sv)
  case (Cons p ps)
  note P = page_of_list [of p off data]
  let ?page = "take (nat (page_span p (int (length data) - (p - off)))) (drop (nat (p - off)) data)"
  have p: "p \<in> set (page_list off (off + int (length data)))" using Cons.prems(1) by simp
  have "\<exists>m' sv'. retry_loop crc (exchange env crc) 3 ?page p (f, m, sv)
      = ((f, m', sv'), if knob (sv_pgwrite_corrupt sv) p < int 3 then Inr () else Inl (PageIntegrityError p PGW_MAX_RETRY)) \<and>
    ready_for env fh (m', sv') \<and> (\<forall>q. q \<noteq> p \<longrightarrow> knob (sv_pgwrite_corrupt sv') q = knob (sv_pgwrite_corrupt sv) q)"
    by (rule retry_exact [OF assms(1) Cons.prems(4)])
       (use P [OF p] assms(2-4) Cons.prems(3) in auto)
  then obtain m1 sv1 where r: "pgwrite_retry crc (exchange env crc) data off p (f, m, sv)
      = ((f, m1, sv1), if knob (sv_pgwrite_corrupt sv) p < 3 then Inr () else Inl (PageIntegrityError p PGW_MAX_RETRY))"
    "ready_for env fh (m1, sv1)" "\<forall>q. q \<noteq> p \<longrightarrow> knob (sv_pgwrite_corrupt sv1) q = knob (sv_pgwrite_corrupt sv) q"
    using P(4,5) [OF p] by (auto simp: pgwrite_retry_def Let_def)
  have same: "knob (sv_pgwrite_corrupt sv1) q = knob (sv_pgwrite_corrupt sv) q" if "q \<in> set ps" for q
    using r(3) Cons.prems(2) that by auto
  then have "find (\<lambda>q. PGW_MAX_RETRY \<le> knob (sv_pgwrite_corrupt sv1) q) ps = find (\<lambda>q. PGW_MAX_RETRY \<le> knob (sv_pgwrite_corrupt sv) q) ps"
    by (intro find_cong) auto
  with Cons.IH [of sv1 m1] Cons.prems r same show ?case by auto
qed auto

lemma find_filter: "find P (filter Q xs) = find (\<lambda>x. Q x \<and> P x) xs"
  by (induction xs) auto

subsection \<open>A file on a server\<close>

definition sample_file :: bytes where
  "sample_file = [10, 20, 30, 40, 50, 60, 70]"

definition sample_server :: "nat \<Rightarrow> (int \<times> int) list \<Rightarrow> server" where
  "sample_server chunk knobs = \<lparr>sv_files = [(str ''/f'', sample_file)], sv_handles = [([0, 0, 0, 1], str ''/f'')],
     sv_chunk_reads = chunk, sv_pgwrite_corrupt = knobs\<rparr>"

definition sample_handle :: file_state where
  "sample_handle = \<lparr>fs_handle = Some [0, 0, 0, 1], fs_checkpoint = False, fs_pathid = 0, fs_size_hint = 0, fs_stat = None,
     fs_ahead = (0, []), fs_sequel = - 1, fs_window = 2\<rparr>"

lemma sample_usable:
  "plain [0, 0, 0, 1] sample_handle" "ready_for sample_e [0, 0, 0, 1] (sample_session, sample_server chunk knobs)"
  "file_of [0, 0, 0, 1] (sample_session, sample_server chunk knobs) = sample_file"
proof -
  show "plain [0, 0, 0, 1] sample_handle" by (simp add: plain_def sample_handle_def)
  have "m_state sample_session = READY" "at_rest (the_framer 0 sample_session)" by code_simp+
  moreover have "m_signer sample_session = None" "m_out sample_session = []" "m_events sample_session = []"
    by (simp_all add: sample_session_code sample_state_def sample_new_def SessionMachine_def)
  moreover have "\<exists>m' sid. acquire_sid sample_session = (m', Inr sid)"
    by (simp add: acquire_sid_def sample_session_code sample_state_def sample_new_def SessionMachine_def FIRST_SID_def Let_def)
  ultimately have "steady sample_e sample_session" using sample_reachable(1) by (simp add: steady_def)
  then show "ready_for sample_e [0, 0, 0, 1] (sample_session, sample_server chunk knobs)"
    "file_of [0, 0, 0, 1] (sample_session, sample_server chunk knobs) = sample_file"
    by (simp_all add: ready_for_def holds_def sample_server_def file_of_def)
qed

subsection \<open>Properties\<close>

text \<open>C2: a read returns the file's bytes. Whatever chunk size the client splits it into and however
  the server cuts its answers into partial replies, a read of \<open>len\<close> bytes at \<open>off\<close> through the
  protocol machine returns exactly those bytes of the file, fewer only at its end, and leaves
  the connection ready for the next request.\<close>

theorem read_over_the_wire:
  assumes "plain fh f" "ready_for env fh w" "0 \<le> off" "0 \<le> len" "off + len < 2 ^ 63"
    and "1 \<le> limit" "limit \<le> MAX_RESPONSE_BODY"
  shows "\<exists>w'. event_read (exchange env crc) limit len off (f, w)
      = ((f, w'), Inr (take (nat len) (drop (nat off) (file_of fh w)))) \<and>
    ready_for env fh w' \<and> file_of fh w' = file_of fh w"
  by (rule wire.event_read_ok [OF assms(1-3,5,4,6,7), of crc]) (auto simp: file_slice_def ReadRange_def)

theorem read_over_the_wire_witness:
  "\<exists>w'. event_read (exchange sample_e (\<lambda>_. 0)) 3 5 1 (sample_handle, sample_session, sample_server 2 [])
      = ((sample_handle, w'), Inr [20, 30, 40, 50, 60])"
  using read_over_the_wire [OF sample_usable(1,2), of 1 5 3 "\<lambda>_. 0" 2 "[]"]
  by (auto simp: sample_usable(3) sample_file_def)

text \<open>C3: what was written is read back. A write through the chunked write loop, then a read of the
  same range, returns the data; every other byte of the file is as it was, a gap before the
  data is zeros, and the handle's size hint covers what was written.\<close>

theorem write_then_read:
  assumes "plain fh f" "ready_for env fh w" "0 \<le> off" "off + int (length data) < 2 ^ 63"
    and "1 \<le> limit" "limit \<le> MAX_RESPONSE_BODY"
  shows "\<exists>f1 w1 w2. event_write (exchange env crc) limit data off (f, w) = ((f1, w1), Inr (int (length data))) \<and>
    file_of fh w1 = overwrite (file_of fh w) (nat off) data \<and> off + int (length data) \<le> fs_size_hint f1 \<and>
    event_read (exchange env crc) limit (int (length data)) off (f1, w1) = ((f1, w2), Inr data)"
proof -
  obtain w1 where one: "write_loop (exchange env crc) limit off data (f, w) = ((f, w1), Inr ())" "ready_for env fh w1"
    "file_of fh w1 = overwrite (file_of fh w) (nat off) data"
    using wire.write_loop_ok [OF assms(1-5), of crc] assms(6) by auto
  let ?f = "f\<lparr>fs_size_hint := max (fs_size_hint f) (off + int (length data)), fs_stat := None\<rparr>"
  have "event_write (exchange env crc) limit data off (f, w) = ((?f, w1), Inr (int (length data)))"
    using one(1) by (simp add: event_write_def invalidate_def)
  moreover have "plain fh ?f" using assms(1) by (simp add: plain_def)
  then obtain w2 where "event_read (exchange env crc) limit (int (length data)) off (?f, w1)
      = ((?f, w2), Inr (file_slice (file_of fh w1) (ReadRange off (int (length data)))))"
    by (rule wire.event_read_ok [OF _ one(2) assms(3,4) _ assms(5,6), of ?f crc]) auto
  moreover have "file_slice (file_of fh w1) (ReadRange off (int (length data))) = data"
    by (simp add: one(3) file_slice_def ReadRange_def slice_of_overwrite)
  ultimately show ?thesis using one(3) by force
qed

theorem write_then_read_witness:
  "\<exists>f1 w1 w2. event_write (exchange sample_e (\<lambda>_. 0)) 2 [1, 2, 3] 9 (sample_handle, sample_session, sample_server 0 [])
      = ((f1, w1), Inr 3) \<and>
    file_of [0, 0, 0, 1] w1 = [10, 20, 30, 40, 50, 60, 70, 0, 0, 1, 2, 3] \<and>
    event_read (exchange sample_e (\<lambda>_. 0)) 2 3 9 (f1, w1) = ((f1, w2), Inr [1, 2, 3])"
  using write_then_read [OF sample_usable(1,2), of 9 "[1, 2, 3]" 2 "\<lambda>_. 0" 0 "[]"]
  by (fastforce simp: sample_usable(3) sample_file_def overwrite_def numeral_eq_Suc)

text \<open>C11: a vector read returns one string per range, in the order asked: the bytes of the file each
  range names, short past its end, whatever the ranges overlap, repeat or exceed; ranges
  longer than a server takes in one element, and more ranges than fit one request, included.\<close>

theorem readv_over_the_wire:
  assumes "plain fh f" "ready_for env fh w"
    and "\<forall>r \<in> set wanted. 0 \<le> rr_offset r \<and> 0 \<le> rr_length r \<and> rr_offset r + rr_length r < 2 ^ 63"
  shows "\<exists>w'. readv (exchange env crc) wanted (f, w)
      = ((f, w'), Inr (map (\<lambda>r. take (nat (rr_length r)) (drop (nat (rr_offset r)) (file_of fh w))) wanted)) \<and>
    ready_for env fh w' \<and> file_of fh w' = file_of fh w"
  by (rule wire.readv_ok [OF assms, of crc]) (auto simp: file_slice_def)

theorem readv_over_the_wire_witness:
  "\<exists>w'. readv (exchange sample_e (\<lambda>_. 0)) [ReadRange 2 3, ReadRange 2 3000000, ReadRange 0 2]
       (sample_handle, sample_session, sample_server 0 [])
     = ((sample_handle, w'), Inr [[30, 40, 50], [30, 40, 50, 60, 70], [10, 20]])"
  using readv_over_the_wire [OF sample_usable(1,2), of "[ReadRange 2 3, ReadRange 2 3000000, ReadRange 0 2]" "\<lambda>_. 0" 0 "[]"]
  by (auto simp: sample_usable(3) sample_file_def ReadRange_def)

text \<open>C13: sequential readahead is invisible. On a file that does not change, any sequence of reads
  through the readahead block, hits, misses, jumps and growing windows alike, returns what the
  same reads return without it.\<close>

theorem readahead_invisible:
  assumes "plain fh f" "ready_for env fh w" "fs_ahead f = (0, [])" "0 \<le> fs_window f" "fs_window f \<le> MAX_AHEAD"
    and "0 \<le> readahead" "readahead \<le> MAX_AHEAD" "int (Suc n) \<le> MAX_RESPONSE_BODY"
    and "\<forall>(len, off) \<in> set reqs. 0 \<le> len \<and> 0 \<le> off \<and> off + len + MAX_AHEAD < 2 ^ 63"
  shows "\<exists>f' w'. fmap (\<lambda>(len, off). sequential readahead (event_plane (exchange env crc) (int (Suc n))) len off) reqs (f, w)
      = ((f', w'), Inr (map (\<lambda>(len, off). Some (take (nat len) (drop (nat off) (file_of fh w)))) reqs))"
proof -
  have "usable env fh f w" "ahead_ok (file_of fh w) f" using assms(1-5) by (simp_all add: usable_def ahead_ok_def)
  from ahead.sequential_all_ok [OF this assms(6,7), of reqs n crc] assms(8,9) obtain f' w' outs where
    o: "fmap (\<lambda>(len, off). sequential readahead (event_plane (exchange env crc) (int (Suc n))) len off) reqs (f, w) = ((f', w'), Inr outs)"
    "list_all2 (\<lambda>(len, off) got. got \<in> may_decline False (file_slice (file_of fh w) (ReadRange off len))) reqs outs"
    by auto
  have "outs = map (\<lambda>(len, off). Some (take (nat len) (drop (nat off) (file_of fh w)))) reqs"
    using o(2) by (induction reqs outs rule: list_all2_induct) (auto simp: may_decline_def file_slice_def ReadRange_def)
  then show ?thesis using o(1) by blast
qed

theorem readahead_invisible_witness:
  "\<exists>f' w'. fmap (\<lambda>(len, off). sequential 2 (event_plane (exchange sample_e (\<lambda>_. 0)) (int (Suc 3))) len off)
       [(2, 0), (2, 2), (2, 4), (1, 1)] (sample_handle, sample_session, sample_server 0 [])
     = ((f', w'), Inr [Some [10, 20], Some [30, 40], Some [50, 60], Some [20]])"
  using readahead_invisible [OF sample_usable(1,2), of 2 3 "[(2, 0), (2, 2), (2, 4), (1, 1)]" "\<lambda>_. 0" 0 "[]"]
  by (simp add: sample_usable(3) sample_file_def sample_handle_def MAX_AHEAD_def)

text \<open>C4: a paged write ends in exactly one of two ways. When no page of it is refused more than
  three times, it returns the length and the file holds the data; otherwise it raises
  \<open>PageIntegrityError\<close> for the first page that used up its retries. The server counts, per
  page, how often it still pretends the page arrived damaged.\<close>

theorem paged_write_outcome:
  assumes "plain fh f" "ready_for env fh (m, sv)" "0 \<le> off" "off + int (length data) < 2 ^ 63" "length data \<le> 1000000000"
    and "data \<noteq> []" "\<And>p. 0 \<le> knob (sv_pgwrite_corrupt sv) p"
  shows "\<exists>f' w'. pgwrite crc (exchange env crc) data off (f, m, sv)
      = ((f', w'), case find (\<lambda>p. 3 < knob (sv_pgwrite_corrupt sv) p) (page_list off (off + int (length data))) of
           None \<Rightarrow> Inr (int (length data)) | Some p \<Rightarrow> Inl (PageIntegrityError p 3)) \<and>
    ready_for env fh w' \<and>
    (find (\<lambda>p. 3 < knob (sv_pgwrite_corrupt sv) p) (page_list off (off + int (length data))) = None \<longrightarrow>
      file_of fh w' = overwrite (file_of fh (m, sv)) (nat off) data)"
proof -
  let ?pages = "page_list off (off + int (length data))" and ?k = "knob (sv_pgwrite_corrupt sv)"
  let ?bad = "filter (\<lambda>p. ?k p \<noteq> 0) ?pages"
  obtain m1 sv1 where one: "pgwrite_once crc (exchange env crc) data off False (f, m, sv) = ((f, m1, sv1), Inr ?bad)"
    "ready_for env fh (m1, sv1)"
    "\<And>q. knob (sv_pgwrite_corrupt sv1) q = ?k q - (if q \<in> set ?pages \<and> ?k q \<noteq> 0 then 1 else 0)"
    by (rule once_exact [where crc = crc and retry = False, OF assms(1-4,6,5)]) blast
  have pos: "\<forall>p \<in> set ?bad. 0 \<le> knob (sv_pgwrite_corrupt sv1) p"
    using one(3) assms(7) by (auto simp: order.strict_iff_order)
  have "find (\<lambda>p. PGW_MAX_RETRY \<le> knob (sv_pgwrite_corrupt sv1) p) ?bad = find (\<lambda>p. 3 < ?k p) ?pages"
    unfolding find_filter by (rule find_cong) (use one(3) in auto)
  moreover obtain m2 sv2 where two: "pgwrite_all crc (exchange env crc) data off ?bad (f, m1, sv1)
      = ((f, m2, sv2), case find (\<lambda>p. PGW_MAX_RETRY \<le> knob (sv_pgwrite_corrupt sv1) p) ?bad of
           None \<Rightarrow> Inr () | Some p \<Rightarrow> Inl (PageIntegrityError p PGW_MAX_RETRY))" "ready_for env fh (m2, sv2)"
    using all_exact [OF assms(1,3-5) _ _ pos one(2), of crc] page_list_bounds by auto
  ultimately obtain f' w' where r: "pgwrite crc (exchange env crc) data off (f, m, sv)
      = ((f', w'), case find (\<lambda>p. 3 < ?k p) ?pages of
           None \<Rightarrow> Inr (int (length data)) | Some p \<Rightarrow> Inl (PageIntegrityError p 3))" "ready_for env fh w'"
    using one(1) assms(6) by (cases "find (\<lambda>p. 3 < ?k p) ?pages") (auto simp: pgwrite_def invalidate_def)
  then show ?thesis
    using wire_pages.pgwrite_ok [OF assms(1-5) r(1)] by (cases "find (\<lambda>p. 3 < ?k p) ?pages") auto
qed

theorem paged_write_outcome_witness:
  "(\<exists>f' w'. pgwrite (\<lambda>_. 7) (exchange sample_e (\<lambda>_. 7)) [1, 2, 3] 4094 (sample_handle, sample_session, sample_server 0 [(4094, 3)])
     = ((f', w'), Inr 3)) \<and>
   (\<exists>f' w'. pgwrite (\<lambda>_. 7) (exchange sample_e (\<lambda>_. 7)) [1, 2, 3] 4094 (sample_handle, sample_session, sample_server 0 [(4096, 4)])
     = ((f', w'), Inl (PageIntegrityError 4096 3)))"
proof -
  have pages: "page_list 4094 4097 = [4094, 4096]"
    by (simp add: page_list.simps [of 4094] page_list.simps [of 4096] page_list.simps [of 4097] page_span_def PAGE_SIZE_def)
  have k: "0 \<le> knob (sv_pgwrite_corrupt (sample_server 0 [(q, n)])) p" if "0 \<le> n" for p q n
    using that by (simp add: knob_def sample_server_def)
  show ?thesis
    using paged_write_outcome [OF sample_usable(1,2), of 4094 "[1, 2, 3]" 0 "[(4094, 3)]" "\<lambda>_. 7"] k [of 3 4094]
      paged_write_outcome [OF sample_usable(1,2), of 4094 "[1, 2, 3]" 0 "[(4096, 4)]" "\<lambda>_. 7"] k [of 4 4096]
    by (auto simp: pages knob_def sample_server_def)
qed

text \<open>C14: iterating a file ends and yields all of it: with one block more than the file has bytes
  there are always enough, and the blocks joined are the file.\<close>

theorem iteration_yields_the_file:
  assumes "plain fh f" "ready_for env fh w" "1 \<le> limit" "limit \<le> MAX_RESPONSE_BODY"
    and "int (length (file_of fh w)) + limit < 2 ^ 63" "length (file_of fh w) < n"
  shows "\<exists>w' bs. iter_blocks (exchange env crc) limit n 0 (f, w) = ((f, w'), Inr (Some bs)) \<and> concat bs = file_of fh w"
  using wire.iter_blocks_ok [OF assms(1,2) _ assms(5) _ assms(3,4), of 0 n crc] assms(6) by auto

theorem iteration_yields_the_file_witness:
  "\<exists>w' bs. iter_blocks (exchange sample_e (\<lambda>_. 0)) 3 8 0 (sample_handle, sample_session, sample_server 2 [])
     = ((sample_handle, w'), Inr (Some bs)) \<and> concat bs = sample_file"
  using iteration_yields_the_file [OF sample_usable(1,2), of 3 2 "[]" 8 "\<lambda>_. 0"]
  by (simp add: sample_usable(3) sample_file_def)

end
