(* ===== verification/Bulk_Reader.thy ===== *)
theory Bulk_Reader
  imports Machine_Streams
begin

text \<open>
  The bulk data plane (\<open>session/bulk.py\<close>): several requests in flight on stream ids leased from
  the machine, their replies received straight into memory, and the wire put back in step when
  the call ends.

  The link is modelled by what the reader gets to see of it: \<open>br_rx\<close> is everything the peer will
  still send, in order, up to the moment \<open>br_over\<close> is raised instead - the peer hung up, the stall
  clock or the caller's deadline ran out, or the caller was cancelled. Segmentation does not
  matter to \<open>_exact\<close>, which asks again until it has what it wants. \<open>br_fates\<close> says what becomes of
  the sends, one by one; those it does not mention succeed. \<open>br_stopped\<close> is whether the caller has
  stopped waiting by the time the call settles. \<open>br_memory\<close> is the buffer replies land in: the
  caller's own, or the scratch buffers side by side.

  \<open>br_yielded\<close> holds the pieces handed to the consumer of a stream, \<open>br_acked\<close> and \<open>br_waited\<close> the
  calls made to a writer's hooks.

  \<open>br_log\<close> records what was sent and what was taken off the wire; no operation reads it.
\<close>

subsection \<open>State\<close>

datatype send_fate = Goes_out | Cancelled_before | Breaks exn

datatype wire = Sent int request | is_Got: Got int int bytes

record bulk_reader =
  br_machine :: machine
  br_handle :: bytes
  br_chunk :: int
  br_depth :: int
  br_leased :: "int list"
  br_owed :: "int set"
  br_torn :: bool
  br_delivered :: int
  br_broken :: bool
  br_notices :: "attn_info list"
  br_memory :: bytes
  br_yielded :: "(int \<times> bytes) list"
  br_acked :: "(int \<times> int) list"
  br_waited :: "(int \<times> int) list"
  br_rx :: bytes
  br_over :: exn
  br_fates :: "send_fate list"
  br_stopped :: bool
  br_log :: "wire list"

record in_flight_read =
  if_offset :: int
  if_length :: int
  if_at :: nat
  if_slot :: nat
  if_got :: int

type_synonym 'a bop = "bulk_reader \<Rightarrow> bulk_reader \<times> 'a res"

definition bret :: "'a \<Rightarrow> 'a bop" where "bret x b = (b, Inr x)"
definition bfail :: "exn \<Rightarrow> 'a bop" where "bfail e b = (b, Inl e)"
definition bupd :: "(bulk_reader \<Rightarrow> bulk_reader) \<Rightarrow> unit bop" where "bupd f b = (f b, Inr ())"

definition bbind :: "'a bop \<Rightarrow> ('a \<Rightarrow> 'b bop) \<Rightarrow> 'b bop" where
  "bbind p k b = (case p b of (b', Inl e) \<Rightarrow> (b', Inl e) | (b', Inr x) \<Rightarrow> k x b')"

definition is_stop :: "exn \<Rightarrow> bool" where
  "is_stop e \<longleftrightarrow> e = OperationExpiredError \<or> e = Cancelled"

definition HEADER :: nat where "HEADER = 8"
definition ASYNC :: int where "ASYNC = 16"

subsection \<open>Receiving\<close>

text \<open>\<open>_exact\<close>: the bytes asked for. Part of them may come before the link is over; the frame is
  then torn. A caller that stopped waiting stays stopped.\<close>

definition exact :: "nat \<Rightarrow> bool \<Rightarrow> bytes bop" where
  "exact n fresh b =
     (if n \<le> length (br_rx b)
      then (b\<lparr>br_rx := drop n (br_rx b), br_torn := br_torn b \<or> (fresh \<and> 0 < n)\<rparr>, Inr (take n (br_rx b)))
      else (b\<lparr>br_rx := [], br_torn := br_torn b \<or> (fresh \<and> br_rx b \<noteq> []),
              br_stopped := br_stopped b \<or> is_stop (br_over b)\<rparr>, Inl (br_over b)))"

definition frame_body :: "int \<Rightarrow> bytes bop" where
  "frame_body n = bbind (exact (nat n) False) (\<lambda>body. bbind (bupd (\<lambda>b. b\<lparr>br_torn := False\<rparr>)) (\<lambda>_. bret body))"

definition lift_res :: "'a res \<Rightarrow> 'a bop" where "lift_res r b = (b, r)"

text \<open>\<open>_frame_header\<close>: \<open>None\<close> for a notice, which is off the wire already.\<close>

definition take_notice :: "bytes \<Rightarrow> response_header option bop" where
  "take_notice body =
     bbind (lift_res (parse_attn body)) (\<lambda>notice.
     bbind (bupd (\<lambda>b. b\<lparr>br_notices := br_notices b @ [notice]\<rparr>)) (\<lambda>_. bret None))"

definition frame_header :: "response_header option bop" where
  "frame_header =
     bbind (exact HEADER True) (\<lambda>header.
     bbind (lift_res (decode_header header)) (\<lambda>reply.
       if rh_status reply \<noteq> kXR_attn then bret (Some reply)
       else if rh_dlen reply < ASYNC
       then bbind (frame_body (rh_dlen reply)) take_notice
       else
         bbind (exact HEADER False) (\<lambda>head.
         bbind (lift_res (parse_attn head)) (\<lambda>attn.
           if at_action attn = kXR_asynresp
           then bbind (exact HEADER False) (\<lambda>header'.
                bbind (lift_res (decode_header header')) (\<lambda>inner.
                bret (Some \<lparr>rh_streamid = rh_streamid inner, rh_status = rh_status inner,
                            rh_dlen = rh_dlen reply - ASYNC\<rparr>)))
           else bbind (frame_body (rh_dlen reply - int HEADER)) (\<lambda>rest. take_notice (head @ rest))))))"

text \<open>\<open>_deferred\<close> moves the stall clock, which is part of \<open>br_over\<close>; what is left of it is that the
  body must decode.\<close>

definition deferred :: "bytes \<Rightarrow> unit bop" where
  "deferred body = bbind (lift_res (parse_waitresp body)) (\<lambda>_. bret ())"

definition log_reply :: "response_header \<Rightarrow> bulk_reader \<Rightarrow> bulk_reader" where
  "log_reply reply b =
     b\<lparr>br_log := br_log b @ [Got (rh_streamid reply) (rh_status reply) (take (nat (rh_dlen reply)) (br_rx b))]\<rparr>"

lemma bop_simps [simp]:
  "bret x b = (b, Inr x)" "bfail e b = (b, Inl e)" "bupd f b = (f b, Inr ())" "lift_res r b = (b, r)"
  by (simp_all add: bret_def bfail_def bupd_def lift_res_def)

lemma bbind_simps [simp]:
  "p b = (b', Inl e) \<Longrightarrow> bbind p k b = (b', Inl e)"
  "p b = (b', Inr x) \<Longrightarrow> bbind p k b = k x b'"
  by (simp_all add: bbind_def)

lemma bbind_eq_Inr:
  "bbind p k b = (b2, Inr y) \<longleftrightarrow> (\<exists>b1 x. p b = (b1, Inr x) \<and> k x b1 = (b2, Inr y))"
  by (auto simp: bbind_def split: prod.splits sum.splits)

text \<open>What an operation takes off the wire.\<close>

lemma exact_Inr:
  "exact n fresh b = (b', Inr x) \<longleftrightarrow>
     n \<le> length (br_rx b) \<and> x = take n (br_rx b) \<and>
     b' = b\<lparr>br_rx := drop n (br_rx b), br_torn := br_torn b \<or> (fresh \<and> 0 < n)\<rparr>"
  by (auto simp: exact_def)

lemma exact_shrinks: "exact n fresh b = (b', Inr x) \<Longrightarrow> length (br_rx b') \<le> length (br_rx b)"
  by (simp add: exact_Inr)

lemma frame_body_Inr:
  "frame_body n b = (b', Inr x) \<longleftrightarrow>
     nat n \<le> length (br_rx b) \<and> x = take (nat n) (br_rx b) \<and>
     b' = b\<lparr>br_rx := drop (nat n) (br_rx b), br_torn := False\<rparr>"
  by (auto simp: frame_body_def bbind_eq_Inr exact_Inr)

text \<open>An operation that, when it returns, took at least \<open>n\<close> bytes off the link.\<close>

definition takes :: "nat \<Rightarrow> 'a bop \<Rightarrow> bool" where
  "takes n p \<longleftrightarrow> (\<forall>b b' x. p b = (b', Inr x) \<longrightarrow> length (br_rx b') + n \<le> length (br_rx b))"

named_theorems takes

lemma takes_rules [takes]:
  "takes 0 (bret x)" "takes n (bfail e)" "takes 0 (lift_res r)"
  "(\<And>b. br_rx (f b) = br_rx b) \<Longrightarrow> takes 0 (bupd f)"
  by (simp_all add: takes_def)

lemma takes_exact [takes]: "takes 0 (exact n fresh)" "takes n (exact n fresh)"
  by (simp_all add: takes_def exact_Inr)

lemma takes_bind [takes]:
  assumes "takes n p" and "\<And>x. takes 0 (k x)"
  shows "takes n (bbind p k)"
  unfolding takes_def
proof (intro allI impI)
  fix b b' x
  assume "bbind p k b = (b', Inr x)"
  then obtain b1 y where "p b = (b1, Inr y)" "k y b1 = (b', Inr x)" by (auto simp: bbind_eq_Inr)
  with assms show "length (br_rx b') + n \<le> length (br_rx b)" by (fastforce simp: takes_def)
qed

lemma takes_if [takes]: "takes n p \<Longrightarrow> takes n q \<Longrightarrow> takes n (if c then p else q)"
  by simp

lemma takes_frame_body [takes]: "takes 0 (frame_body n)"
  unfolding frame_body_def by (intro takes) simp

lemma takes_notice [takes]: "takes 0 (take_notice body)"
  unfolding take_notice_def by (intro takes) simp

lemma takes_frame_header: "takes 8 frame_header"
  unfolding frame_header_def HEADER_def by (intro takes)

lemma frame_header_shrinks:
  assumes "frame_header b = (b', Inr r)"
  shows "length (br_rx b') < length (br_rx b)"
  using takes_frame_header assms by (fastforce simp: takes_def)

lemma deferred_shrinks:
  "bbind (frame_body n) deferred (log_reply reply b) = (b', Inr x) \<Longrightarrow> length (br_rx b') \<le> length (br_rx b)"
  by (auto simp: bbind_eq_Inr frame_body_Inr deferred_def log_reply_def)

lemma frame_header_descends:
  "(b1, r) = frame_header b \<Longrightarrow> r = Inr x \<Longrightarrow> length (br_rx b1) < length (br_rx b)"
  using frame_header_shrinks by metis

lemma deferred_descends:
  "(b1, r) = bbind (frame_body n) deferred (log_reply reply b) \<Longrightarrow> r = Inr x \<Longrightarrow> length (br_rx b1) \<le> length (br_rx b)"
  using deferred_shrinks by metis

function next_reply :: "bulk_reader \<Rightarrow> bulk_reader \<times> response_header res" where
  "next_reply b =
     (case frame_header b of
        (b1, Inl e) \<Rightarrow> (b1, Inl e)
      | (b1, Inr None) \<Rightarrow> next_reply b1
      | (b1, Inr (Some reply)) \<Rightarrow>
          if rh_streamid reply \<notin> br_owed b1 then (log_reply reply b1, Inl ProtocolError)
          else if rh_status reply \<noteq> kXR_waitresp then (log_reply reply b1, Inr reply)
          else (case bbind (frame_body (rh_dlen reply)) deferred (log_reply reply b1) of
                  (b2, Inl e) \<Rightarrow> (b2, Inl e)
                | (b2, Inr _) \<Rightarrow> next_reply b2))"
  by pat_completeness auto
termination
proof (relation "measure (\<lambda>b. length (br_rx b))", goal_cases)
  case 2 from frame_header_descends [OF 2(1,2)] show ?case by simp
next
  case 3 from frame_header_descends [OF 3(1,2)] deferred_descends [OF 3(6,7)] show ?case by simp
qed simp

declare next_reply.simps [simp del]

lemma next_reply_shrinks:
  "next_reply b = (b', Inr reply) \<Longrightarrow> length (br_rx b') < length (br_rx b)"
proof (induction b arbitrary: b' reply rule: next_reply.induct)
  case (1 b)
  obtain b1 r where h: "frame_header b = (b1, r)" by fastforce
  show ?case
  proof (cases r)
    case (Inr r')
    have s: "length (br_rx b1) < length (br_rx b)" using frame_header_shrinks h Inr by blast
    show ?thesis
    proof (cases r')
      case None
      with 1 h Inr s show ?thesis by (fastforce simp: next_reply.simps [of b])
    next
      case (Some rep)
      show ?thesis
      proof (cases "rh_streamid rep \<notin> br_owed b1 \<or> rh_status rep \<noteq> kXR_waitresp")
        case True
        with 1 h Inr s Some show ?thesis by (auto simp: next_reply.simps [of b] log_reply_def split: if_splits)
      next
        case False
        obtain b2 q where d: "bbind (frame_body (rh_dlen rep)) deferred (log_reply rep b1) = (b2, q)" by fastforce
        show ?thesis
        proof (cases q)
          case Inl
          with 1 h Inr s Some False d show ?thesis by (simp add: next_reply.simps [of b])
        next
          case (Inr u)
          with d have "length (br_rx b2) \<le> length (br_rx b1)" using deferred_shrinks by blast
          with 1 h \<open>r = Inr r'\<close> s Some False d Inr show ?thesis by (fastforce simp: next_reply.simps [of b])
        qed
      qed
    qed
  qed (use 1 h in \<open>simp add: next_reply.simps [of b]\<close>)
qed

text \<open>\<open>_land\<close>: the bytes of one frame into the place of the request they answer.\<close>

definition store :: "nat \<Rightarrow> bytes \<Rightarrow> bytes \<Rightarrow> bytes" where
  "store pos data mem = take pos mem @ data @ drop (pos + length data) mem"

definition land :: "in_flight_read \<Rightarrow> int \<Rightarrow> in_flight_read bop" where
  "land entry n =
     (if if_got entry + n > if_length entry then bfail ProtocolError
      else bbind (exact (nat n) False) (\<lambda>data.
           bbind (bupd (\<lambda>b. b\<lparr>br_memory := store (if_at entry + nat (if_got entry)) data (br_memory b)\<rparr>)) (\<lambda>_.
           bret (entry\<lparr>if_got := if_got entry + n\<rparr>))))"

text \<open>\<open>_refuse\<close>: the exception for a final reply that is not what was asked.\<close>

definition refusal :: "int \<Rightarrow> bytes \<Rightarrow> exn" where
  "refusal status body =
     (if status = kXR_error
      then (case parse_error body of Inl e \<Rightarrow> e | Inr info \<Rightarrow> server_error info [])
      else BulkUnsupported)"

definition settled_reply :: "int \<Rightarrow> unit bop" where
  "settled_reply sid = bupd (\<lambda>b. b\<lparr>br_owed := br_owed b - {sid}\<rparr>)"

text \<open>\<open>_collect\<close>, with the requests in flight after it; \<open>Some\<close> stream id is complete.\<close>

definition collect :: "(int \<times> in_flight_read) list \<Rightarrow> ((int \<times> in_flight_read) list \<times> int option) bop" where
  "collect inflight =
     bbind next_reply (\<lambda>reply.
       let sid = rh_streamid reply; status = rh_status reply
       in if status = kXR_ok \<or> status = kXR_oksofar
          then (case map_of inflight sid of
                  None \<Rightarrow> bfail KeyError
                | Some entry \<Rightarrow>
                    bbind (land entry (rh_dlen reply)) (\<lambda>entry'.
                    bbind (bupd (\<lambda>b. b\<lparr>br_torn := False\<rparr>)) (\<lambda>_.
                      if status = kXR_oksofar then bret (dict_set sid entry' inflight, None)
                      else bbind (settled_reply sid) (\<lambda>_. bret (dict_set sid entry' inflight, Some sid)))))
          else bbind (frame_body (rh_dlen reply)) (\<lambda>body.
               bbind (settled_reply sid) (\<lambda>_. bfail (refusal status body))))"

subsection \<open>Sending\<close>

definition machine_op :: "'a op \<Rightarrow> 'a bop" where
  "machine_op p b = (case p (br_machine b) of (m, r) \<Rightarrow> (b\<lparr>br_machine := m\<rparr>, r))"

text \<open>\<open>_send\<close>: a send that fails leaves half a request on the wire.\<close>

definition send_frame :: "int \<Rightarrow> request \<Rightarrow> unit bop" where
  "send_frame sid req b =
     (case br_fates b of
        Cancelled_before # fs \<Rightarrow> (b\<lparr>br_fates := fs, br_stopped := True\<rparr>, Inl Cancelled)
      | Breaks e # fs \<Rightarrow> (b\<lparr>br_fates := fs, br_torn := True\<rparr>, Inl e)
      | fs \<Rightarrow> (b\<lparr>br_fates := tl fs, br_torn := False, br_owed := insert sid (br_owed b),
                 br_log := br_log b @ [Sent sid req]\<rparr>, Inr ()))"

definition issue :: "env \<Rightarrow> int \<Rightarrow> request \<Rightarrow> unit bop" where
  "issue env sid req = bbind (machine_op (frame_parts_for env req sid)) (\<lambda>_. send_frame sid req)"

subsection \<open>Borrowing and handing back\<close>

definition begin_call :: "int list bop" where
  "begin_call b =
     (if br_leased b \<noteq> [] then (b, Inl ProtocolError)
      else bbind (machine_op (lease_sids (br_depth b))) (\<lambda>sids.
           bbind (bupd (\<lambda>b. b\<lparr>br_leased := sids\<rparr>)) (\<lambda>_. bret sids)) (b\<lparr>br_torn := False\<rparr>))"

text \<open>\<open>_drain\<close>: the sink is refilled until the frame is off the wire.\<close>

function drain_owed :: "unit bop" where
  "drain_owed b =
     (if br_owed b = {} then (b, Inr ())
      else case next_reply b of
             (b1, Inl e) \<Rightarrow> (b1, Inl e)
           | (b1, Inr reply) \<Rightarrow>
               (case exact (nat (rh_dlen reply)) False b1 of
                  (b2, Inl e) \<Rightarrow> (b2, Inl e)
                | (b2, Inr _) \<Rightarrow>
                    drain_owed (b2\<lparr>br_torn := False, br_owed :=
                      (if rh_status reply \<noteq> kXR_oksofar then br_owed b2 - {rh_streamid reply} else br_owed b2)\<rparr>)))"
  by pat_completeness auto
termination
  by (relation "measure (\<lambda>b. length (br_rx b))") (auto dest!: exact_shrinks [OF sym] next_reply_shrinks [OF sym])

declare drain_owed.simps [simp del]

definition hand_back :: "int list \<Rightarrow> bulk_reader \<Rightarrow> bulk_reader" where
  "hand_back sids b =
     (let b' = b\<lparr>br_owed := {}\<rparr>
      in if br_owed b = {} \<and> \<not> br_torn b then b'\<lparr>br_machine := release_sids sids (br_machine b)\<rparr>
         else if \<not> br_torn b \<and> br_stopped b then b'\<lparr>br_machine := retire_sids sids (br_owed b) (br_machine b)\<rparr>
         else b'\<lparr>br_broken := True\<rparr>)"

definition settle :: "unit bop" where
  "settle b =
     (let sids = br_leased b; b' = b\<lparr>br_leased := []\<rparr>
      in if sids = [] then (b', Inr ())
         else case (if br_owed b' \<noteq> {} \<and> \<not> br_torn b' \<and> \<not> br_stopped b' then drain_owed b' else (b', Inr ())) of
                (b2, r) \<Rightarrow> (hand_back sids b2, r))"

text \<open>\<open>finally: self.settle()\<close>, whose own failure replaces the outcome.\<close>

definition finally_settle :: "'a bop \<Rightarrow> 'a bop" where
  "finally_settle p b =
     (case p b of (b1, r) \<Rightarrow> case settle b1 of (b2, Inl e) \<Rightarrow> (b2, Inl e) | (b2, Inr _) \<Rightarrow> (b2, r))"

subsection \<open>Reading into a buffer\<close>

text \<open>How much each step leaves on the link.\<close>

lemma land_Inr:
  "land entry n b = (b', Inr x) \<Longrightarrow> length (br_rx b') \<le> length (br_rx b)"
  by (auto simp: land_def bbind_eq_Inr exact_Inr split: if_splits)

lemma collect_shrinks:
  assumes "collect inflight b = (b', Inr x)"
  shows "length (br_rx b') < length (br_rx b)"
  using assms
  by (auto simp: collect_def bbind_eq_Inr Let_def settled_reply_def split: if_splits option.splits
      dest!: next_reply_shrinks land_Inr)

lemma send_frame_rx: "send_frame sid req b = (b', r) \<Longrightarrow> br_rx b' = br_rx b"
  by (auto simp: send_frame_def split: list.splits send_fate.splits)

lemma issue_rx: "issue env sid req b = (b', r) \<Longrightarrow> br_rx b' = br_rx b"
  by (auto simp: issue_def bbind_def machine_op_def split: prod.splits sum.splits dest!: send_frame_rx)

text \<open>The inner loop of \<open>into\<close>: a request on every free stream id, last one first.\<close>

function issue_reads ::
  "env \<Rightarrow> int \<Rightarrow> int \<Rightarrow> int list \<Rightarrow> (int \<times> in_flight_read) list \<Rightarrow> int \<Rightarrow>
   (int list \<times> (int \<times> in_flight_read) list \<times> int) bop" where
  "issue_reads env base stop free inflight cursor b =
     (if free = [] \<or> stop \<le> cursor then (b, Inr (free, inflight, cursor))
      else
        let n = min (br_chunk b) (stop - cursor);
            sid = last free;
            entry = \<lparr>if_offset = cursor, if_length = n, if_at = nat cursor, if_slot = 0, if_got = 0\<rparr>
        in case issue env sid (Read (br_handle b) (base + cursor) n 0) b of
             (b', Inl e) \<Rightarrow> (b', Inl e)
           | (b', Inr _) \<Rightarrow>
               issue_reads env base stop (butlast free) (dict_set sid entry inflight) (cursor + n) b')"
  by pat_completeness auto
termination by (relation "measure (\<lambda>(_, _, _, free, _). length free)") (auto simp: Let_def)

declare issue_reads.simps [simp del]

lemma issue_reads_rx: "issue_reads env base stop free inflight cursor b = (b', r) \<Longrightarrow> br_rx b' = br_rx b"
proof (induction env base stop free inflight cursor b arbitrary: b' r rule: issue_reads.induct)
  case (1 env base stop free inflight cursor b)
  note step = issue_reads.simps [of env base stop free inflight cursor b]
  show ?case
  proof (cases "free = [] \<or> stop \<le> cursor")
    case True
    with 1(2) show ?thesis by (auto simp: step)
  next
    case False
    let ?n = "min (br_chunk b) (stop - cursor)"
    obtain b1 q where i: "issue env (last free) (Read (br_handle b) (base + cursor) ?n 0) b = (b1, q)" by fastforce
    with issue_rx have "br_rx b1 = br_rx b" by blast
    with 1(1) [OF False refl refl refl i [symmetric]] 1(2) False i show ?thesis
      by (cases q) (simp_all add: step Let_def)
  qed
qed

function into_loop ::
  "env \<Rightarrow> int \<Rightarrow> int \<Rightarrow> int list \<Rightarrow> (int \<times> in_flight_read) list \<Rightarrow> int \<Rightarrow> int \<Rightarrow> int bop" where
  "into_loop env base stop free inflight cursor landed b =
     (case issue_reads env base stop free inflight cursor b of
        (b1, Inl e) \<Rightarrow> (b1, Inl e)
      | (b1, Inr (free', inflight', cursor')) \<Rightarrow>
          if inflight' = [] then (b1\<lparr>br_delivered := br_delivered b1 + landed\<rparr>, Inr landed)
          else case collect inflight' b1 of
                 (b2, Inl e) \<Rightarrow> (b2, Inl e)
               | (b2, Inr (flying, None)) \<Rightarrow> into_loop env base stop free' flying cursor' landed b2
               | (b2, Inr (flying, Some sid)) \<Rightarrow>
                   let entry = the (map_of flying sid);
                       stop' = (if if_got entry < if_length entry then min stop (if_offset entry + if_got entry) else stop);
                       cursor'' = (if if_got entry < if_length entry then min cursor' stop' else cursor')
                   in into_loop env base stop' (free' @ [sid]) (dict_pop sid flying) cursor'' (landed + if_got entry) b2)"
  by pat_completeness auto
termination
  by (relation "measure (\<lambda>(_, _, _, _, _, _, _, b). length (br_rx b))")
     (simp_all, (drule issue_reads_rx [OF sym], drule collect_shrinks [OF sym], simp)+)

declare into_loop.simps [simp del]

definition into :: "env \<Rightarrow> bytes \<Rightarrow> int \<Rightarrow> int bop" where
  "into env view base b =
     (if view = [] then (b, Inr 0)
      else bbind begin_call (\<lambda>free.
           bbind (bupd (\<lambda>b. b\<lparr>br_memory := view\<rparr>)) (\<lambda>_.
           finally_settle (into_loop env base (int (length view)) free [] 0 0))) b)"

subsection \<open>Streaming pieces in order\<close>

function issue_pieces ::
  "env \<Rightarrow> int \<Rightarrow> nat list \<Rightarrow> int list \<Rightarrow> (int \<times> in_flight_read) list \<Rightarrow> int list \<Rightarrow> int \<Rightarrow>
   (nat list \<times> int list \<times> (int \<times> in_flight_read) list \<times> int list \<times> int) bop" where
  "issue_pieces env stop slots free inflight issued offset b =
     (if slots = [] \<or> stop \<le> offset then (b, Inr (slots, free, inflight, issued, offset))
      else if free = [] then (b, Inl IndexError)
      else
        let want = min (br_chunk b) (stop - offset);
            slot = last slots; sid = last free;
            entry = \<lparr>if_offset = offset, if_length = want, if_at = slot * nat (br_chunk b), if_slot = slot, if_got = 0\<rparr>
        in case issue env sid (Read (br_handle b) offset want 0) b of
             (b', Inl e) \<Rightarrow> (b', Inl e)
           | (b', Inr _) \<Rightarrow>
               issue_pieces env stop (butlast slots) (butlast free) (dict_set sid entry inflight) (issued @ [sid])
                 (offset + want) b')"
  by pat_completeness auto
termination by (relation "measure (\<lambda>(_, _, slots, _). length slots)") (auto simp: Let_def)

declare issue_pieces.simps [simp del]

text \<open>\<open>_await_in_turn\<close>: replies to later reads are kept in \<open>finished\<close> until their own turn.\<close>

function await_in_turn ::
  "int \<Rightarrow> (int \<times> in_flight_read) list \<Rightarrow> int list \<Rightarrow> ((int \<times> in_flight_read) list \<times> int list \<times> in_flight_read) bop" where
  "await_in_turn sid inflight finished b =
     (if sid \<in> set finished
      then (b, Inr (dict_pop sid inflight, removeAll sid finished, the (map_of inflight sid)))
      else case collect inflight b of
             (b', Inl e) \<Rightarrow> (b', Inl e)
           | (b', Inr (flying, None)) \<Rightarrow> await_in_turn sid flying finished b'
           | (b', Inr (flying, Some s)) \<Rightarrow> await_in_turn sid flying (s # finished) b')"
  by pat_completeness auto
termination
  by (relation "measure (\<lambda>(_, _, _, b). length (br_rx b))") (simp_all, (drule collect_shrinks [OF sym], simp)+)

declare await_in_turn.simps [simp del]

definition hand_over :: "in_flight_read \<Rightarrow> bulk_reader \<Rightarrow> bulk_reader" where
  "hand_over entry b =
     b\<lparr>br_delivered := br_delivered b + if_got entry,
       br_yielded := br_yielded b @ [(if_offset entry, take (nat (if_got entry)) (drop (if_at entry) (br_memory b)))]\<rparr>"

lemma issue_pieces_rx:
  "issue_pieces env stop slots free inflight issued offset b = (b', r) \<Longrightarrow> br_rx b' = br_rx b"
proof (induction env stop slots free inflight issued offset b arbitrary: b' r rule: issue_pieces.induct)
  case (1 env stop slots free inflight issued offset b)
  note step = issue_pieces.simps [of env stop slots free inflight issued offset b]
  show ?case
  proof (cases "slots = [] \<or> stop \<le> offset \<or> free = []")
    case True
    with 1(2) show ?thesis by (auto simp: step split: if_splits)
  next
    case False
    then have f: "\<not> (slots = [] \<or> stop \<le> offset)" "free \<noteq> []" by auto
    obtain b1 q where i: "issue env (last free) (Read (br_handle b) offset (min (br_chunk b) (stop - offset)) 0) b = (b1, q)"
      by fastforce
    with issue_rx have "br_rx b1 = br_rx b" by blast
    with 1(1) [OF f refl refl refl refl i [symmetric]] 1(2) f i show ?thesis
      by (cases q) (simp_all add: step Let_def)
  qed
qed

lemma await_shrinks:
  "await_in_turn sid inflight finished b = (b', Inr (flying, finished', entry)) \<Longrightarrow>
   length (br_rx b') < length (br_rx b) \<or> br_rx b' = br_rx b \<and> length finished' < length finished"
proof (induction sid inflight finished b rule: await_in_turn.induct)
  case (1 sid inflight finished b)
  show ?case
  proof (cases "sid \<in> set finished")
    case True
    then show ?thesis using 1(3) length_removeAll_less [of sid finished] by (auto simp: await_in_turn.simps [of sid inflight])
  next
    case False
    with 1(3) obtain b1 fl o1 where c: "collect inflight b = (b1, Inr (fl, o1))"
      by (auto simp: await_in_turn.simps [of sid inflight] split: prod.splits sum.splits)
    from collect_shrinks [OF c] 1(1,2) [OF False c [symmetric] refl refl] 1(3) False c show ?thesis
      by (cases o1) (fastforce simp: await_in_turn.simps [of sid inflight])+
  qed
qed

lemma stream_descends:
  assumes "(b1, r1) = issue_pieces env stop slots free inflight issued offset b" "r1 = Inr x"
    and "(b2, r2) = await_in_turn sid flying finished b1" "r2 = Inr y" "(flying', z) = y" "(finished', entry) = z"
    and "b3 = (if c then hand_over entry b2 else b2)"
  shows "length (br_rx b3) < length (br_rx b) \<or> length (br_rx b3) = length (br_rx b) \<and> length finished' < length finished"
  using issue_pieces_rx [OF assms(1) [symmetric]] await_shrinks [of sid flying finished b1 b2 flying' finished' entry] assms
  by (auto simp: hand_over_def split: if_splits)

text \<open>The loop of \<open>stream\<close>, for a consumer that takes \<open>Suc k\<close> more pieces and then closes the iterator.\<close>

function stream_loop ::
  "env \<Rightarrow> nat \<Rightarrow> int \<Rightarrow> nat list \<Rightarrow> int list \<Rightarrow> (int \<times> in_flight_read) list \<Rightarrow> int list \<Rightarrow> int list \<Rightarrow> int \<Rightarrow> unit bop" where
  "stream_loop env k stop slots free inflight issued finished offset b =
     (case issue_pieces env stop slots free inflight issued offset b of
        (b1, Inl e) \<Rightarrow> (b1, Inl e)
      | (b1, Inr (slots', free', inflight', issued', offset')) \<Rightarrow>
          (case issued' of
             [] \<Rightarrow> (b1, Inr ())
           | sid # later \<Rightarrow>
               (case await_in_turn sid inflight' finished b1 of
                  (b2, Inl e) \<Rightarrow> (b2, Inl e)
                | (b2, Inr (flying, finished', entry)) \<Rightarrow>
                    let b3 = (if if_got entry \<noteq> 0 then hand_over entry b2 else b2);
                        short = if_got entry < if_length entry;
                        stop' = (if short then min stop (if_offset entry + if_got entry) else stop)
                    in if if_got entry \<noteq> 0 \<and> k = 0 then (b3, Inr ())
                       else stream_loop env (if if_got entry \<noteq> 0 then k - 1 else k) stop' (slots' @ [if_slot entry])
                              (free' @ [sid]) flying later finished' (if short then min offset' stop' else offset') b3)))"
  by pat_completeness auto
termination
proof (relation "measures [\<lambda>(_, _, _, _, _, _, _, _, _, b). length (br_rx b), \<lambda>(_, _, _, _, _, _, _, finished, _, _). length finished]",
    goal_cases)
  case 2
  from stream_descends [OF 2(1,2,8,9,10,11,12)] show ?case by auto
qed simp

declare stream_loop.simps [simp del]

definition stream :: "env \<Rightarrow> int \<Rightarrow> int \<Rightarrow> nat \<Rightarrow> unit bop" where
  "stream env base len k b =
     (if len \<le> 0 then (b, Inr ())
      else bbind begin_call (\<lambda>free.
           bbind (bupd (\<lambda>b. b\<lparr>br_memory := replicate (nat (br_chunk b * br_depth b)) 0\<rparr>)) (\<lambda>_.
           finally_settle (stream_loop env k (base + len) [0 ..< nat (br_depth b)] free [] [] [] base))) b)"

subsection \<open>Whole replies\<close>

text \<open>\<open>gather\<close>: each reply has a buffer of its own, as long as the most it may carry.\<close>

fun issue_requests ::
  "env \<Rightarrow> (request \<times> int) list \<Rightarrow> int list \<Rightarrow> (int \<times> in_flight_read) list \<Rightarrow> int \<Rightarrow>
   ((request \<times> int) list \<times> int list \<times> (int \<times> in_flight_read) list \<times> int) bop" where
  "issue_requests env [] free inflight issued b = (b, Inr ([], free, inflight, issued))"
| "issue_requests env ((req, bound) # todo) free inflight issued b =
     (if free = [] then (b, Inr ((req, bound) # todo, free, inflight, issued))
      else
        let sid = last free;
            entry = \<lparr>if_offset = issued, if_length = bound, if_at = length (br_memory b), if_slot = 0, if_got = 0\<rparr>
        in case issue env sid req (b\<lparr>br_memory := br_memory b @ replicate (nat bound) 0\<rparr>) of
             (b', Inl e) \<Rightarrow> (b', Inl e)
           | (b', Inr _) \<Rightarrow> issue_requests env todo (butlast free) (dict_set sid entry inflight) (issued + 1) b')"

lemma issue_requests_rx: "issue_requests env todo free inflight issued b = (b', r) \<Longrightarrow> br_rx b' = br_rx b"
proof (induction env todo free inflight issued b arbitrary: b' r rule: issue_requests.induct)
  case (2 env req bound todo free inflight issued b)
  obtain b1 q where i: "issue env (last free) req (b\<lparr>br_memory := br_memory b @ replicate (nat bound) 0\<rparr>) = (b1, q)"
    by fastforce
  with issue_rx have rx: "br_rx b1 = br_rx b" by fastforce
  show ?case
  proof (cases "free = []")
    case False
    with 2(1) [OF False refl refl i [symmetric]] 2(2) i rx show ?thesis by (cases q) (simp_all add: Let_def)
  qed (use 2 in simp)
qed simp

function gather_loop ::
  "env \<Rightarrow> nat \<Rightarrow> (request \<times> int) list \<Rightarrow> int list \<Rightarrow> (int \<times> in_flight_read) list \<Rightarrow> int \<Rightarrow> (int \<times> bytes) list \<Rightarrow> bytes list bop" where
  "gather_loop env n todo free inflight issued results b =
     (case issue_requests env todo free inflight issued b of
        (b1, Inl e) \<Rightarrow> (b1, Inl e)
      | (b1, Inr (todo', free', inflight', issued')) \<Rightarrow>
          if inflight' = [] then
            (b1, if \<forall>i < n. map_of results (int i) \<noteq> None then Inr (map (\<lambda>i. the (map_of results (int i))) [0 ..< n]) else Inl KeyError)
          else case collect inflight' b1 of
                 (b2, Inl e) \<Rightarrow> (b2, Inl e)
               | (b2, Inr (flying, None)) \<Rightarrow> gather_loop env n todo' free' flying issued' results b2
               | (b2, Inr (flying, Some sid)) \<Rightarrow>
                   let entry = the (map_of flying sid);
                       body = take (nat (if_got entry)) (drop (if_at entry) (br_memory b2))
                   in gather_loop env n todo' (free' @ [sid]) (dict_pop sid flying) issued'
                        (dict_set (if_offset entry) body results) b2)"
  by pat_completeness auto
termination
  by (relation "measure (\<lambda>(_, _, _, _, _, _, _, b). length (br_rx b))")
     (simp_all, (drule issue_requests_rx [OF sym], drule collect_shrinks [OF sym], simp)+)

declare gather_loop.simps [simp del]

definition gather :: "env \<Rightarrow> (request \<times> int) list \<Rightarrow> bytes list bop" where
  "gather env requests b =
     (if requests = [] then (b, Inr [])
      else bbind begin_call (\<lambda>free.
           bbind (bupd (\<lambda>b. b\<lparr>br_memory := []\<rparr>)) (\<lambda>_.
           finally_settle (gather_loop env (length requests) requests free [] 0 []))) b)"

subsection \<open>Writing\<close>

record write_replies =
  wr_waited :: bool
  wr_strict :: bool

fun write_batch ::
  "env \<Rightarrow> bytes list \<Rightarrow> int list \<Rightarrow> (int \<times> int \<times> int) list \<Rightarrow> int \<Rightarrow>
   (bytes list \<times> int list \<times> (int \<times> int \<times> int) list \<times> int \<times> bool) bop" where
  "write_batch env [] free unanswered offset b = (b, Inr ([], free, unanswered, offset, free \<noteq> []))"
| "write_batch env (piece # source) free unanswered offset b =
     (if free = [] then (b, Inr (piece # source, free, unanswered, offset, False))
      else if piece = [] then write_batch env source free unanswered offset b
      else if br_chunk b < int (length piece) then (b, Inl ValueError)
      else
        let sid = last free
        in case issue env sid (Write (br_handle b) offset piece 0) b of
             (b', Inl e) \<Rightarrow> (b', Inl e)
           | (b', Inr _) \<Rightarrow>
               write_batch env source (butlast free) (dict_set sid (offset, int (length piece)) unanswered)
                 (offset + int (length piece)) b')"

text \<open>\<open>_write_answer\<close>: the bytes acknowledged, and the refusal if it is one.\<close>

definition write_answer ::
  "write_replies \<Rightarrow> response_header \<Rightarrow> bytes \<Rightarrow> int \<times> int \<Rightarrow> (int \<times> exn option) bop" where
  "write_answer replies reply body extent b =
     (if rh_status reply = kXR_ok then (b\<lparr>br_acked := br_acked b @ [extent]\<rparr>, Inr (snd extent, None))
      else if rh_status reply = kXR_wait \<and> wr_waited replies then (b\<lparr>br_waited := br_waited b @ [extent]\<rparr>, Inr (0, None))
      else if wr_strict replies \<and> rh_status reply \<noteq> kXR_error then (b\<lparr>br_torn := True\<rparr>, Inl ProtocolError)
      else (b, Inr (0, Some (refusal (rh_status reply) body))))"

definition next_answer :: "(response_header \<times> bytes) bop" where
  "next_answer = bbind next_reply (\<lambda>reply. bbind (frame_body (rh_dlen reply)) (\<lambda>body.
     bbind (if rh_status reply = kXR_oksofar then bret () else settled_reply (rh_streamid reply)) (\<lambda>_.
     bret (reply, body))))"

lemma write_batch_rx: "write_batch env source free unanswered offset b = (b', r) \<Longrightarrow> br_rx b' = br_rx b"
proof (induction env source free unanswered offset b arbitrary: b' r rule: write_batch.induct)
  case (2 env piece source free unanswered offset b)
  obtain b1 q where i: "issue env (last free) (Write (br_handle b) offset piece 0) b = (b1, q)" by fastforce
  with issue_rx have rx: "br_rx b1 = br_rx b" by blast
  show ?case
  proof (cases "free = [] \<or> piece = [] \<or> br_chunk b < int (length piece)")
    case True
    with 2(1,3) show ?thesis by (auto split: if_splits)
  next
    case False
    with 2(2) [OF _ _ _ refl i [symmetric]] 2(3) i rx show ?thesis by (cases q) (simp_all add: Let_def)
  qed
qed simp

lemma next_answer_shrinks: "next_answer b = (b', Inr x) \<Longrightarrow> length (br_rx b') < length (br_rx b)"
  by (auto simp: next_answer_def bbind_eq_Inr frame_body_Inr settled_reply_def split: if_splits dest!: next_reply_shrinks)

lemma write_answer_rx: "write_answer replies reply body extent b = (b', r) \<Longrightarrow> br_rx b' = br_rx b"
  by (auto simp: write_answer_def split: if_splits)

lemma chunks_descend:
  assumes "(b1, r1) = (if c then write_batch env source free unanswered offset b else (b, q))"
    and "(b2, r2) = next_answer b1" "r2 = Inr y"
  shows "length (br_rx b2) < length (br_rx b)"
  using write_batch_rx [of env source free unanswered offset b b1 r1] next_answer_shrinks [of b1 b2 y] assms
  by (auto split: if_splits)

function chunks_loop ::
  "env \<Rightarrow> write_replies \<Rightarrow> bytes list \<Rightarrow> int list \<Rightarrow> (int \<times> int \<times> int) list \<Rightarrow> int \<Rightarrow> bool \<Rightarrow> exn option \<Rightarrow> int \<Rightarrow> int bop" where
  "chunks_loop env replies source free unanswered offset exhausted failure acked b =
     (case (if \<not> exhausted \<and> failure = None then write_batch env source free unanswered offset b
            else (b, Inr (source, free, unanswered, offset, exhausted))) of
        (b1, Inl e) \<Rightarrow> (b1, Inl e)
      | (b1, Inr (source', free', unanswered', offset', exhausted')) \<Rightarrow>
          if unanswered' = [] then (b1, case failure of None \<Rightarrow> Inr acked | Some e \<Rightarrow> Inl e)
          else case next_answer b1 of
                 (b2, Inl e) \<Rightarrow> (b2, Inl e)
               | (b2, Inr (reply, body)) \<Rightarrow>
                   if rh_status reply = kXR_oksofar
                   then chunks_loop env replies source' free' unanswered' offset' exhausted' failure acked b2
                   else case map_of unanswered' (rh_streamid reply) of
                          None \<Rightarrow> (b2, Inl KeyError)
                        | Some extent \<Rightarrow>
                            (case write_answer replies reply body extent b2 of
                               (b3, Inl e) \<Rightarrow> (b3, Inl e)
                             | (b3, Inr (count, error)) \<Rightarrow>
                                 chunks_loop env replies source' (free' @ [rh_streamid reply])
                                   (dict_pop (rh_streamid reply) unanswered') offset' exhausted'
                                   (if failure = None then error else failure) (acked + count) b3))"
  by pat_completeness auto
termination
proof (relation "measure (\<lambda>(_, _, _, _, _, _, _, _, _, b). length (br_rx b))", goal_cases)
  case 2 from chunks_descend [OF 2(1,8,9)] show ?case by simp
next
  case 3 from chunks_descend [OF 3(1,8,9)] write_answer_rx [OF 3(13) [symmetric]] show ?case by simp
qed simp

declare chunks_loop.simps [simp del]

text \<open>An exception on its way out is not replaced by one of \<open>settle\<close> here.\<close>

definition write_chunks :: "env \<Rightarrow> write_replies \<Rightarrow> bytes list \<Rightarrow> int \<Rightarrow> int bop" where
  "write_chunks env replies source base =
     bbind begin_call (\<lambda>free b.
       case chunks_loop env replies source free [] base False None 0 b of
         (b1, Inl e) \<Rightarrow> (fst (settle b1), Inl e)
       | (b1, Inr n) \<Rightarrow> (case settle b1 of (b2, Inl e) \<Rightarrow> (b2, Inl e) | (b2, Inr _) \<Rightarrow> (b2, Inr n)))"

function cut :: "nat \<Rightarrow> bytes \<Rightarrow> bytes list" where
  "cut n view = (if view = [] \<or> n = 0 then [] else take n view # cut n (drop n view))"
  by auto
termination by (relation "measure (\<lambda>(_, view). length view)") auto

declare cut.simps [simp del]

definition write_from :: "env \<Rightarrow> bytes \<Rightarrow> int \<Rightarrow> int bop" where
  "write_from env view base b =
     (if view = [] then (b, Inr 0)
      else write_chunks env \<lparr>wr_waited = False, wr_strict = False\<rparr> (cut (nat (br_chunk b)) view) base b)"

text \<open>Equations to evaluate by: every branch on an option as a test, every bind as the case it stands for.\<close>

lemma if_apply: "(if c then f else g) x = (if c then f x else g x)" by simp

lemma let_apply: "(let y = a in f y) x = (let y = a in f y x)" by simp

lemma option_apply: "(case y of None \<Rightarrow> f | Some z \<Rightarrow> g z) x = (if Option.is_none y then f x else g (the y) x)"
  by (cases y) simp_all

lemma option_test: "(case y of None \<Rightarrow> f | Some z \<Rightarrow> g z) = (if Option.is_none y then f else g (the y))"
  by (cases y) simp_all

lemmas stepwise = bbind_def bop_simps if_apply let_apply option_apply

lemmas stepwise_code [code] =
  take_notice_def [THEN fun_cong, unfolded stepwise] frame_header_def [THEN fun_cong, unfolded stepwise]
  deferred_def [THEN fun_cong, unfolded stepwise] land_def [THEN fun_cong, unfolded stepwise]
  collect_def [THEN fun_cong, unfolded stepwise] next_answer_def [THEN fun_cong, unfolded stepwise]
  write_chunks_def [THEN fun_cong, unfolded stepwise] into_def [unfolded stepwise] begin_call_def [unfolded stepwise]
  issue_def [THEN fun_cong, unfolded stepwise] frame_body_def [THEN fun_cong, unfolded stepwise]
  next_reply.simps [unfolded stepwise option_test] into_loop.simps [unfolded option_test]
  await_in_turn.simps [unfolded option_test] gather_loop.simps [unfolded option_test] chunks_loop.simps [unfolded option_test]

end
