(* ===== verification/Bulk_Safety.thy ===== *)
theory Bulk_Safety
  imports Bulk_Reader
begin

text \<open>
  Whatever a server sends, a bulk transfer leaves its connection either marked broken or in step:
  a whole number of frames off the wire, every stream id back with the machine, and the ids of
  replies still to come retired so that nothing else can be given them.

  Operations of the reader are specified by triples: a precondition, a postcondition on the
  result, and a condition on the states an exception may leave.
\<close>

subsection \<open>What is owed, and frame boundaries\<close>

fun owing_step :: "wire \<Rightarrow> int set \<Rightarrow> int set" where
  "owing_step (Sent sid req) s = insert sid s"
| "owing_step (Got sid status body) s = (if status = kXR_oksofar \<or> status = kXR_waitresp then s else s - {sid})"

definition owing :: "wire list \<Rightarrow> int set" where
  "owing evs = fold owing_step evs {}"

lemma owing_simps [simp]:
  "owing [] = {}" "owing (evs @ [e]) = owing_step e (owing evs)"
  by (simp_all add: owing_def)

inductive whole_frames :: "bytes \<Rightarrow> bytes \<Rightarrow> bool" for rx where
  no_frame: "whole_frames rx rx"
| one_frame: "whole_frames rx (h @ body @ rest) \<Longrightarrow> length h = 8 \<Longrightarrow> decode_header h = Inr reply \<Longrightarrow>
    rh_dlen reply = int (length body) \<Longrightarrow> whole_frames rx rest"

subsection \<open>Triples\<close>

definition triple :: "(bulk_reader \<Rightarrow> bool) \<Rightarrow> 'a bop \<Rightarrow> ('a \<Rightarrow> bulk_reader \<Rightarrow> bool) \<Rightarrow> (bulk_reader \<Rightarrow> bool) \<Rightarrow> bool" where
  "triple P p Q E \<longleftrightarrow> (\<forall>b. P b \<longrightarrow> (case p b of (b', Inl e) \<Rightarrow> E b' | (b', Inr x) \<Rightarrow> Q x b'))"

lemma tripleI: "(\<And>b b' e. P b \<Longrightarrow> p b = (b', Inl e) \<Longrightarrow> E b') \<Longrightarrow> (\<And>b b' x. P b \<Longrightarrow> p b = (b', Inr x) \<Longrightarrow> Q x b') \<Longrightarrow> triple P p Q E"
  by (auto simp: triple_def split: prod.splits sum.splits)

lemma triple_Inr: "triple P p Q E \<Longrightarrow> P b \<Longrightarrow> p b = (b', Inr x) \<Longrightarrow> Q x b'"
  by (force simp: triple_def)

lemma triple_Inl: "triple P p Q E \<Longrightarrow> P b \<Longrightarrow> p b = (b', Inl e) \<Longrightarrow> E b'"
  by (force simp: triple_def)

lemma triple_bind:
  assumes "triple P p R E" and "\<And>x. triple (R x) (k x) Q E"
  shows "triple P (bbind p k) Q E"
  using assms by (fastforce simp: triple_def bbind_def split: prod.splits sum.splits)

lemma triple_weaken:
  "triple P p Q E \<Longrightarrow> (\<And>b. P' b \<Longrightarrow> P b) \<Longrightarrow> (\<And>x b. Q x b \<Longrightarrow> Q' x b) \<Longrightarrow> (\<And>b. E b \<Longrightarrow> E' b) \<Longrightarrow> triple P' p Q' E'"
  by (fastforce simp: triple_def split: prod.splits sum.splits)

lemma triple_ret: "triple (Q x) (bret x) Q E"
  and triple_fail: "triple E (bfail e) Q E"
  and triple_upd: "triple (\<lambda>b. Q () (f b)) (bupd f) Q E"
  by (simp_all add: triple_def)

lemma triple_lift: "(\<And>x. r = Inr x \<Longrightarrow> P = Q x) \<Longrightarrow> (\<And>b. P b \<Longrightarrow> E b) \<Longrightarrow> triple P (lift_res r) Q E"
  by (auto simp: triple_def split: sum.splits)

lemma triple_if: "(c \<Longrightarrow> triple P p Q E) \<Longrightarrow> (\<not> c \<Longrightarrow> triple P q Q E) \<Longrightarrow> triple P (if c then p else q) Q E"
  by simp

subsection \<open>The state of the wire\<close>

definition calm :: "machine \<Rightarrow> int list \<Rightarrow> int list \<Rightarrow> bulk_reader \<Rightarrow> bool" where
  "calm m lsd sids b \<longleftrightarrow> core (br_machine b) = core m \<and> br_leased b = lsd \<and> br_owed b \<subseteq> set sids"

text \<open>Sound: in step unless torn. Between frames: in step. Amid \<open>n\<close>: a frame ends \<open>n\<close> bytes on.\<close>

definition between :: "bytes \<Rightarrow> machine \<Rightarrow> int list \<Rightarrow> int list \<Rightarrow> bulk_reader \<Rightarrow> bool" where
  "between rx m lsd sids b \<longleftrightarrow> calm m lsd sids b \<and> \<not> br_torn b \<and> whole_frames rx (br_rx b) \<and> br_owed b = owing (br_log b)"

definition sound :: "bytes \<Rightarrow> machine \<Rightarrow> int list \<Rightarrow> int list \<Rightarrow> bulk_reader \<Rightarrow> bool" where
  "sound rx m lsd sids b \<longleftrightarrow> calm m lsd sids b \<and> (br_torn b \<or> between rx m lsd sids b)"

definition amid :: "bytes \<Rightarrow> machine \<Rightarrow> int list \<Rightarrow> int list \<Rightarrow> int \<Rightarrow> bulk_reader \<Rightarrow> bool" where
  "amid rx m lsd sids n b \<longleftrightarrow> calm m lsd sids b \<and> br_torn b \<and> br_owed b = owing (br_log b) \<and> 0 \<le> n \<and>
     (nat n \<le> length (br_rx b) \<longrightarrow> whole_frames rx (drop (nat n) (br_rx b)))"

lemma between_sound: "between rx m lsd sids b \<Longrightarrow> sound rx m lsd sids b"
  by (simp add: sound_def between_def)

lemma amid_sound: "amid rx m lsd sids n b \<Longrightarrow> sound rx m lsd sids b"
  by (simp add: sound_def amid_def)

lemma decode_header_bounds: "decode_header h = Inr reply \<Longrightarrow> 0 \<le> rh_dlen reply"
  by (auto simp: decode_header_def header_fields_def rbind_eq_Inr Let_def split: if_splits)

lemma exact_fresh:
  "triple (between rx m lsd sids) (exact HEADER True)
     (\<lambda>h b. length h = 8 \<and> (\<forall>reply. decode_header h = Inr reply \<longrightarrow> amid rx m lsd sids (rh_dlen reply) b) \<and> sound rx m lsd sids b)
     (sound rx m lsd sids)"
proof (rule tripleI)
  fix b b' e
  assume "between rx m lsd sids b" "exact HEADER True b = (b', Inl e)"
  then show "sound rx m lsd sids b'"
    by (auto simp: exact_def sound_def between_def calm_def split: if_splits)
next
  fix b b' h
  assume a: "between rx m lsd sids b" "exact HEADER True b = (b', Inr h)"
  then have h: "length h = 8" "br_rx b = h @ br_rx b'" and t: "br_torn b'" and c: "calm m lsd sids b'" "br_owed b' = owing (br_log b')"
    by (auto simp: exact_Inr HEADER_def between_def calm_def)
  have "amid rx m lsd sids (rh_dlen reply) b'" if "decode_header h = Inr reply" for reply
  proof -
    have "whole_frames rx (drop (nat (rh_dlen reply)) (br_rx b'))" if "nat (rh_dlen reply) \<le> length (br_rx b')"
    proof (rule one_frame)
      show "whole_frames rx (h @ take (nat (rh_dlen reply)) (br_rx b') @ drop (nat (rh_dlen reply)) (br_rx b'))"
        using a h by (simp add: between_def)
    qed (use h that \<open>decode_header h = Inr reply\<close> decode_header_bounds in \<open>auto simp: min_def\<close>)
    then show ?thesis using c t decode_header_bounds [OF that] by (auto simp: amid_def)
  qed
  then show "length h = 8 \<and> (\<forall>reply. decode_header h = Inr reply \<longrightarrow> amid rx m lsd sids (rh_dlen reply) b') \<and> sound rx m lsd sids b'"
    using h t c by (simp add: sound_def)
qed

lemma exact_amid:
  "int n \<le> k \<Longrightarrow> triple (amid rx m lsd sids k) (exact n False) (\<lambda>x b. length x = n \<and> amid rx m lsd sids (k - int n) b) (sound rx m lsd sids)"
proof (rule tripleI)
  fix b b' e
  assume "amid rx m lsd sids k b" "exact n False b = (b', Inl e)"
  then show "sound rx m lsd sids b'" by (auto simp: exact_def sound_def amid_def calm_def split: if_splits)
next
  fix b b' x
  assume "int n \<le> k" "amid rx m lsd sids k b" "exact n False b = (b', Inr x)"
  then show "length x = n \<and> amid rx m lsd sids (k - int n) b'"
    by (auto simp: exact_Inr amid_def calm_def nat_diff_distrib')
qed

lemma frame_body_amid:
  "triple (amid rx m lsd sids n) (frame_body n) (\<lambda>x b. between rx m lsd sids b \<and> length x = nat n) (sound rx m lsd sids)"
proof (rule tripleI)
  fix b b' e
  assume "amid rx m lsd sids n b" "frame_body n b = (b', Inl e)"
  then show "sound rx m lsd sids b'"
    by (auto simp: frame_body_def bbind_def exact_def sound_def amid_def calm_def split: if_splits)
qed (auto simp: frame_body_Inr amid_def between_def calm_def)

subsection \<open>Receiving\<close>

definition headed :: "bytes \<Rightarrow> machine \<Rightarrow> int list \<Rightarrow> int list \<Rightarrow> response_header option \<Rightarrow> bulk_reader \<Rightarrow> bool" where
  "headed rx m lsd sids r b = (case r of None \<Rightarrow> between rx m lsd sids b | Some reply \<Rightarrow> amid rx m lsd sids (rh_dlen reply) b)"

lemma take_notice_between: "triple (between rx m lsd sids) (take_notice body) (headed rx m lsd sids) (sound rx m lsd sids)"
  by (rule tripleI) (auto simp: take_notice_def headed_def bbind_def between_def sound_def calm_def split: sum.splits)

lemma frame_header_between: "triple (between rx m lsd sids) frame_header (headed rx m lsd sids) (sound rx m lsd sids)"
  unfolding frame_header_def
proof (rule triple_bind [OF exact_fresh], goal_cases)
  case (1 header)
  show ?case
  proof (cases "decode_header header")
    case Inl
    then show ?thesis by (auto simp: triple_def bbind_def)
  next
    case (Inr reply)
    have *: "triple (amid rx m lsd sids (rh_dlen reply))
      (if rh_status reply \<noteq> kXR_attn then bret (Some reply)
       else if rh_dlen reply < ASYNC then bbind (frame_body (rh_dlen reply)) take_notice
       else bbind (exact HEADER False) (\<lambda>head. bbind (lift_res (parse_attn head)) (\<lambda>attn.
           if at_action attn = kXR_asynresp
           then bbind (exact HEADER False) (\<lambda>header'. bbind (lift_res (decode_header header')) (\<lambda>inner.
                bret (Some \<lparr>rh_streamid = rh_streamid inner, rh_status = rh_status inner, rh_dlen = rh_dlen reply - ASYNC\<rparr>)))
           else bbind (frame_body (rh_dlen reply - int HEADER)) (\<lambda>rest. take_notice (head @ rest)))))
      (headed rx m lsd sids) (sound rx m lsd sids)"
    proof (intro triple_if, goal_cases)
      case 1 show ?case by (simp add: triple_def headed_def)
    next
      case 2
      show ?case
        by (rule triple_bind [OF frame_body_amid])
           (rule triple_weaken [OF take_notice_between]; simp)
    next
      case 3
      then have n: "int HEADER \<le> rh_dlen reply" "int HEADER \<le> rh_dlen reply - int HEADER"
        by (simp_all add: HEADER_def ASYNC_def)
      show ?case
      proof (rule triple_bind [OF exact_amid [OF n(1)]], goal_cases)
        case (1 head)
        show ?case
        proof (rule triple_bind [where R = "\<lambda>_. amid rx m lsd sids (rh_dlen reply - int HEADER)"], goal_cases)
          case 1
          show ?case by (auto simp: triple_def dest: amid_sound split: sum.splits)
        next
          case (2 attn)
          show ?case
          proof (intro triple_if, goal_cases)
            case 1
            show ?case
              by (rule triple_bind [OF exact_amid [OF n(2)]])
                 (auto simp: triple_def bbind_def headed_def HEADER_def ASYNC_def dest: amid_sound split: sum.splits)
          next
            case 2
            show ?case
              by (rule triple_bind [OF frame_body_amid])
                 (rule triple_weaken [OF take_notice_between]; simp)
          qed
        qed
      qed
    qed
    show ?thesis
      by (rule triple_weaken [where P = "amid rx m lsd sids (rh_dlen reply)" and Q = "headed rx m lsd sids" and E = "sound rx m lsd sids"])
         (use * Inr in \<open>auto simp: triple_def bbind_def\<close>)
  qed
qed

text \<open>After a reply's header: it answers a request still owed, and \<open>rh_dlen\<close> bytes complete its frame.\<close>

definition replied :: "bytes \<Rightarrow> machine \<Rightarrow> int list \<Rightarrow> int list \<Rightarrow> response_header \<Rightarrow> bulk_reader \<Rightarrow> bool" where
  "replied rx m lsd sids reply b \<longleftrightarrow> calm m lsd sids b \<and> br_torn b \<and> rh_streamid reply \<in> br_owed b \<and>
     rh_status reply \<noteq> kXR_waitresp \<and> 0 \<le> rh_dlen reply \<and>
     owing (br_log b) = (if rh_status reply = kXR_oksofar then br_owed b else br_owed b - {rh_streamid reply}) \<and>
     (nat (rh_dlen reply) \<le> length (br_rx b) \<longrightarrow> whole_frames rx (drop (nat (rh_dlen reply)) (br_rx b)))"

lemma deferred_between: "triple (between rx m lsd sids) (deferred body) (\<lambda>_. between rx m lsd sids) (sound rx m lsd sids)"
  by (rule tripleI) (auto simp: deferred_def bbind_def between_sound split: sum.splits)

lemma next_reply_between: "triple (between rx m lsd sids) next_reply (replied rx m lsd sids) (sound rx m lsd sids)"
  unfolding triple_def
proof (intro allI)
  fix b
  show "between rx m lsd sids b \<longrightarrow> (case next_reply b of (b', Inl e) \<Rightarrow> sound rx m lsd sids b' | (b', Inr x) \<Rightarrow> replied rx m lsd sids x b')"
  proof (induction b rule: next_reply.induct)
    case (1 b)
    show ?case
    proof
      assume btw: "between rx m lsd sids b"
      obtain b1 r where h: "frame_header b = (b1, r)" by fastforce
      consider e where "r = Inl e" | "r = Inr None" | reply where "r = Inr (Some reply)"
        by (metis option.exhaust sum.exhaust)
      then show "case next_reply b of (b', Inl e) \<Rightarrow> sound rx m lsd sids b' | (b', Inr x) \<Rightarrow> replied rx m lsd sids x b'"
      proof cases
        case 1
        with triple_Inl [OF frame_header_between btw] h show ?thesis by (simp add: next_reply.simps [of b])
      next
        case 2
        with triple_Inr [OF frame_header_between btw] h have "between rx m lsd sids b1" by (fastforce simp: headed_def)
        with 1(1) [OF h [symmetric] 2 refl] h 2 show ?thesis by (simp add: next_reply.simps [of b])
      next
        case (3 reply)
        with triple_Inr [OF frame_header_between btw] h have a: "amid rx m lsd sids (rh_dlen reply) b1"
          by (fastforce simp: headed_def)
        show ?thesis
        proof (cases "rh_streamid reply \<in> br_owed b1 \<and> rh_status reply = kXR_waitresp")
          case False
          then show ?thesis
            using a h 3 by (auto simp: next_reply.simps [of b] replied_def amid_def sound_def calm_def log_reply_def)
        next
          case True
          let ?b = "log_reply reply b1"
          have a': "amid rx m lsd sids (rh_dlen reply) ?b"
            using a True by (auto simp: amid_def calm_def log_reply_def)
          have t: "triple (amid rx m lsd sids (rh_dlen reply)) (bbind (frame_body (rh_dlen reply)) deferred)
                     (\<lambda>_. between rx m lsd sids) (sound rx m lsd sids)"
            by (rule triple_bind [OF frame_body_amid]) (rule triple_weaken [OF deferred_between]; simp)
          obtain b2 q where d: "bbind (frame_body (rh_dlen reply)) deferred ?b = (b2, q)" by fastforce
          show ?thesis
          proof (cases q)
            case (Inl e)
            with triple_Inl [OF t a'] d h 3 True show ?thesis by (simp add: next_reply.simps [of b])
          next
            case (Inr u)
            with triple_Inr [OF t a'] d have "between rx m lsd sids b2" by blast
            with 1(2) [OF h [symmetric] 3 refl _ _ d [symmetric] Inr] True h 3 d Inr show ?thesis
              by (simp add: next_reply.simps [of b])
          qed
        qed
      qed
    qed
  qed
qed

lemma body_replied:
  "triple (replied rx m lsd sids reply) (bbind (frame_body (rh_dlen reply)) (\<lambda>body. bbind
       (if rh_status reply = kXR_oksofar then bret () else settled_reply (rh_streamid reply)) (\<lambda>_. bret (reply, body))))
     (\<lambda>x b. between rx m lsd sids b \<and> fst x = reply) (sound rx m lsd sids)"
proof (rule tripleI)
  fix b b' e
  assume "replied rx m lsd sids reply b"
    "bbind (frame_body (rh_dlen reply)) (\<lambda>body. bbind
       (if rh_status reply = kXR_oksofar then bret () else settled_reply (rh_streamid reply)) (\<lambda>_. bret (reply, body))) b = (b', Inl e)"
  then show "sound rx m lsd sids b'"
    by (auto simp: frame_body_def bbind_def exact_def settled_reply_def replied_def sound_def calm_def split: if_splits)
qed (auto simp: bbind_eq_Inr frame_body_Inr settled_reply_def replied_def between_def calm_def split: if_splits)

lemma next_answer_between:
  "triple (between rx m lsd sids) next_answer (\<lambda>_. between rx m lsd sids) (sound rx m lsd sids)"
  unfolding next_answer_def
  by (rule triple_bind [OF next_reply_between]) (rule triple_weaken [OF body_replied]; simp)

lemma land_replied:
  "triple (replied rx m lsd sids reply) (land entry (rh_dlen reply))
     (\<lambda>_ b. calm m lsd sids b \<and> rh_streamid reply \<in> br_owed b \<and> whole_frames rx (br_rx b) \<and>
        owing (br_log b) = (if rh_status reply = kXR_oksofar then br_owed b else br_owed b - {rh_streamid reply})) (sound rx m lsd sids)"
proof (rule tripleI)
  fix b b' e
  assume "replied rx m lsd sids reply b" "land entry (rh_dlen reply) b = (b', Inl e)"
  then show "sound rx m lsd sids b'"
    by (auto simp: land_def bbind_def exact_def replied_def sound_def calm_def split: if_splits)
qed (auto simp: land_def bbind_eq_Inr exact_Inr replied_def calm_def split: if_splits)

lemma collect_between:
  "triple (between rx m lsd sids) (collect inflight)
     (\<lambda>x b. between rx m lsd sids b \<and> (\<forall>sid. snd x = Some sid \<longrightarrow> sid \<in> set sids)) (sound rx m lsd sids)"
  unfolding collect_def
proof (rule triple_bind [OF next_reply_between], goal_cases)
  case (1 reply)
  let ?sid = "rh_streamid reply"
  show ?case
  proof (cases "rh_status reply = kXR_ok \<or> rh_status reply = kXR_oksofar")
    case data: True
    show ?thesis
    proof (cases "map_of inflight ?sid")
      case None
      with data show ?thesis by (auto simp: triple_def Let_def replied_def sound_def)
    next
      case (Some entry)
      have "triple (replied rx m lsd sids reply)
        (bbind (land entry (rh_dlen reply)) (\<lambda>entry'. bbind (bupd (\<lambda>b. b\<lparr>br_torn := False\<rparr>)) (\<lambda>_.
           if rh_status reply = kXR_oksofar then bret (dict_set ?sid entry' inflight, None)
           else bbind (settled_reply ?sid) (\<lambda>_. bret (dict_set ?sid entry' inflight, Some ?sid)))))
        (\<lambda>x b. between rx m lsd sids b \<and> (\<forall>sid. snd x = Some sid \<longrightarrow> sid \<in> set sids)) (sound rx m lsd sids)"
        by (rule triple_bind [OF land_replied])
           (auto simp: triple_def settled_reply_def between_def calm_def bbind_def)
      with data Some show ?thesis by (simp add: Let_def)
    qed
  next
    case False
    have "triple (replied rx m lsd sids reply)
      (bbind (frame_body (rh_dlen reply)) (\<lambda>body. bbind (settled_reply ?sid) (\<lambda>_. bfail (refusal (rh_status reply) body))))
      (\<lambda>x b. between rx m lsd sids b \<and> (\<forall>sid. snd x = Some sid \<longrightarrow> sid \<in> set sids)) (sound rx m lsd sids)"
      using False
      by (auto simp: triple_def frame_body_def bbind_def exact_def settled_reply_def replied_def sound_def between_def calm_def
          split: if_splits)
    with False show ?thesis by (simp add: Let_def)
  qed
qed

subsection \<open>Sending\<close>

lemma frame_parts_core: "frame_parts_for env req sid m = (m', r) \<Longrightarrow> core m' = core m"
  by (auto simp: frame_parts_for_def mread_def mraise_def frame_def Let_def core_def
      split: if_splits sum.splits option.splits prod.splits)

lemma issue_between:
  "sid \<in> set sids \<Longrightarrow> triple (between rx m lsd sids) (issue env sid req) (\<lambda>_. between rx m lsd sids) (sound rx m lsd sids)"
  unfolding issue_def
proof (rule triple_bind [where R = "\<lambda>_. between rx m lsd sids"], goal_cases)
  case 1
  show ?case
    by (rule tripleI)
       (auto simp: machine_op_def between_def sound_def calm_def dest!: frame_parts_core split: prod.splits)
next
  case 2
  then show ?case
    by (intro tripleI) (auto simp: send_frame_def between_def sound_def calm_def split: list.splits send_fate.splits)
qed

subsection \<open>Handing back\<close>

lemma drain_between:
  "triple (between rx m lsd sids) drain_owed (\<lambda>_ b. between rx m lsd sids b \<and> br_owed b = {}) (sound rx m lsd sids)"
  unfolding triple_def
proof (intro allI)
  fix b
  show "between rx m lsd sids b \<longrightarrow>
    (case drain_owed b of (b', Inl e) \<Rightarrow> sound rx m lsd sids b' | (b', Inr x) \<Rightarrow> between rx m lsd sids b' \<and> br_owed b' = {})"
  proof (induction b rule: drain_owed.induct)
    case (1 b)
    note step = drain_owed.simps [of b]
    show ?case
    proof
      assume btw: "between rx m lsd sids b"
      show "case drain_owed b of (b', Inl e) \<Rightarrow> sound rx m lsd sids b' | (b', Inr x) \<Rightarrow> between rx m lsd sids b' \<and> br_owed b' = {}"
      proof (cases "br_owed b = {}")
        case True
        with btw show ?thesis by (simp add: step)
      next
        case owed: False
        obtain b1 r where n: "next_reply b = (b1, r)" by fastforce
        show ?thesis
        proof (cases r)
          case (Inl e)
          with triple_Inl [OF next_reply_between btw] n owed show ?thesis by (simp add: step)
        next
          case (Inr reply)
          with triple_Inr [OF next_reply_between btw] n have rep: "replied rx m lsd sids reply b1" by blast
          obtain b2 q where x: "exact (nat (rh_dlen reply)) False b1 = (b2, q)" by fastforce
          show ?thesis
          proof (cases q)
            case (Inl e)
            with rep x have "sound rx m lsd sids b2" by (auto simp: exact_def replied_def sound_def calm_def split: if_splits)
            with n Inr x Inl owed show ?thesis by (simp add: step)
          next
            case (Inr data)
            with rep x have "between rx m lsd sids (b2\<lparr>br_torn := False, br_owed :=
              (if rh_status reply \<noteq> kXR_oksofar then br_owed b2 - {rh_streamid reply} else br_owed b2)\<rparr>)"
              by (auto simp: exact_Inr replied_def between_def calm_def)
            with 1 [OF owed n [symmetric] \<open>r = Inr reply\<close> x [symmetric] Inr] n x owed \<open>r = Inr reply\<close> Inr show ?thesis
              by (simp add: step)
          qed
        qed
      qed
    qed
  qed
qed

definition handed_back :: "bytes \<Rightarrow> machine \<Rightarrow> int list \<Rightarrow> bulk_reader \<Rightarrow> bool" where
  "handed_back rx m sids b \<longleftrightarrow> br_leased b = [] \<and> br_owed b = {} \<and>
     (br_broken b \<and> core (br_machine b) = core m \<or>
      whole_frames rx (br_rx b) \<and> (owing (br_log b) \<noteq> {} \<longrightarrow> br_stopped b) \<and> owing (br_log b) \<subseteq> set sids \<and>
      (\<exists>m1. core m1 = core m \<and> br_machine b =
        (if owing (br_log b) = {} then release_sids sids m1 else retire_sids sids (owing (br_log b)) m1)))"

lemma hand_back_sound:
  assumes "sound rx m [] sids b"
  shows "handed_back rx m sids (hand_back sids b)"
proof (cases "br_torn b \<or> br_owed b \<noteq> {} \<and> \<not> br_stopped b")
  case True
  then have "hand_back sids b = b\<lparr>br_owed := {}, br_broken := True\<rparr>"
    by (auto simp: hand_back_def Let_def)
  then show ?thesis using assms by (simp add: handed_back_def sound_def calm_def)
next
  case False
  then have "between rx m [] sids b" using assms by (simp add: sound_def)
  then have f: "core (br_machine b) = core m" "br_leased b = []" "whole_frames rx (br_rx b)" "br_owed b = owing (br_log b)"
    "owing (br_log b) \<subseteq> set sids" "\<not> br_torn b"
    by (auto simp: between_def calm_def)
  from False f(6) have "hand_back sids b = b\<lparr>br_owed := {}, br_machine :=
      (if owing (br_log b) = {} then release_sids sids (br_machine b) else retire_sids sids (owing (br_log b)) (br_machine b))\<rparr>"
    by (cases "owing (br_log b) = {}") (auto simp: hand_back_def Let_def f(4))
  with f False show ?thesis unfolding handed_back_def by auto
qed

lemma settle_sound:
  assumes "sound rx m sids sids b" and "sids \<noteq> []" and "settle b = (b', r)"
  shows "handed_back rx m sids b'"
proof -
  let ?b = "b\<lparr>br_leased := []\<rparr>"
  have lsd: "br_leased b = sids" and s: "sound rx m [] sids ?b"
    using assms(1) by (auto simp: sound_def between_def calm_def)
  define c where "c = (br_owed b \<noteq> {} \<and> \<not> br_torn b \<and> \<not> br_stopped b)"
  obtain b2 q where d: "(if c then drain_owed ?b else (?b, Inr ())) = (b2, q)" by fastforce
  have b': "b' = hand_back sids b2"
    using assms(2,3) lsd d by (auto simp: settle_def Let_def c_def)
  have "sound rx m [] sids b2"
  proof (cases c)
    case True
    then have "between rx m [] sids ?b" using s by (simp add: sound_def c_def)
    moreover have "drain_owed ?b = (b2, q)" using d True by simp
    ultimately show ?thesis
      using triple_Inl [OF drain_between] triple_Inr [OF drain_between] between_sound by (cases q) blast+
  qed (use d s in auto)
  with b' show ?thesis by (simp add: hand_back_sound)
qed

lemma finally_sound:
  assumes "triple (between rx m sids sids) p Q (sound rx m sids sids)" and "\<And>x b. Q x b \<Longrightarrow> sound rx m sids sids b"
    and "between rx m sids sids b" "sids \<noteq> []" "finally_settle p b = (b', r)"
  shows "handed_back rx m sids b'"
proof -
  obtain b1 q where p: "p b = (b1, q)" by fastforce
  with assms(1-3) have "sound rx m sids sids b1" by (cases q) (auto dest: triple_Inl triple_Inr)
  moreover obtain b2 t where "settle b1 = (b2, t)" by fastforce
  moreover from this p assms(5) have "b' = b2" by (cases t) (auto simp: finally_settle_def)
  ultimately show ?thesis using settle_sound assms(4) by blast
qed

subsection \<open>The calls\<close>

lemma issue_reads_between:
  assumes "between rx m lsd sids b" "set free \<subseteq> set sids" "issue_reads env base stop free inflight cursor b = (b', r)"
  shows "case r of Inl e \<Rightarrow> sound rx m lsd sids b' | Inr (free', _) \<Rightarrow> between rx m lsd sids b' \<and> set free' \<subseteq> set sids"
  using assms
proof (induction env base stop free inflight cursor b arbitrary: b' r rule: issue_reads.induct)
  case (1 env base stop free inflight cursor b)
  note step = issue_reads.simps [of env base stop free inflight cursor b]
  show ?case
  proof (cases "free = [] \<or> stop \<le> cursor")
    case True
    with 1(2-4) show ?thesis by (auto simp: step)
  next
    case False
    let ?n = "min (br_chunk b) (stop - cursor)"
    obtain b1 q where i: "issue env (last free) (Read (br_handle b) (base + cursor) ?n 0) b = (b1, q)" by fastforce
    have l: "last free \<in> set sids" and bl: "set (butlast free) \<subseteq> set sids" using False 1(3) by (auto dest: in_set_butlastD)
    show ?thesis
    proof (cases q)
      case (Inl e)
      with triple_Inl [OF issue_between [OF l] 1(2)] i 1(4) False show ?thesis by (auto simp: step Let_def)
    next
      case (Inr u)
      with triple_Inr [OF issue_between [OF l] 1(2)] i have "between rx m lsd sids b1" by blast
      with 1(1) [OF False refl refl refl i [symmetric] Inr _ bl] 1(4) False i Inr show ?thesis by (simp add: step Let_def)
    qed
  qed
qed

lemma into_loop_between:
  assumes "between rx m lsd sids b" "set free \<subseteq> set sids" "into_loop env base stop free inflight cursor landed b = (b', r)"
  shows "sound rx m lsd sids b'"
  using assms
proof (induction env base stop free inflight cursor landed b arbitrary: b' r rule: into_loop.induct)
  case (1 env base stop free inflight cursor landed b)
  note step = into_loop.simps [of env base stop free inflight cursor landed b]
  obtain b1 q where i: "issue_reads env base stop free inflight cursor b = (b1, q)" by fastforce
  note issued = issue_reads_between [OF 1(3,4) i]
  show ?case
  proof (cases q)
    case (Inl e)
    with issued 1(5) i show ?thesis by (auto simp: step)
  next
    case (Inr y)
    obtain free' fl cursor' where y: "y = (free', fl, cursor')" by (metis prod_cases3)
    with issued Inr have b1: "between rx m lsd sids b1" and f: "set free' \<subseteq> set sids" by auto
    show ?thesis
    proof (cases "fl = []")
      case True
      with 1(5) i Inr y b1 have "b' = b1\<lparr>br_delivered := br_delivered b1 + landed\<rparr>" by (simp add: step)
      with b1 show ?thesis by (auto simp: sound_def between_def calm_def)
    next
      case False
      obtain b2 c where c: "collect fl b1 = (b2, c)" by fastforce
      show ?thesis
      proof (cases c)
        case (Inl e)
        with triple_Inl [OF collect_between b1] c 1(5) i Inr y False show ?thesis by (auto simp: step)
      next
        case (Inr z)
        obtain fl' o1 where z: "z = (fl', o1)" by fastforce
        from triple_Inr [OF collect_between b1] c Inr z
        have b2: "between rx m lsd sids b2" "\<And>sid. o1 = Some sid \<Longrightarrow> sid \<in> set sids" by fastforce+
        note IH = 1(1,2) [OF i [symmetric] \<open>q = Inr y\<close> y [symmetric] refl False c [symmetric] Inr z [symmetric]]
        show ?thesis
        proof (cases o1)
          case None
          with IH(1) [OF None b2(1) f] 1(5) i \<open>q = Inr y\<close> y False c Inr z show ?thesis by (simp add: step)
        next
          case (Some sid)
          with IH(2) [OF Some refl refl refl b2(1)] b2(2) f 1(5) i \<open>q = Inr y\<close> y False c Inr z show ?thesis
            by (simp add: step Let_def)
        qed
      qed
    qed
  qed
qed

lemma between_memory [simp]: "between rx m lsd sids (b\<lparr>br_memory := x\<rparr>) = between rx m lsd sids b"
  and between_hand_over [simp]: "between rx m lsd sids (hand_over entry b) = between rx m lsd sids b"
  by (simp_all add: between_def calm_def hand_over_def)

lemma issue_pieces_between:
  assumes "between rx m lsd sids b" "set free \<subseteq> set sids" "set issued \<subseteq> set sids"
    and "issue_pieces env stop slots free inflight issued offset b = (b', r)"
  shows "case r of Inl e \<Rightarrow> sound rx m lsd sids b'
    | Inr (_, free', _, issued', _) \<Rightarrow> between rx m lsd sids b' \<and> set free' \<subseteq> set sids \<and> set issued' \<subseteq> set sids"
  using assms
proof (induction env stop slots free inflight issued offset b arbitrary: b' r rule: issue_pieces.induct)
  case (1 env stop slots free inflight issued offset b)
  note step = issue_pieces.simps [of env stop slots free inflight issued offset b]
  show ?case
  proof (cases "slots = [] \<or> stop \<le> offset \<or> free = []")
    case True
    with 1(2-5) show ?thesis by (auto simp: step between_sound split: if_splits)
  next
    case False
    then have f: "\<not> (slots = [] \<or> stop \<le> offset)" "free \<noteq> []" by auto
    obtain b1 q where i: "issue env (last free) (Read (br_handle b) offset (min (br_chunk b) (stop - offset)) 0) b = (b1, q)"
      by fastforce
    have l: "last free \<in> set sids" and bl: "set (butlast free) \<subseteq> set sids" "set (issued @ [last free]) \<subseteq> set sids"
      using f 1(3,4) by (auto dest: in_set_butlastD)
    show ?thesis
    proof (cases q)
      case (Inl e)
      with triple_Inl [OF issue_between [OF l] 1(2)] i 1(5) f show ?thesis by (auto simp: step Let_def)
    next
      case (Inr u)
      with triple_Inr [OF issue_between [OF l] 1(2)] i have "between rx m lsd sids b1" by blast
      with 1(1) [OF f refl refl refl refl i [symmetric] Inr _ bl] 1(5) f i Inr show ?thesis by (simp add: step Let_def)
    qed
  qed
qed

lemma await_between:
  assumes "between rx m lsd sids b" "await_in_turn sid inflight finished b = (b', r)"
  shows "case r of Inl e \<Rightarrow> sound rx m lsd sids b' | Inr _ \<Rightarrow> between rx m lsd sids b'"
  using assms
proof (induction sid inflight finished b arbitrary: b' r rule: await_in_turn.induct)
  case (1 sid inflight finished b)
  note step = await_in_turn.simps [of sid inflight finished b]
  show ?case
  proof (cases "sid \<in> set finished")
    case True
    with 1(3,4) show ?thesis by (auto simp: step)
  next
    case False
    obtain b1 q where c: "collect inflight b = (b1, q)" by fastforce
    show ?thesis
    proof (cases q)
      case (Inl e)
      with triple_Inl [OF collect_between 1(3)] c 1(4) False show ?thesis by (auto simp: step)
    next
      case (Inr y)
      obtain fl o1 where y: "y = (fl, o1)" by fastforce
      have b1: "between rx m lsd sids b1" using triple_Inr [OF collect_between 1(3)] c Inr by blast
      note IH = 1(1,2) [OF False c [symmetric] Inr y [symmetric]]
      show ?thesis
        by (cases o1; use IH(1) [OF _ b1] IH(2) [OF _ b1] 1(4) False c Inr y in \<open>simp add: step\<close>)
    qed
  qed
qed

lemma stream_loop_between:
  assumes "between rx m lsd sids b" "set free \<subseteq> set sids" "set issued \<subseteq> set sids"
    and "stream_loop env k stop slots free inflight issued finished offset b = (b', r)"
  shows "sound rx m lsd sids b'"
  using assms
proof (induction env k stop slots free inflight issued finished offset b arbitrary: b' r rule: stream_loop.induct)
  case (1 env k stop slots free inflight issued finished offset b)
  note step = stream_loop.simps [of env k stop slots free inflight issued finished offset b]
  obtain b1 q where i: "issue_pieces env stop slots free inflight issued offset b = (b1, q)" by fastforce
  note issued = issue_pieces_between [OF 1(2-4) i]
  show ?case
  proof (cases q)
    case (Inl e)
    with issued 1(5) i show ?thesis by (auto simp: step)
  next
    case (Inr y)
    obtain slots' free' fl issued' offset' where y: "y = (slots', free', fl, issued', offset')" by (metis prod_cases5)
    with issued Inr have b1: "between rx m lsd sids b1" "set free' \<subseteq> set sids" "set issued' \<subseteq> set sids" by auto
    show ?thesis
    proof (cases issued')
      case Nil
      with 1(5) i Inr y b1 show ?thesis by (auto simp: step between_sound)
    next
      case (Cons sid later)
      obtain b2 c where a: "await_in_turn sid fl finished b1 = (b2, c)" by fastforce
      note awaited = await_between [OF b1(1) a]
      show ?thesis
      proof (cases c)
        case (Inl e)
        with awaited a 1(5) i Inr y Cons show ?thesis by (auto simp: step)
      next
        case (Inr z)
        obtain fl' fin entry where z: "z = (fl', fin, entry)" by (metis prod_cases3)
        define b3 where "b3 = (if if_got entry \<noteq> 0 then hand_over entry b2 else b2)"
        have b3: "between rx m lsd sids b3" using awaited Inr by (simp add: b3_def)
        have s: "set (free' @ [sid]) \<subseteq> set sids" "set later \<subseteq> set sids" using b1 Cons by auto
        show ?thesis
        proof (cases "if_got entry \<noteq> 0 \<and> k = 0")
          case True
          have "b' = b3"
            using 1(5) unfolding step using a Inr z i \<open>q = Inr y\<close> y Cons True by (simp add: Let_def b3_def)
          with b3 show ?thesis by (simp add: between_sound)
        next
          case False
          from 1(1) [OF i [symmetric] \<open>q = Inr y\<close> y [symmetric] refl refl refl Cons a [symmetric] Inr z [symmetric] refl
              b3_def refl refl False b3 s]
            1(5) i \<open>q = Inr y\<close> y Cons a Inr z False
          show ?thesis by (simp add: step Let_def b3_def)
        qed
      qed
    qed
  qed
qed

lemma issue_requests_between:
  assumes "between rx m lsd sids b" "set free \<subseteq> set sids" "issue_requests env todo free inflight issued b = (b', r)"
  shows "case r of Inl e \<Rightarrow> sound rx m lsd sids b' | Inr (_, free', _) \<Rightarrow> between rx m lsd sids b' \<and> set free' \<subseteq> set sids"
  using assms
proof (induction env todo free inflight issued b arbitrary: b' r rule: issue_requests.induct)
  case (2 env req bound todo free inflight issued b)
  show ?case
  proof (cases "free = []")
    case True
    with 2 show ?thesis by auto
  next
    case False
    let ?b = "b\<lparr>br_memory := br_memory b @ replicate (nat bound) 0\<rparr>"
    obtain b1 q where i: "issue env (last free) req ?b = (b1, q)" by fastforce
    have l: "last free \<in> set sids" and bl: "set (butlast free) \<subseteq> set sids" and bm: "between rx m lsd sids ?b"
      using False 2(2,3) by (auto dest: in_set_butlastD)
    show ?thesis
    proof (cases q)
      case (Inl e)
      with triple_Inl [OF issue_between [OF l] bm] i 2(4) False show ?thesis by (auto simp: Let_def)
    next
      case (Inr u)
      with triple_Inr [OF issue_between [OF l] bm] i have "between rx m lsd sids b1" by blast
      with 2(1) [OF False refl refl i [symmetric] Inr _ bl] 2(4) False i Inr show ?thesis by (simp add: Let_def)
    qed
  qed
qed auto

lemma gather_loop_between:
  assumes "between rx m lsd sids b" "set free \<subseteq> set sids" "gather_loop env n todo free inflight issued results b = (b', r)"
  shows "sound rx m lsd sids b'"
  using assms
proof (induction env n todo free inflight issued results b arbitrary: b' r rule: gather_loop.induct)
  case (1 env n todo free inflight issued results b)
  note step = gather_loop.simps [of env n todo free inflight issued results b]
  obtain b1 q where i: "issue_requests env todo free inflight issued b = (b1, q)" by fastforce
  note issued = issue_requests_between [OF 1(3,4) i]
  show ?case
  proof (cases q)
    case (Inl e)
    with issued 1(5) i show ?thesis by (auto simp: step)
  next
    case (Inr y)
    obtain todo' free' fl issued' where y: "y = (todo', free', fl, issued')" by (metis prod_cases4)
    with issued Inr have b1: "between rx m lsd sids b1" and f: "set free' \<subseteq> set sids" by auto
    show ?thesis
    proof (cases "fl = []")
      case True
      with 1(5) i Inr y b1 show ?thesis by (simp add: step between_sound)
    next
      case False
      obtain b2 c where c: "collect fl b1 = (b2, c)" by fastforce
      show ?thesis
      proof (cases c)
        case (Inl e)
        with triple_Inl [OF collect_between b1] c 1(5) i Inr y False show ?thesis by (auto simp: step)
      next
        case (Inr z)
        obtain fl' o1 where z: "z = (fl', o1)" by fastforce
        from triple_Inr [OF collect_between b1] c Inr z
        have b2: "between rx m lsd sids b2" "\<And>sid. o1 = Some sid \<Longrightarrow> sid \<in> set sids" by fastforce+
        note IH = 1(1,2) [OF i [symmetric] \<open>q = Inr y\<close> y [symmetric] refl refl False c [symmetric] Inr z [symmetric]]
        show ?thesis
        proof (cases o1)
          case None
          with IH(1) [OF None b2(1) f] 1(5) i \<open>q = Inr y\<close> y False c Inr z show ?thesis by (simp add: step)
        next
          case (Some sid)
          with IH(2) [OF Some refl refl b2(1)] b2(2) f 1(5) i \<open>q = Inr y\<close> y False c Inr z show ?thesis
            by (simp add: step Let_def)
        qed
      qed
    qed
  qed
qed

lemma write_batch_between:
  assumes "between rx m lsd sids b" "set free \<subseteq> set sids" "dict_keys unanswered \<subseteq> set sids"
    and "write_batch env source free unanswered offset b = (b', r)"
  shows "case r of Inl e \<Rightarrow> sound rx m lsd sids b'
    | Inr (_, free', un', _) \<Rightarrow> between rx m lsd sids b' \<and> set free' \<subseteq> set sids \<and> dict_keys un' \<subseteq> set sids"
  using assms
proof (induction env source free unanswered offset b arbitrary: b' r rule: write_batch.induct)
  case (2 env piece source free unanswered offset b)
  show ?case
  proof (cases "free = [] \<or> piece = [] \<or> br_chunk b < int (length piece)")
    case True
    show ?thesis
    proof (cases "free \<noteq> [] \<and> piece = []")
      case t: True
      with 2(1) [OF _ _ 2(3-5)] 2(6) show ?thesis by simp
    next
      case False
      with True 2(3-6) show ?thesis by (auto simp: between_sound split: if_splits)
    qed
  next
    case False
    obtain b1 q where i: "issue env (last free) (Write (br_handle b) offset piece 0) b = (b1, q)" by fastforce
    have l: "last free \<in> set sids"
      and bl: "set (butlast free) \<subseteq> set sids" "dict_keys (dict_set (last free) (offset, int (length piece)) unanswered) \<subseteq> set sids"
      using False 2(4,5) by (auto dest: in_set_butlastD)
    show ?thesis
    proof (cases q)
      case (Inl e)
      with triple_Inl [OF issue_between [OF l] 2(3)] i 2(6) False show ?thesis by (auto simp: Let_def)
    next
      case (Inr u)
      with triple_Inr [OF issue_between [OF l] 2(3)] i have "between rx m lsd sids b1" by blast
      with 2(2) [OF _ _ _ refl i [symmetric] Inr _ bl] 2(6) False i Inr show ?thesis by (simp add: Let_def)
    qed
  qed
qed auto

lemma write_answer_sound:
  assumes "between rx m lsd sids b" "write_answer replies reply body extent b = (b', r)"
  shows "case r of Inl e \<Rightarrow> sound rx m lsd sids b' | Inr _ \<Rightarrow> between rx m lsd sids b'"
  using assms by (auto simp: write_answer_def between_def sound_def calm_def split: if_splits)

lemma chunks_loop_between:
  assumes "between rx m lsd sids b" "set free \<subseteq> set sids" "dict_keys unanswered \<subseteq> set sids"
    and "chunks_loop env replies source free unanswered offset exhausted failure acked b = (b', r)"
  shows "sound rx m lsd sids b'"
  using assms
proof (induction env replies source free unanswered offset exhausted failure acked b arbitrary: b' r rule: chunks_loop.induct)
  case (1 env replies source free unanswered offset exhausted failure acked b)
  note step = chunks_loop.simps [of env replies source free unanswered offset exhausted failure acked b]
  obtain b1 q where i: "(if \<not> exhausted \<and> failure = None then write_batch env source free unanswered offset b
            else (b, Inr (source, free, unanswered, offset, exhausted))) = (b1, q)" by fastforce
  have issued: "case q of Inl e \<Rightarrow> sound rx m lsd sids b1
      | Inr (_, free', un', _) \<Rightarrow> between rx m lsd sids b1 \<and> set free' \<subseteq> set sids \<and> dict_keys un' \<subseteq> set sids"
    using write_batch_between [OF 1(3-5)] i 1(3-5) by (auto split: if_splits)
  show ?case
  proof (cases q)
    case (Inl e)
    with issued 1(6) i show ?thesis unfolding step by auto
  next
    case (Inr y)
    obtain source' free' un' offset' ex where y: "y = (source', free', un', offset', ex)" by (metis prod_cases5)
    with issued Inr have b1: "between rx m lsd sids b1" "set free' \<subseteq> set sids" "dict_keys un' \<subseteq> set sids" by auto
    show ?thesis
    proof (cases "un' = []")
      case True
      have "b' = b1" using 1(6) i True unfolding step Inr y by simp
      with b1 show ?thesis by (simp add: between_sound)
    next
      case False
      obtain b2 c where c: "next_answer b1 = (b2, c)" by fastforce
      show ?thesis
      proof (cases c)
        case (Inl e)
        have "b' = b2" using 1(6) i c Inl False unfolding step \<open>q = Inr y\<close> y by simp
        with triple_Inl [OF next_answer_between b1(1)] c Inl show ?thesis by blast
      next
        case (Inr z)
        obtain reply body where z: "z = (reply, body)" by fastforce
        from triple_Inr [OF next_answer_between b1(1)] c Inr have b2: "between rx m lsd sids b2" by blast
        note pre = i [symmetric] \<open>q = Inr y\<close> y [symmetric] refl refl refl False c [symmetric] Inr z [symmetric]
        show ?thesis
        proof (cases "rh_status reply = kXR_oksofar")
          case True
          from 1(1) [OF pre True b2 b1(2,3)] show ?thesis
            using 1(6) i c False True unfolding step \<open>q = Inr y\<close> y Inr z by simp
        next
          case final: False
          show ?thesis
          proof (cases "map_of un' (rh_streamid reply)")
            case None
            have "b' = b2" using 1(6) i c False final None unfolding step \<open>q = Inr y\<close> y Inr z by simp
            with b2 show ?thesis by (simp add: between_sound)
          next
            case (Some extent)
            obtain b3 w where w: "write_answer replies reply body extent b2 = (b3, w)" by fastforce
            note answered = write_answer_sound [OF b2 w]
            show ?thesis
            proof (cases w)
              case (Inl e)
              have "b' = b3" using 1(6) i c False final Some w Inl unfolding step \<open>q = Inr y\<close> y Inr z by simp
              with answered Inl show ?thesis by simp
            next
              case (Inr v)
              obtain n err where v: "v = (n, err)" by fastforce
              have s: "set (free' @ [rh_streamid reply]) \<subseteq> set sids" "dict_keys (dict_pop (rh_streamid reply) un') \<subseteq> set sids"
                using b1 map_of_Some_keys [OF Some] by auto
              from 1(2) [OF pre final Some w [symmetric] Inr v [symmetric] _ s] answered Inr show ?thesis
                using 1(6) i c False final Some w Inr v unfolding step \<open>q = Inr y\<close> y \<open>c = Inr z\<close> z by simp
            qed
          qed
        qed
      qed
    qed
  qed
qed

subsection \<open>The stream ids of a call\<close>

lemma lease_loop_leases:
  assumes "sid_inv m" "lease_loop n m = (m', Inr sids)"
  shows "sid_inv m' \<and> length sids = n \<and> distinct sids \<and> set sids \<inter> m_leased m = {} \<and>
     m_leased m' = m_leased m \<union> set sids \<and> m_retired m' = m_retired m"
  using assms
proof (induction n arbitrary: m sids)
  case (Suc n)
  obtain sid m1 where a: "acquire_sid m = (m1, Inr sid)"
    using Suc.prems(2) by (auto simp: mbind_def mupd_def mret_def split: prod.splits sum.splits)
  define m2 where "m2 = m1\<lparr>m_leased := insert sid (m_leased m1)\<rparr>"
  obtain rest where r: "lease_loop n m2 = (m', Inr rest)" "sids = sid # rest"
    using Suc.prems(2) a by (auto simp: mbind_def mupd_def mret_def m2_def split: prod.splits sum.splits)
  have l: "m_leased m1 = m_leased m" "m_retired m1 = m_retired m"
    using a by (auto simp: acquire_sid_def Let_def split: list.splits if_splits)
  from sid_acquire [OF Suc.prems(1) a] have "sid_inv m1" "sid_limbo sid m1" by auto
  then have "sid_inv m2" "sid \<notin> m_leased m"
    using l by (auto simp: m2_def sid_inv_def sid_limbo_def sids_in_use_def)
  with Suc.IH [OF _ r(1)] r l show ?case by (auto simp: m2_def)
qed (auto simp: mret_def)

lemma retire_nothing: "retire_sid {} = release_sid"
  by (simp add: fun_eq_iff retire_sid_def release_sid_def Let_def)

lemma retire_keeps:
  assumes "sid_inv m" "distinct sids" "set sids \<subseteq> m_leased m"
  shows "sid_inv (retire_sids sids due m) \<and> m_leased (retire_sids sids due m) = m_leased m - set sids \<and>
     m_retired (retire_sids sids due m) = m_retired m \<union> (due \<inter> set sids)"
  using assms
proof (induction sids arbitrary: m)
  case (Cons sid sids)
  let ?m = "retire_sid due sid m"
  have "sid_inv ?m" and l: "m_leased ?m = m_leased m - {sid}" "m_retired ?m = m_retired m \<union> (due \<inter> {sid})"
    using Cons.prems by (auto simp: retire_sid_def Let_def sid_inv_def sids_in_use_def)
  moreover have "set sids \<subseteq> m_leased ?m" using l Cons.prems by auto
  ultimately have "sid_inv (retire_sids sids due ?m) \<and> m_leased (retire_sids sids due ?m) = m_leased ?m - set sids \<and>
      m_retired (retire_sids sids due ?m) = m_retired ?m \<union> (due \<inter> set sids)"
    using Cons.IH Cons.prems(2) by simp
  with l show ?case by (auto simp: retire_sids_def)
qed (simp add: retire_sids_def)

text \<open>A reader no call has used yet.\<close>

definition fresh :: "bulk_reader \<Rightarrow> bool" where
  "fresh b \<longleftrightarrow> br_leased b = [] \<and> br_owed b = {} \<and> br_log b = []"

lemma begin_between:
  assumes "fresh b" "begin_call b = (b1, Inr sids)"
  shows "between (br_rx b) (br_machine b1) sids sids b1"
  using assms by (auto simp: fresh_def begin_call_def bbind_eq_Inr between_def calm_def machine_op_def no_frame split: prod.splits if_splits)

lemma begin_leases:
  assumes "fresh b" "begin_call b = (b1, Inr sids)"
  obtains n where "lease_loop (Suc n) (br_machine b) = (br_machine b1, Inr sids)"
proof -
  have "0 < nat (br_depth b)" "lease_loop (nat (br_depth b)) (br_machine b) = (br_machine b1, Inr sids)"
    using assms by (auto simp: fresh_def begin_call_def bbind_eq_Inr machine_op_def lease_sids_def mraise_def split: prod.splits if_splits)
  then show thesis using that gr0_implies_Suc by metis
qed

text \<open>What holds of the reader after any call.\<close>

definition in_order :: "bulk_reader \<Rightarrow> bulk_reader \<Rightarrow> bool" where
  "in_order b b' \<longleftrightarrow> sid_inv (br_machine b') \<and> br_leased b' = [] \<and> br_owed b' = {} \<and>
     (br_broken b' \<or> whole_frames (br_rx b) (br_rx b') \<and> m_leased (br_machine b') = m_leased (br_machine b) \<and>
        m_retired (br_machine b') = m_retired (br_machine b) \<union> owing (br_log b') \<and> (owing (br_log b') \<noteq> {} \<longrightarrow> br_stopped b'))"

lemma handed_back_in_order:
  assumes "sid_inv (br_machine b)" "fresh b" "begin_call b = (b1, Inr sids)" "handed_back (br_rx b) (br_machine b1) sids b'"
  shows "in_order b b'"
proof -
  obtain n where "lease_loop (Suc n) (br_machine b) = (br_machine b1, Inr sids)" using begin_leases [OF assms(2,3)] .
  from lease_loop_leases [OF assms(1) this]
  have m1: "sid_inv (br_machine b1)" "distinct sids" "set sids \<inter> m_leased (br_machine b) = {}"
    "m_leased (br_machine b1) = m_leased (br_machine b) \<union> set sids" "m_retired (br_machine b1) = m_retired (br_machine b)" by auto
  show ?thesis
  proof (cases "br_broken b' \<and> core (br_machine b') = core (br_machine b1)")
    case True
    with assms(4) m1(1) sid_inv_core [of "br_machine b'" "br_machine b1"] show ?thesis
      by (simp add: in_order_def handed_back_def)
  next
    case False
    have "br_leased b' = [] \<and> br_owed b' = {} \<and> whole_frames (br_rx b) (br_rx b') \<and>
        (owing (br_log b') \<noteq> {} \<longrightarrow> br_stopped b') \<and> owing (br_log b') \<subseteq> set sids \<and>
        (\<exists>m2. core m2 = core (br_machine b1) \<and> br_machine b' =
          (if owing (br_log b') = {} then release_sids sids m2 else retire_sids sids (owing (br_log b')) m2))"
      using False assms(4) unfolding handed_back_def by blast
    then obtain m2 where h: "br_leased b' = []" "br_owed b' = {}" "whole_frames (br_rx b) (br_rx b')"
        "owing (br_log b') \<noteq> {} \<longrightarrow> br_stopped b'" "owing (br_log b') \<subseteq> set sids" "core m2 = core (br_machine b1)"
        "br_machine b' = (if owing (br_log b') = {} then release_sids sids m2 else retire_sids sids (owing (br_log b')) m2)"
      by blast
    have m': "br_machine b' = retire_sids sids (owing (br_log b')) m2"
      using h(7) by (simp add: release_sids_def retire_sids_def retire_nothing split: if_splits)
    have m2: "sid_inv m2" "m_leased m2 = m_leased (br_machine b) \<union> set sids" "m_retired m2 = m_retired (br_machine b)"
      using h(6) m1 sid_inv_core [of m2 "br_machine b1"] by (simp_all add: core_def)
    from retire_keeps [OF m2(1) m1(2), of "owing (br_log b')"] m2(2,3)
    have "sid_inv (br_machine b')" "m_leased (br_machine b') = m_leased (br_machine b) \<union> set sids - set sids"
      "m_retired (br_machine b') = m_retired (br_machine b) \<union> (owing (br_log b') \<inter> set sids)"
      unfolding m' by auto
    moreover have "m_leased (br_machine b) \<union> set sids - set sids = m_leased (br_machine b)" using m1(3) by blast
    moreover have "owing (br_log b') \<inter> set sids = owing (br_log b')" using h(5) by blast
    ultimately show ?thesis using h(1-4) unfolding in_order_def by metis
  qed
qed

lemma call_in_order:
  assumes "sid_inv (br_machine b)" "fresh b" "begin_call b = (b1, Inr sids)"
    and "\<And>b2 b3 r. between (br_rx b) (br_machine b1) sids sids b2 \<Longrightarrow> p b2 = (b3, r) \<Longrightarrow> sound (br_rx b) (br_machine b1) sids sids b3"
  shows "in_order b (fst (finally_settle p (b1\<lparr>br_memory := mem\<rparr>)))"
proof (rule handed_back_in_order [OF assms(1-3)])
  have "sids \<noteq> []"
    using begin_leases [OF assms(2,3)] lease_loop_leases [OF assms(1)] by (metis length_0_conv nat.distinct(1))
  moreover have "triple (between (br_rx b) (br_machine b1) sids sids) p (\<lambda>_. sound (br_rx b) (br_machine b1) sids sids)
      (sound (br_rx b) (br_machine b1) sids sids)"
    by (rule tripleI) (use assms(4) in blast)+
  ultimately show "handed_back (br_rx b) (br_machine b1) sids (fst (finally_settle p (b1\<lparr>br_memory := mem\<rparr>)))"
    using begin_between [OF assms(2,3)] by (intro finally_sound [OF _ _ _ _ prod.collapse [symmetric]]) auto
qed


text \<open>A reader on a session just brought up, and a caller that stops after the first of two replies.\<close>

definition sample_reader :: "bytes \<Rightarrow> exn \<Rightarrow> int \<Rightarrow> int \<Rightarrow> bulk_reader" where
  "sample_reader rx over chunk depth =
     \<lparr>br_machine = sample_session, br_handle = [0, 0, 0, 1], br_chunk = chunk, br_depth = depth, br_leased = [], br_owed = {},
      br_torn = False, br_delivered = 0, br_broken = False, br_notices = [], br_memory = [], br_yielded = [],
      br_acked = [], br_waited = [], br_rx = rx, br_over = over, br_fates = [], br_stopped = False, br_log = []\<rparr>"

lemma sample_reader_fresh:
  "reachable sample_e (br_machine (sample_reader rx over chunk depth))" "fresh (sample_reader rx over chunk depth)"
  by (simp_all add: sample_reader_def fresh_def sample_reachable(1))

definition sample_stopped :: bulk_reader where
  "sample_stopped = sample_reader (server_frame 4 0 [7, 8]) Cancelled 4 2"

lemma sample_stopped_leases: "begin_call sample_stopped = (fst (begin_call sample_stopped), Inr [4, 5])"
proof -
  have "snd (begin_call sample_stopped) = Inr [4, 5]" by code_simp
  then show ?thesis by (metis prod.collapse)
qed


end
