(* ===== verification/Bulk_Reads.thy ===== *)
theory Bulk_Reads
  imports Bulk_Safety "HOL-Library.Sublist"
begin

text \<open>
  What a bulk read returns. The server is any that answers each read with the bytes of the file,
  in as many instalments and in whatever order it likes; the log of the wire says what it was
  sent and what it answered.
\<close>

subsection \<open>Truthful servers\<close>

text \<open>The reads a server has still to answer: offset, length and how much it has sent.\<close>

type_synonym ledger = "(int \<times> int \<times> int \<times> int) list"

definition rest_of :: "bytes \<Rightarrow> int \<Rightarrow> int \<Rightarrow> int \<Rightarrow> bytes" where
  "rest_of file off len got = take (nat (len - got)) (drop (nat (off + got)) file)"

fun truthful_step :: "bytes \<Rightarrow> wire \<Rightarrow> ledger \<Rightarrow> ledger option" where
  "truthful_step file (Sent sid req) due =
     (case req of Read h off len pid \<Rightarrow> Some (dict_set sid (off, len, 0) due) | _ \<Rightarrow> None)"
| "truthful_step file (Got sid status data) due =
     (case map_of due sid of
        None \<Rightarrow> None
      | Some (off, len, got) \<Rightarrow>
          if status = kXR_waitresp then Some due
          else if status = kXR_oksofar \<and> data = take (length data) (rest_of file off len got)
          then Some (dict_set sid (off, len, got + int (length data)) due)
          else if status = kXR_ok \<and> data = rest_of file off len got then Some (dict_pop sid due)
          else None)"

definition truthful_run :: "bytes \<Rightarrow> wire list \<Rightarrow> ledger option" where
  "truthful_run file evs = fold (\<lambda>e due. case due of None \<Rightarrow> None | Some d \<Rightarrow> truthful_step file e d) evs (Some [])"

definition truthful :: "bytes \<Rightarrow> wire list \<Rightarrow> bool" where
  "truthful file evs \<longleftrightarrow> truthful_run file evs \<noteq> None"

lemma truthful_run_snoc:
  "truthful_run file (evs @ [e]) = Some due' \<longleftrightarrow> (\<exists>due. truthful_run file evs = Some due \<and> truthful_step file e due = Some due')"
  by (auto simp: truthful_run_def split: option.splits)

lemma truthful_owing: "truthful_run file evs = Some due \<Longrightarrow> dict_keys due = owing evs"
proof (induction evs arbitrary: due rule: rev_induct)
  case (snoc e evs)
  then obtain d where d: "truthful_run file evs = Some d" "truthful_step file e d = Some due" by (auto simp: truthful_run_snoc)
  have "dict_keys due = owing_step e (dict_keys d)"
  proof (cases e)
    case (Sent sid req)
    with d(2) show ?thesis by (cases req) auto
  next
    case (Got sid status data)
    with d(2) obtain off len got where m: "map_of d sid = Some (off, len, got)" by (auto split: option.splits)
    with map_of_Some_keys [OF m] d(2) Got show ?thesis by (auto split: if_splits)
  qed
  with snoc.IH [OF d(1)] show ?case by simp
qed (simp add: truthful_run_def)

subsection \<open>What the reader keeps while it waits\<close>

text \<open>Everything but the wire, the notices and the ghost of the caller.\<close>

definition buffers :: "bulk_reader \<Rightarrow> bytes \<times> int \<times> bytes \<times> (int \<times> int) list \<times> (int \<times> int) list" where
  "buffers b = (br_handle b, br_chunk b, br_memory b, br_acked b, br_waited b)"

lemma exact_buffers: "exact n fr b = (b', r) \<Longrightarrow> buffers b' = buffers b \<and> br_log b' = br_log b"
  by (auto simp: exact_def buffers_def split: if_splits)

lemma frame_body_buffers: "frame_body n b = (b', r) \<Longrightarrow> buffers b' = buffers b \<and> br_log b' = br_log b"
  by (auto simp: frame_body_def bbind_def buffers_def dest!: exact_buffers split: prod.splits sum.splits)

definition quiet_op :: "'a bop \<Rightarrow> bool" where
  "quiet_op p \<longleftrightarrow> (\<forall>b. buffers (fst (p b)) = buffers b \<and> br_log (fst (p b)) = br_log b)"

named_theorems quiet

lemma quiet_rules [quiet]:
  "quiet_op (bret x)" "quiet_op (bfail e)" "quiet_op (lift_res r)" "quiet_op (exact n fr)"
  "(\<And>b. buffers (f b) = buffers b \<and> br_log (f b) = br_log b) \<Longrightarrow> quiet_op (bupd f)"
  using exact_buffers by (auto simp: quiet_op_def) (metis prod.collapse)+

lemma quiet_bind [quiet]:
  assumes "quiet_op p" "\<And>x. quiet_op (k x)"
  shows "quiet_op (bbind p k)"
  unfolding quiet_op_def
proof
  fix b
  obtain b1 r where p: "p b = (b1, r)" by fastforce
  then have b1: "buffers b1 = buffers b" "br_log b1 = br_log b" using assms(1) unfolding quiet_op_def by (metis fst_conv)+
  show "buffers (fst (bbind p k b)) = buffers b \<and> br_log (fst (bbind p k b)) = br_log b"
  proof (cases r)
    case (Inr x)
    with assms(2) [of x] have "buffers (fst (k x b1)) = buffers b1 \<and> br_log (fst (k x b1)) = br_log b1"
      unfolding quiet_op_def by blast
    with Inr p b1 show ?thesis by simp
  qed (use p b1 in simp)
qed

lemma quiet_if [quiet]: "quiet_op p \<Longrightarrow> quiet_op q \<Longrightarrow> quiet_op (if c then p else q)"
  by simp

lemma quiet_frame_body [quiet]: "quiet_op (frame_body n)"
  unfolding frame_body_def by (intro quiet) (simp add: buffers_def)

lemma quiet_notice [quiet]: "quiet_op (take_notice body)"
  unfolding take_notice_def by (intro quiet) (simp add: buffers_def)

lemma quiet_deferred [quiet]: "quiet_op (deferred body)"
  unfolding deferred_def by (intro quiet)

lemma quiet_frame_header: "quiet_op frame_header"
  unfolding frame_header_def by (intro quiet)

lemma quietD: "quiet_op p \<Longrightarrow> p b = (b', r) \<Longrightarrow> buffers b' = buffers b \<and> br_log b' = br_log b"
  unfolding quiet_op_def by (metis fst_conv)

lemma buffers_log_reply [simp]: "buffers (log_reply reply b) = buffers b"
  by (simp add: buffers_def log_reply_def)

text \<open>Of the replies \<open>next_reply\<close> takes off the wire, only the one it returns changes what a
  truthful server has still to send.\<close>

lemma next_reply_truthful:
  assumes "next_reply b = (b', Inr reply)"
  shows "buffers b' = buffers b \<and>
    (\<forall>due'. truthful_run file (br_log b') = Some due' \<longrightarrow>
      (\<exists>due. truthful_run file (br_log b) = Some due \<and>
         truthful_step file (Got (rh_streamid reply) (rh_status reply) (take (nat (rh_dlen reply)) (br_rx b'))) due = Some due'))"
  using assms
proof (induction b arbitrary: b' rule: next_reply.induct)
  case (1 b)
  note step = next_reply.simps [of b]
  obtain b1 r where h: "frame_header b = (b1, r)" by fastforce
  note q = quietD [OF quiet_frame_header h]
  from h 1(3) obtain o1 where r: "r = Inr o1" by (cases r) (auto simp: step)
  show ?case
  proof (cases o1)
    case None
    with 1(1) [OF h [symmetric] r None] 1(3) h r q show ?thesis by (simp add: step)
  next
    case (Some rep)
    have owed: "rh_streamid rep \<in> br_owed b1" using 1(3) h r Some by (auto simp: step split: if_splits)
    show ?thesis
    proof (cases "rh_status rep \<noteq> kXR_waitresp")
      case True
      with 1(3) h r Some owed have "b' = log_reply rep b1" "reply = rep" by (auto simp: step)
      with q show ?thesis by (auto simp: log_reply_def truthful_run_snoc buffers_def)
    next
      case False
      obtain b2 d where d: "bbind (frame_body (rh_dlen rep)) deferred (log_reply rep b1) = (b2, d)" by fastforce
      with 1(3) h r Some owed False obtain u where u: "d = Inr u" by (cases d) (auto simp: step)
      have nr: "next_reply b2 = (b', Inr reply)" using 1(3) h r Some owed False d u by (simp add: step)
      have q2: "buffers b2 = buffers b" "br_log b2 = br_log b @ [Got (rh_streamid rep) (rh_status rep) (take (nat (rh_dlen rep)) (br_rx b1))]"
        using quietD [OF quiet_bind [OF quiet_frame_body quiet_deferred] d] q by (simp_all add: log_reply_def buffers_def)
      have "truthful_run file (br_log b) = Some due" if "truthful_run file (br_log b2) = Some due" for due
        using that False unfolding q2 truthful_run_snoc by (auto split: option.splits if_splits)
      with 1(2) [OF h [symmetric] r Some _ _ d [symmetric] u nr] owed False q2 show ?thesis by metis
    qed
  qed
qed

subsection \<open>Bookkeeping of a fill\<close>

text \<open>\<open>avail\<close> is how much of the file lies past the start of the read, \<open>want\<close> how much was asked.\<close>

definition clip :: "int \<Rightarrow> in_flight_read \<Rightarrow> int" where
  "clip avail e = max 0 (min (if_length e) (avail - if_offset e))"

definition entry_ok :: "int \<Rightarrow> int \<Rightarrow> int \<Rightarrow> int \<Rightarrow> in_flight_read \<Rightarrow> bool" where
  "entry_ok avail want stop cursor e \<longleftrightarrow>
     0 \<le> if_offset e \<and> 0 \<le> if_got e \<and> if_got e \<le> clip avail e \<and> 0 < if_length e \<and> if_offset e + if_length e \<le> want \<and>
     if_at e = nat (if_offset e) \<and> min (if_offset e + if_length e) avail \<le> cursor \<and>
     (cursor < stop \<longrightarrow> if_offset e + if_length e \<le> cursor)"

definition apart :: "in_flight_read \<Rightarrow> in_flight_read \<Rightarrow> bool" where
  "apart e f \<longleftrightarrow> if_offset e + if_length e \<le> if_offset f \<or> if_offset f + if_length f \<le> if_offset e"

definition ledger_ok ::
  "int \<Rightarrow> int \<Rightarrow> int \<Rightarrow> int list \<Rightarrow> (int \<times> in_flight_read) list \<Rightarrow> int \<Rightarrow> int \<Rightarrow> bool" where
  "ledger_ok avail want stop free inflight cursor landed \<longleftrightarrow>
     0 \<le> avail \<and> 0 \<le> cursor \<and> cursor \<le> want \<and> stop \<le> want \<and> min want avail \<le> stop \<and>
     distinct (map fst inflight) \<and> distinct free \<and> set free \<inter> dict_keys inflight = {} \<and> (free \<noteq> [] \<or> inflight \<noteq> []) \<and>
     (\<forall>sid e. map_of inflight sid = Some e \<longrightarrow> entry_ok avail want stop cursor e) \<and>
     (\<forall>s t e f. map_of inflight s = Some e \<longrightarrow> map_of inflight t = Some f \<longrightarrow> s \<noteq> t \<longrightarrow> apart e f) \<and>
     landed + sum_list (map (clip avail \<circ> snd) inflight) = min cursor avail"

lemma apart_got [simp]: "apart (e\<lparr>if_got := n\<rparr>) f = apart e f" "apart f (e\<lparr>if_got := n\<rparr>) = apart f e"
  by (simp_all add: apart_def)

lemma dict_set_not_Nil [simp]: "dict_set k v d \<noteq> []"
  by (induction k v d rule: dict_set.induct) auto

lemma sum_dict_set_new: "k \<notin> dict_keys d \<Longrightarrow> sum_list (map (f \<circ> snd) (dict_set k v d)) = sum_list (map (f \<circ> snd) d) + (f v :: int)"
  by (induction k v d rule: dict_set.induct) (auto simp: dict_keys_def)

lemma sum_dict_set_same:
  "map_of d k = Some w \<Longrightarrow> f v = (f w :: int) \<Longrightarrow> sum_list (map (f \<circ> snd) (dict_set k v d)) = sum_list (map (f \<circ> snd) d)"
  by (induction k v d rule: dict_set.induct) (auto split: if_splits)

lemma sum_dict_pop:
  "map_of d k = Some w \<Longrightarrow> distinct (map fst d) \<Longrightarrow> sum_list (map (f \<circ> snd) (dict_pop k d)) = sum_list (map (f \<circ> snd) d) - (f w :: int)"
proof (induction d)
  case (Cons x d)
  show ?case
  proof (cases "fst x = k")
    case True
    have "\<forall>e \<in> set d. fst e \<noteq> k" using Cons.prems(2) True by (auto simp: image_iff)
    then have "dict_pop k d = d" by (simp add: dict_pop_def)
    with True Cons.prems show ?thesis by (auto simp: dict_pop_def)
  next
    case False
    with Cons show ?thesis by (auto simp: dict_pop_def)
  qed
qed simp

lemma ledger_issue:
  assumes "ledger_ok avail want stop free inflight cursor landed" "free \<noteq> []" "cursor < stop" "1 \<le> chunk"
    and "n = min chunk (stop - cursor)"
    and "e = \<lparr>if_offset = cursor, if_length = n, if_at = nat cursor, if_slot = 0, if_got = 0\<rparr>"
  shows "ledger_ok avail want stop (butlast free) (dict_set (last free) e inflight) (cursor + n) landed"
proof -
  note l = assms(1) [unfolded ledger_ok_def]
  have n: "0 < n" "n \<le> stop - cursor" using assms(3-5) by auto
  have sid: "last free \<notin> dict_keys inflight" using l assms(2) last_in_set by blast
  have new: "entry_ok avail want stop (cursor + n) e"
    using l n assms(6) by (auto simp: entry_ok_def clip_def)
  have old: "entry_ok avail want stop (cursor + n) f \<and> if_offset f + if_length f \<le> cursor" if "map_of inflight s = Some f" for s f
  proof -
    have "entry_ok avail want stop cursor f" using l that by blast
    then show ?thesis using n assms(3) by (auto simp: entry_ok_def)
  qed
  have "distinct (butlast free)" "set (butlast free) \<inter> dict_keys (dict_set (last free) e inflight) = {}"
    using l assms(2) by (auto simp: distinct_butlast dest: in_set_butlastD, metis append_butlast_last_id distinct_append not_distinct_conv_prefix)
  moreover have "landed + sum_list (map (clip avail \<circ> snd) (dict_set (last free) e inflight)) = min (cursor + n) avail"
  proof -
    have "landed + sum_list (map (clip avail \<circ> snd) inflight) = min cursor avail" using l by blast
    moreover have "min cursor avail + clip avail e = min (cursor + n) avail"
      using l n assms(6) by (auto simp: clip_def min_def max_def)
    ultimately show ?thesis by (simp add: sum_dict_set_new [OF sid])
  qed
  ultimately show ?thesis
    using l n old new assms(6) unfolding ledger_ok_def
    by (auto simp: distinct_dict_set map_of_dict_set apart_def split: if_splits)
qed

text \<open>An instalment moves \<open>if_got\<close> of one entry.\<close>

lemma ledger_land:
  assumes "ledger_ok avail want stop free inflight cursor landed" "map_of inflight sid = Some e"
    and "0 \<le> n" "if_got e + n \<le> clip avail e"
  shows "ledger_ok avail want stop free (dict_set sid (e\<lparr>if_got := if_got e + n\<rparr>) inflight) cursor landed"
proof -
  note l = assms(1) [unfolded ledger_ok_def]
  let ?e = "e\<lparr>if_got := if_got e + n\<rparr>"
  have "entry_ok avail want stop cursor e" using l assms(2) by blast
  then have "entry_ok avail want stop cursor ?e" using assms(3,4) by (simp add: entry_ok_def clip_def)
  moreover have "sum_list (map (clip avail \<circ> snd) (dict_set sid ?e inflight)) = sum_list (map (clip avail \<circ> snd) inflight)"
    by (rule sum_dict_set_same [OF assms(2)]) (simp add: clip_def)
  moreover have "sid \<in> dict_keys inflight" using assms(2) by (rule map_of_Some_keys)
  moreover have "apart e f \<and> apart f e" if "map_of inflight t = Some f" "t \<noteq> sid" for t f
    using l assms(2) that by blast
  ultimately show ?thesis
    using l unfolding ledger_ok_def
    by (auto simp: distinct_dict_set map_of_dict_set insert_absorb split: if_splits)
qed

text \<open>A complete answer takes its entry off the ledger; a short one moves the end of the fill.\<close>

lemma ledger_finish:
  assumes "ledger_ok avail want stop free inflight cursor landed" "map_of inflight sid = Some e" "if_got e = clip avail e"
    and "stop' = (if if_got e < if_length e then min stop (if_offset e + if_got e) else stop)"
    and "cursor' = (if if_got e < if_length e then min cursor stop' else cursor)"
  shows "ledger_ok avail want stop' (free @ [sid]) (dict_pop sid inflight) cursor' (landed + if_got e) \<and>
    min cursor' avail = min cursor avail"
proof -
  note l = assms(1) [unfolded ledger_ok_def]
  have e: "entry_ok avail want stop cursor e" using l assms(2) by blast
  have short: "avail \<le> if_offset e + if_got e" "avail \<le> want" if "if_got e < if_length e"
    using e that assms(3) by (auto simp: entry_ok_def clip_def min_def max_def split: if_splits)
  have l': "0 \<le> avail" "0 \<le> cursor" "cursor \<le> want" "stop \<le> want" "min want avail \<le> stop" using l by blast+
  have e': "0 \<le> if_offset e" "0 \<le> if_got e" "cursor < stop \<Longrightarrow> if_offset e + if_got e \<le> cursor"
    using e by (auto simp: entry_ok_def clip_def)
  have sc: "stop' \<le> stop \<and> min want avail \<le> stop' \<and> min cursor' avail = min cursor avail \<and> cursor' \<le> cursor \<and> 0 \<le> cursor' \<and>
      (stop' = stop \<and> cursor' = cursor \<or> stop' \<le> cursor')"
  proof (cases "if_got e < if_length e")
    case True
    then have "stop' = min stop (if_offset e + if_got e)" "cursor' = min cursor stop'" using assms(4,5) by auto
    with l' e' short [OF True] show ?thesis by linarith
  qed (use l' assms(4,5) in auto)
  have "entry_ok avail want stop' cursor' f" if "map_of inflight s = Some f" for s f
  proof -
    have "entry_ok avail want stop cursor f" using l that by blast
    then show ?thesis using sc unfolding entry_ok_def by linarith
  qed
  moreover have "sum_list (map (clip avail \<circ> snd) (dict_pop sid inflight)) = sum_list (map (clip avail \<circ> snd) inflight) - clip avail e"
    using sum_dict_pop [OF assms(2), of "clip avail"] l by blast
  moreover have "sid \<in> dict_keys inflight" using assms(2) by (rule map_of_Some_keys)
  ultimately show ?thesis
    using l sc assms(3) unfolding ledger_ok_def
    by (auto simp: distinct_dict_pop map_of_dict_pop)
qed

text \<open>When nothing is in flight and nothing more is asked for, the fill is as long as the file allows.\<close>

lemma ledger_done:
  assumes "ledger_ok avail want stop free [] cursor landed" "stop \<le> cursor"
  shows "landed = min want avail" "min cursor avail = min want avail"
  using assms by (auto simp: ledger_ok_def)

subsection \<open>The memory of a fill\<close>

definition painted_at :: "int \<Rightarrow> int \<Rightarrow> (int \<times> in_flight_read) list \<Rightarrow> nat \<Rightarrow> bool" where
  "painted_at avail cursor inflight p \<longleftrightarrow> int p < avail \<and> int p < cursor \<and>
     (\<forall>sid e. map_of inflight sid = Some e \<longrightarrow> \<not> (if_offset e + if_got e \<le> int p \<and> int p < if_offset e + if_length e))"

definition painted :: "bytes \<Rightarrow> int \<Rightarrow> bytes \<Rightarrow> int \<Rightarrow> int \<Rightarrow> (int \<times> in_flight_read) list \<Rightarrow> bytes \<Rightarrow> bool" where
  "painted file base view avail cursor inflight mem \<longleftrightarrow> length mem = length view \<and>
     (\<forall>p < length view. mem ! p = (if painted_at avail cursor inflight p then file ! (nat base + p) else view ! p))"

lemma nth_store:
  "pos + length data \<le> length mem \<Longrightarrow> p < length mem \<Longrightarrow>
   store pos data mem ! p = (if pos \<le> p \<and> p < pos + length data then data ! (p - pos) else mem ! p)"
  by (auto simp: store_def nth_append min_def)

lemma length_store [simp]: "pos + length data \<le> length mem \<Longrightarrow> length (store pos data mem) = length mem"
  by (simp add: store_def)

lemma all_dict_set:
  "map_of d k = None \<Longrightarrow> (\<forall>s x. map_of (dict_set k v d) s = Some x \<longrightarrow> P x) \<longleftrightarrow> P v \<and> (\<forall>s x. map_of d s = Some x \<longrightarrow> P x)"
  by (auto simp: map_of_dict_set)

lemma painted_issue:
  assumes "painted file base view avail cursor inflight mem" "ledger_ok avail want stop free inflight cursor landed"
    and "cursor < stop" "0 < n" "sid \<notin> dict_keys inflight"
    and "if_offset e = cursor" "if_length e = n" "if_got e = 0"
  shows "painted file base view avail (cursor + n) (dict_set sid e inflight) mem"
proof -
  have below: "if_offset f + if_length f \<le> cursor" if "map_of inflight s = Some f" for s f
    using assms(2,3) that by (auto simp: ledger_ok_def entry_ok_def)
  have fresh_sid: "map_of inflight sid = None" using assms(5) by (simp add: map_of_eq_None_keys)
  have "painted_at avail (cursor + n) (dict_set sid e inflight) p = painted_at avail cursor inflight p" for p
  proof (cases "int p < cursor")
    case True
    then show ?thesis using assms(4,6-8) unfolding painted_at_def all_dict_set [OF fresh_sid] by auto
  next
    case False
    then show ?thesis using assms(6-8) unfolding painted_at_def all_dict_set [OF fresh_sid] by auto
  qed
  then show ?thesis using assms(1) by (simp add: painted_def)
qed

lemma painted_land:
  assumes "painted file base view avail cursor inflight mem" "ledger_ok avail want stop free inflight cursor landed"
    and "map_of inflight sid = Some e" "if_got e + int (length data) \<le> clip avail e" "int (length view) = want"
    and "\<And>i. i < length data \<Longrightarrow> data ! i = file ! (nat base + nat (if_offset e + if_got e) + i)"
  shows "painted file base view avail cursor (dict_set sid (e\<lparr>if_got := if_got e + int (length data)\<rparr>) inflight)
    (store (if_at e + nat (if_got e)) data mem)"
proof -
  have e: "entry_ok avail want stop cursor e" using assms(2,3) by (auto simp: ledger_ok_def)
  define pos where "pos = nat (if_offset e + if_got e)"
  have pos: "if_at e + nat (if_got e) = pos" "int pos = if_offset e + if_got e"
    using e by (auto simp: entry_ok_def pos_def nat_add_distrib)
  have clip: "if_offset e + if_got e + int (length data) \<le> min (if_offset e + if_length e) avail" if "data \<noteq> []"
  proof -
    have "0 < int (length data)" using that by simp
    with assms(4) e show ?thesis unfolding clip_def entry_ok_def by linarith
  qed
  have len: "length mem = length view" using assms(1) by (simp add: painted_def)
  have fits: "pos + length data \<le> length mem"
    using clip pos(2) e assms(4,5) len by (cases "data = []") (auto simp: entry_ok_def clip_def)
  have other: "\<not> (if_offset f + if_got f \<le> int p \<and> int p < if_offset f + if_length f)"
    if "map_of inflight t = Some f" "t \<noteq> sid" "if_offset e \<le> int p" "int p < if_offset e + if_length e" for t f p
  proof -
    have "apart e f" "entry_ok avail want stop cursor f" using assms(2,3) that unfolding ledger_ok_def by blast+
    with that show ?thesis by (auto simp: apart_def entry_ok_def)
  qed
  show ?thesis
    unfolding painted_def pos(1)
  proof (intro conjI allI impI)
    fix p
    assume p: "p < length view"
    let ?fl = "dict_set sid (e\<lparr>if_got := if_got e + int (length data)\<rparr>) inflight"
    show "store pos data mem ! p = (if painted_at avail cursor ?fl p then file ! (nat base + p) else view ! p)"
    proof (cases "pos \<le> p \<and> p < pos + length data")
      case True
      then have nonempty: "data \<noteq> []" by auto
      have "painted_at avail cursor ?fl p"
        using True clip [OF nonempty] pos(2) e other [of _ _ p]
        unfolding painted_at_def map_of_dict_set by (auto simp: entry_ok_def split: if_splits)
      moreover have "store pos data mem ! p = data ! (p - pos)" using nth_store [OF fits] p len True by simp
      moreover have "p - pos < length data" using True by auto
      then have "data ! (p - pos) = file ! (nat base + pos + (p - pos))" using assms(6) unfolding pos_def by blast
      ultimately show ?thesis using True by simp
    next
      case False
      then have "painted_at avail cursor ?fl p = painted_at avail cursor inflight p"
        using pos(2) assms(3) unfolding painted_at_def map_of_dict_set by (auto split: if_splits)
      moreover have "store pos data mem ! p = mem ! p" using nth_store [OF fits, of p] p len False by presburger
      ultimately show ?thesis using assms(1) p by (simp add: painted_def)
    qed
  qed (use fits len in simp)
qed

lemma painted_finish:
  assumes "painted file base view avail cursor inflight mem" "map_of inflight sid = Some e" "if_got e = clip avail e"
    and "0 \<le> if_offset e" "min cursor' avail = min cursor avail"
  shows "painted file base view avail cursor' (dict_pop sid inflight) mem"
proof -
  have "painted_at avail cursor' (dict_pop sid inflight) p = painted_at avail cursor inflight p" for p
  proof -
    have "int p < avail \<and> int p < cursor' \<longleftrightarrow> int p < avail \<and> int p < cursor" using assms(5) by linarith
    moreover have "\<not> (int p < avail \<and> if_offset e + if_got e \<le> int p \<and> int p < if_offset e + if_length e)"
      using assms(3) by (auto simp: clip_def)
    ultimately show ?thesis
      using assms(2) unfolding painted_at_def map_of_dict_pop fun_upd_apply by (metis option.distinct(1) option.inject)
  qed
  then show ?thesis using assms(1) by (simp add: painted_def)
qed

subsection \<open>The loop\<close>

definition tallied :: "bytes \<Rightarrow> int \<Rightarrow> (int \<times> in_flight_read) list \<Rightarrow> wire list \<Rightarrow> bool" where
  "tallied file base inflight evs \<longleftrightarrow> (\<exists>due. truthful_run file evs = Some due \<and>
     (\<forall>sid. map_of due sid = map_option (\<lambda>e. (base + if_offset e, if_length e, if_got e)) (map_of inflight sid)))"

definition filling ::
  "bytes \<Rightarrow> int \<Rightarrow> bytes \<Rightarrow> int \<Rightarrow> int list \<Rightarrow> (int \<times> in_flight_read) list \<Rightarrow> int \<Rightarrow> int \<Rightarrow> bulk_reader \<Rightarrow> bool" where
  "filling file base view stop free inflight cursor landed b \<longleftrightarrow>
     0 \<le> base \<and> 1 \<le> br_chunk b \<and>
     ledger_ok (max 0 (int (length file) - base)) (int (length view)) stop free inflight cursor landed \<and>
     painted file base view (max 0 (int (length file) - base)) cursor inflight (br_memory b) \<and>
     tallied file base inflight (br_log b)"

lemma issue_Inr:
  assumes "issue env sid req b = (b', Inr u)"
  shows "buffers b' = buffers b \<and> br_log b' = br_log b @ [Sent sid req]"
  using assms by (auto simp: issue_def bbind_eq_Inr machine_op_def send_frame_def buffers_def split: prod.splits list.splits send_fate.splits)

lemma issue_reads_filling:
  assumes "issue_reads env base stop free inflight cursor b = (b', Inr (free', inflight', cursor'))"
    and "filling file base view stop free inflight cursor landed b"
  shows "filling file base view stop free' inflight' cursor' landed b' \<and> (free' = [] \<or> stop \<le> cursor')"
  using assms
proof (induction env base stop free inflight cursor b rule: issue_reads.induct)
  case (1 env base stop free inflight cursor b)
  note step = issue_reads.simps [of env base stop free inflight cursor b]
  show ?case
  proof (cases "free = [] \<or> stop \<le> cursor")
    case True
    with 1(2,3) show ?thesis by (auto simp: step)
  next
    case False
    let ?n = "min (br_chunk b) (stop - cursor)"
    let ?e = "\<lparr>if_offset = cursor, if_length = ?n, if_at = nat cursor, if_slot = 0, if_got = 0\<rparr>"
    let ?fl = "dict_set (last free) ?e inflight"
    obtain b1 q where i: "issue env (last free) (Read (br_handle b) (base + cursor) ?n 0) b = (b1, q)" by fastforce
    with 1(2) False obtain u where q: "q = Inr u" by (cases q) (auto simp: step Let_def)
    have nx: "issue_reads env base stop (butlast free) ?fl (cursor + ?n) b1 = (b', Inr (free', inflight', cursor'))"
      using 1(2) False i q by (simp add: step Let_def)
    note f = 1(3) [unfolded filling_def]
    have b1: "br_chunk b1 = br_chunk b" "br_memory b1 = br_memory b"
      "br_log b1 = br_log b @ [Sent (last free) (Read (br_handle b) (base + cursor) ?n 0)]"
      using issue_Inr [OF i [unfolded q]] by (simp_all add: buffers_def)
    have sid: "last free \<notin> dict_keys inflight" using f False unfolding ledger_ok_def by (metis disjoint_iff last_in_set)
    have n: "0 < ?n" using f False by auto
    have "ledger_ok (max 0 (int (length file) - base)) (int (length view)) stop (butlast free) ?fl (cursor + ?n) landed"
      by (rule ledger_issue) (use f False in auto)
    moreover have "painted file base view (max 0 (int (length file) - base)) (cursor + ?n) ?fl (br_memory b1)"
      unfolding b1(2) by (rule painted_issue) (use f False n sid in auto)
    moreover have "tallied file base ?fl (br_log b1)"
      using f unfolding tallied_def b1(3) by (fastforce simp: truthful_run_snoc map_of_dict_set)
    ultimately have "filling file base view stop (butlast free) ?fl (cursor + ?n) landed b1"
      using f b1 by (simp add: filling_def)
    with 1(1) [OF False refl refl refl i [symmetric] q nx] show ?thesis by blast
  qed
qed

lemma rest_of_bounds:
  assumes "0 \<le> base" "0 \<le> if_offset e" "0 \<le> if_got e" "if_got e \<le> clip avail e" "avail = max 0 (int (length file) - base)"
  shows "int (length (rest_of file (base + if_offset e) (if_length e) (if_got e))) = clip avail e - if_got e"
  using assms by (auto simp: rest_of_def clip_def min_def max_def nat_add_distrib split: if_splits)

lemma collect_cases:
  assumes "collect inflight b = (b', Inr (fl, o1))"
  obtains reply b1 entry data where "next_reply b = (b1, Inr reply)" "map_of inflight (rh_streamid reply) = Some entry"
    "data = take (nat (rh_dlen reply)) (br_rx b1)" "length data = nat (rh_dlen reply)"
    "fl = dict_set (rh_streamid reply) (entry\<lparr>if_got := if_got entry + rh_dlen reply\<rparr>) inflight"
    "br_chunk b' = br_chunk b1" "br_log b' = br_log b1"
    "br_memory b' = store (if_at entry + nat (if_got entry)) data (br_memory b1)"
    "rh_status reply = kXR_oksofar \<and> o1 = None \<or> rh_status reply = kXR_ok \<and> o1 = Some (rh_streamid reply)"
  using assms
  by (auto simp: collect_def bbind_eq_Inr Let_def land_def exact_Inr settled_reply_def split: if_splits option.splits)

lemma collect_truthful:
  assumes "collect inflight b = (b', Inr (fl, o1))" "filling file base view stop free inflight cursor landed b"
    and "truthful file (br_log b')" "between rx m lsd sids b"
  obtains sid e n where "map_of inflight sid = Some e" "0 \<le> n" "fl = dict_set sid (e\<lparr>if_got := if_got e + n\<rparr>) inflight"
    "if_got e + n \<le> clip (max 0 (int (length file) - base)) e"
    "painted file base view (max 0 (int (length file) - base)) cursor fl (br_memory b')" "br_chunk b' = br_chunk b"
    "o1 = None \<and> tallied file base fl (br_log b') \<or>
     o1 = Some sid \<and> tallied file base (dict_pop sid fl) (br_log b') \<and> if_got e + n = clip (max 0 (int (length file) - base)) e"
proof -
  let ?avail = "max 0 (int (length file) - base)"
  from assms(1) obtain reply b1 e data where c: "next_reply b = (b1, Inr reply)" "map_of inflight (rh_streamid reply) = Some e"
    "data = take (nat (rh_dlen reply)) (br_rx b1)" "length data = nat (rh_dlen reply)"
    "fl = dict_set (rh_streamid reply) (e\<lparr>if_got := if_got e + rh_dlen reply\<rparr>) inflight"
    "br_chunk b' = br_chunk b1" "br_log b' = br_log b1"
    "br_memory b' = store (if_at e + nat (if_got e)) data (br_memory b1)"
    "rh_status reply = kXR_oksofar \<and> o1 = None \<or> rh_status reply = kXR_ok \<and> o1 = Some (rh_streamid reply)"
    by (rule collect_cases)
  let ?sid = "rh_streamid reply"
  have d0: "0 \<le> rh_dlen reply" using triple_Inr [OF next_reply_between assms(4) c(1)] by (simp add: replied_def)
  have f: "0 \<le> base" "ledger_ok ?avail (int (length view)) stop free inflight cursor landed"
    "painted file base view ?avail cursor inflight (br_memory b)" "tallied file base inflight (br_log b)"
    using assms(2) by (simp_all add: filling_def)
  obtain due' where due': "truthful_run file (br_log b1) = Some due'" using assms(3) c(7) by (auto simp: truthful_def)
  with next_reply_truthful [OF c(1)] obtain due where due: "truthful_run file (br_log b) = Some due"
    "truthful_step file (Got ?sid (rh_status reply) data) due = Some due'" "buffers b1 = buffers b"
    using c(3) by blast
  have t: "map_of due s = map_option (\<lambda>e. (base + if_offset e, if_length e, if_got e)) (map_of inflight s)" for s
    using f(4) due(1) by (auto simp: tallied_def)
  let ?rest = "rest_of file (base + if_offset e) (if_length e) (if_got e)"
  have e: "entry_ok ?avail (int (length view)) stop cursor e" using f(2) c(2) by (auto simp: ledger_ok_def)
  have rest: "int (length ?rest) = clip ?avail e - if_got e"
    by (rule rest_of_bounds) (use e f(1) in \<open>auto simp: entry_ok_def\<close>)
  have data: "data = take (length data) ?rest"
    using due(2) t [of ?sid] c(2,9) by (auto split: if_splits)
  then have "int (length data) \<le> int (length ?rest)" by (metis length_take min.cobounded1 of_nat_le_iff)
  then have fits: "if_got e + rh_dlen reply \<le> clip ?avail e" using rest c(4) d0 by simp
  have "painted file base view ?avail cursor fl (br_memory b')"
    unfolding c(5,8)
  proof -
    have "data ! i = file ! (nat base + nat (if_offset e + if_got e) + i)" if "i < length data" for i
    proof -
      have "data ! i = ?rest ! i" using data that by (metis nth_take)
      moreover have "i < length ?rest" using that \<open>int (length data) \<le> int (length ?rest)\<close> by linarith
      moreover have "nat (base + if_offset e + if_got e) = nat base + nat (if_offset e + if_got e)"
        using e f(1) by (simp add: entry_ok_def nat_add_distrib)
      ultimately show ?thesis by (auto simp: rest_of_def)
    qed
    with painted_land [OF f(3,2) c(2), of data] fits c(4) d0 due(3)
    show "painted file base view ?avail cursor (dict_set ?sid (e\<lparr>if_got := if_got e + rh_dlen reply\<rparr>) inflight)
        (store (if_at e + nat (if_got e)) data (br_memory b1))"
      by (simp add: buffers_def)
  qed
  moreover have "o1 = None \<and> tallied file base fl (br_log b') \<or>
     o1 = Some ?sid \<and> tallied file base (dict_pop ?sid fl) (br_log b') \<and> if_got e + rh_dlen reply = clip ?avail e"
    using c(9)
  proof
    assume r: "rh_status reply = kXR_oksofar \<and> o1 = None"
    then have "due' = dict_set ?sid (base + if_offset e, if_length e, if_got e + int (length data)) due"
      using due(2) t [of ?sid] c(2) by (auto split: if_splits)
    then have "tallied file base fl (br_log b')"
      using due' c(4,5,7) d0 t unfolding tallied_def by (auto simp: map_of_dict_set)
    with r show ?thesis by blast
  next
    assume r: "rh_status reply = kXR_ok \<and> o1 = Some ?sid"
    then have "due' = dict_pop ?sid due" "data = ?rest"
      using due(2) t [of ?sid] c(2) by (auto split: if_splits)
    then have "tallied file base (dict_pop ?sid fl) (br_log b')" "if_got e + rh_dlen reply = clip ?avail e"
      using due' c(4,5,7) d0 t rest unfolding tallied_def by (auto simp: map_of_dict_set map_of_dict_pop)
    with r show ?thesis by blast
  qed
  ultimately show thesis using that [OF c(2) d0 c(5) fits] c(6) due(3) by (auto simp: buffers_def)
qed

text \<open>The log only grows.\<close>

lemma truthful_prefix: "truthful file ys \<Longrightarrow> prefix xs ys \<Longrightarrow> truthful file xs"
proof (erule prefixE)
  fix zs
  have dead: "fold (\<lambda>e due. case due of None \<Rightarrow> None | Some d \<Rightarrow> truthful_step file e d) zs None = None"
    by (induction zs) auto
  assume "truthful file ys" "ys = xs @ zs"
  then show "truthful file xs" using dead by (cases "truthful_run file xs") (auto simp: truthful_def truthful_run_def)
qed

definition hears :: "wire list \<Rightarrow> wire list \<Rightarrow> bool" where
  "hears evs evs' \<longleftrightarrow> (\<exists>gots. evs' = evs @ gots \<and> list_all is_Got gots)"

lemma hears_refl [simp]: "hears evs evs"
  by (simp add: hears_def)

lemma hears_trans: "hears xs ys \<Longrightarrow> hears ys zs \<Longrightarrow> hears xs zs"
  unfolding hears_def by force

lemma hears_prefix: "hears xs ys \<Longrightarrow> prefix xs ys"
  by (auto simp: hears_def)

lemma next_reply_hears: "next_reply b = (b', r) \<Longrightarrow> hears (br_log b) (br_log b') \<and> buffers b' = buffers b"
proof (induction b arbitrary: b' r rule: next_reply.induct)
  case (1 b)
  note step = next_reply.simps [of b]
  obtain b1 q where h: "frame_header b = (b1, q)" by fastforce
  note lg = quietD [OF quiet_frame_header h]
  consider e where "q = Inl e" | "q = Inr None" | rep where "q = Inr (Some rep)" by (metis option.exhaust sum.exhaust)
  then show ?case
  proof cases
    case 1
    with h \<open>next_reply b = (b', r)\<close> lg show ?thesis by (simp add: step)
  next
    case 2
    with 1(1) [OF h [symmetric] 2 refl] 1(3) h lg show ?thesis by (simp add: step)
  next
    case (3 rep)
    obtain b2 d where d: "bbind (frame_body (rh_dlen rep)) deferred (log_reply rep b1) = (b2, d)" by fastforce
    have l1: "hears (br_log b) (br_log (log_reply rep b1))" using lg by (simp add: log_reply_def hears_def)
    have l2: "br_log b2 = br_log (log_reply rep b1)" "buffers b2 = buffers b"
      using quietD [OF quiet_bind [OF quiet_frame_body quiet_deferred] d] lg by simp_all
    show ?thesis
    proof (cases "rh_streamid rep \<in> br_owed b1 \<and> rh_status rep = kXR_waitresp")
      case False
      with 1(3) h 3 have "b' = log_reply rep b1" by (auto simp: step split: if_splits)
      with l1 lg show ?thesis by simp
    next
      case True
      with 1(2) [OF h [symmetric] 3 refl _ _ d [symmetric]] 1(3) h 3 d l1 l2 show ?thesis
        by (cases d) (auto simp: step intro: hears_trans)
    qed
  qed
qed

lemma next_reply_grows: "next_reply b = (b', r) \<Longrightarrow> prefix (br_log b) (br_log b')"
  using next_reply_hears hears_prefix by blast

lemma collect_grows: "collect inflight b = (b', Inr x) \<Longrightarrow> prefix (br_log b) (br_log b')"
  by (cases x) (auto elim!: collect_cases dest: next_reply_grows)

lemma issue_reads_grows: "issue_reads env base stop free inflight cursor b = (b', Inr x) \<Longrightarrow> prefix (br_log b) (br_log b')"
proof (induction env base stop free inflight cursor b rule: issue_reads.induct)
  case (1 env base stop free inflight cursor b)
  note step = issue_reads.simps [of env base stop free inflight cursor b]
  show ?case
  proof (cases "free = [] \<or> stop \<le> cursor")
    case True
    with 1(2) show ?thesis by (auto simp: step)
  next
    case False
    obtain b1 q where i: "issue env (last free) (Read (br_handle b) (base + cursor) (min (br_chunk b) (stop - cursor)) 0) b = (b1, q)"
      by fastforce
    with 1(2) False obtain u where q: "q = Inr u" by (cases q) (auto simp: step Let_def)
    with issue_Inr [OF i [unfolded q]] 1(1) [OF False refl refl refl i [symmetric] q] 1(2) False i show ?thesis
      by (auto simp: step Let_def dest: append_prefixD)
  qed
qed

lemma drain_hears: "drain_owed b = (b', r) \<Longrightarrow> hears (br_log b) (br_log b') \<and> buffers b' = buffers b"
proof (induction b arbitrary: b' r rule: drain_owed.induct)
  case (1 b)
  note step = drain_owed.simps [of b]
  obtain b1 q where n: "next_reply b = (b1, q)" by fastforce
  have g: "hears (br_log b) (br_log b1)" "buffers b1 = buffers b" using next_reply_hears n by blast+
  show ?case
  proof (cases "br_owed b = {} \<or> (\<exists>e. q = Inl e)")
    case True
    with 1(2) n g show ?thesis by (auto simp: step split: if_splits)
  next
    case False
    then obtain reply where q: "q = Inr reply" by (cases q) auto
    obtain b2 x where x: "exact (nat (rh_dlen reply)) False b1 = (b2, x)" by fastforce
    with exact_buffers have l2: "br_log b2 = br_log b1" "buffers b2 = buffers b1" by blast+
    show ?thesis
    proof (cases x)
      case Inl
      with 1(2) n q x False l2 g show ?thesis by (auto simp: step)
    next
      case (Inr y)
      let ?b = "b2\<lparr>br_torn := False, br_owed :=
        (if rh_status reply \<noteq> kXR_oksofar then br_owed b2 - {rh_streamid reply} else br_owed b2)\<rparr>"
      have "hears (br_log ?b) (br_log b') \<and> buffers b' = buffers ?b"
        using 1(1) [OF _ n [symmetric] q x [symmetric] Inr] 1(2) n q x False Inr by (simp add: step)
      with l2 g show ?thesis using hears_trans by (auto simp: buffers_def)
    qed
  qed
qed

lemma hand_back_quiet [simp]: "br_log (hand_back sids b) = br_log b" "buffers (hand_back sids b) = buffers b"
  by (simp_all add: hand_back_def Let_def buffers_def)

lemma settle_hears: "settle b = (b', r) \<Longrightarrow> hears (br_log b) (br_log b') \<and> buffers b' = buffers b"
  using drain_hears [of "b\<lparr>br_leased := []\<rparr>"]
  by (auto simp: settle_def Let_def split: if_splits prod.splits) (auto simp: buffers_def)

lemma into_loop_grows:
  "into_loop env base stop free inflight cursor landed b = (b', Inr n) \<Longrightarrow> prefix (br_log b) (br_log b')"
proof (induction env base stop free inflight cursor landed b arbitrary: n rule: into_loop.induct)
  case (1 env base stop free inflight cursor landed b)
  note step = into_loop.simps [of env base stop free inflight cursor landed b]
  obtain b1 q where i: "issue_reads env base stop free inflight cursor b = (b1, q)" by fastforce
  with 1(3) obtain free' fl cursor' where q: "q = Inr (free', fl, cursor')" by (cases q) (auto simp: step)
  have g1: "prefix (br_log b) (br_log b1)" using issue_reads_grows i q by blast
  show ?case
  proof (cases "fl = []")
    case True
    with 1(3) i q g1 show ?thesis by (auto simp: step)
  next
    case False
    obtain b2 c where c: "collect fl b1 = (b2, c)" by fastforce
    with 1(3) i q False obtain fl' o1 where z: "c = Inr (fl', o1)" by (cases c) (auto simp: step)
    have g2: "prefix (br_log b) (br_log b2)" using g1 collect_grows c z prefix_order.trans by blast
    note IH = 1(1,2) [OF i [symmetric] q refl refl False c [symmetric] z refl]
    show ?thesis
    proof (cases o1)
      case None
      with IH(1) 1(3) i q False c z g2 show ?thesis by (auto simp: step intro: prefix_order.trans)
    next
      case (Some sid)
      with IH(2) [OF Some refl refl refl] 1(3) i q False c z g2 show ?thesis
        by (auto simp: step Let_def intro: prefix_order.trans)
    qed
  qed
qed

lemma into_loop_fills:
  assumes "into_loop env base stop free inflight cursor landed b = (b', Inr n)" "truthful file (br_log b')"
    and "filling file base view stop free inflight cursor landed b"
    and "between rx m lsd sids b" "set free \<subseteq> set sids"
  shows "n = min (int (length view)) (max 0 (int (length file) - base)) \<and>
    painted file base view (max 0 (int (length file) - base)) n [] (br_memory b') \<and> between rx m lsd sids b' \<and> br_owed b' = {}"
  using assms
proof (induction env base stop free inflight cursor landed b rule: into_loop.induct)
  case (1 env base stop free inflight cursor landed b)
  let ?avail = "max 0 (int (length file) - base)"
  note step = into_loop.simps [of env base stop free inflight cursor landed b]
  obtain b1 q where i: "issue_reads env base stop free inflight cursor b = (b1, q)" by fastforce
  with 1(3) obtain free' fl cursor' where q: "q = Inr (free', fl, cursor')" by (cases q) (auto simp: step)
  have f1: "filling file base view stop free' fl cursor' landed b1" "free' = [] \<or> stop \<le> cursor'"
    using issue_reads_filling [OF i [unfolded q] 1(5)] by auto
  have b1: "between rx m lsd sids b1" "set free' \<subseteq> set sids" using issue_reads_between [OF 1(6,7) i] q by auto
  show ?case
  proof (cases "fl = []")
    case True
    with 1(3) i q have b': "b' = b1\<lparr>br_delivered := br_delivered b1 + landed\<rparr>" "n = landed" by (auto simp: step)
    have l: "ledger_ok ?avail (int (length view)) stop free' [] cursor' landed" "painted file base view ?avail cursor' [] (br_memory b1)"
      using f1 True by (simp_all add: filling_def)
    then have st: "stop \<le> cursor'" using f1(2) by (auto simp: ledger_ok_def)
    note full = ledger_done [OF l(1) st]
    have "painted file base view ?avail n [] (br_memory b')"
      using l(2) full b' by (auto simp: painted_def painted_at_def)
    moreover have "br_owed b1 = {}"
      using b1(1) f1(1) True truthful_owing by (fastforce simp: filling_def tallied_def between_def map_of_eq_None_keys)
    ultimately show ?thesis using full b' b1 by (simp add: between_def calm_def)
  next
    case False
    obtain b2 c where c: "collect fl b1 = (b2, c)" by fastforce
    with 1(3) i q False obtain fl' o1 where z: "c = Inr (fl', o1)" by (cases c) (auto simp: step)
    have b2: "between rx m lsd sids b2" "\<And>sid. o1 = Some sid \<Longrightarrow> sid \<in> set sids"
      using triple_Inr [OF collect_between b1(1)] c z by fastforce+
    note IH = 1(1,2) [OF i [symmetric] q refl refl False c [symmetric] z refl]
    define entry where "entry = the (map_of fl' (the o1))"
    define stop' where "stop' = (if o1 \<noteq> None \<and> if_got entry < if_length entry then min stop (if_offset entry + if_got entry) else stop)"
    define cur where "cur = (if o1 \<noteq> None \<and> if_got entry < if_length entry then min cursor' stop' else cursor')"
    define nx where "nx = (case o1 of None \<Rightarrow> into_loop env base stop free' fl' cursor' landed b2
      | Some sid \<Rightarrow> into_loop env base stop' (free' @ [sid]) (dict_pop sid fl') cur (landed + if_got entry) b2)"
    have nx: "nx = (b', Inr n)"
      using 1(3) i q False c z by (cases o1) (auto simp: step nx_def Let_def entry_def stop'_def cur_def)
    have "truthful file (br_log b2)"
      using nx 1(4) into_loop_grows truthful_prefix by (cases o1) (auto simp: nx_def)
    with collect_truthful [OF c [unfolded z] f1(1) _ b1(1)] obtain sid e k where t: "map_of fl sid = Some e" "0 \<le> k"
      "fl' = dict_set sid (e\<lparr>if_got := if_got e + k\<rparr>) fl" "if_got e + k \<le> clip ?avail e"
      "painted file base view ?avail cursor' fl' (br_memory b2)" "br_chunk b2 = br_chunk b1"
      "o1 = None \<and> tallied file base fl' (br_log b2) \<or>
       o1 = Some sid \<and> tallied file base (dict_pop sid fl') (br_log b2) \<and> if_got e + k = clip ?avail e"
      by metis
    have l: "ledger_ok ?avail (int (length view)) stop free' fl' cursor' landed"
      unfolding t(3) by (rule ledger_land [OF _ t(1,2,4)]) (use f1 in \<open>simp add: filling_def\<close>)
    show ?thesis
    proof (cases o1)
      case None
      with t l f1 have "filling file base view stop free' fl' cursor' landed b2" by (auto simp: filling_def)
      moreover have "into_loop env base stop free' fl' cursor' landed b2 = (b', Inr n)" using nx None by (simp add: nx_def)
      ultimately show ?thesis using IH(1) [OF None _ 1(4) _ b2(1) b1(2)] by blast
    next
      case (Some s)
      with t(7) have "s = sid" "if_got e + k = clip ?avail e" by auto
      moreover have en: "map_of fl' sid = Some (e\<lparr>if_got := if_got e + k\<rparr>)" by (simp add: t(3) map_of_dict_set)
      moreover have "entry_ok ?avail (int (length view)) stop cursor' (e\<lparr>if_got := if_got e + k\<rparr>)"
        using l en unfolding ledger_ok_def by blast
      ultimately have s: "s = sid" "map_of fl' sid = Some entry" "if_got entry = clip ?avail entry" "0 \<le> if_offset entry"
        using Some by (simp_all add: entry_def clip_def entry_ok_def)
      have "ledger_ok ?avail (int (length view)) stop' (free' @ [sid]) (dict_pop sid fl') cur (landed + if_got entry) \<and>
          min cur ?avail = min cursor' ?avail"
        by (rule ledger_finish [OF l s(2,3)]) (simp_all add: stop'_def cur_def Some)
      moreover from this have "painted file base view ?avail cur (dict_pop sid fl') (br_memory b2)"
        using painted_finish [OF t(5) s(2,3,4)] by blast
      ultimately have "filling file base view stop' (free' @ [sid]) (dict_pop sid fl') cur (landed + if_got entry) b2"
        using t(6,7) Some s(1) f1(1) by (auto simp: filling_def)
      moreover have "into_loop env base stop' (free' @ [s]) (dict_pop s fl') cur (landed + if_got entry) b2 = (b', Inr n)"
        using nx Some by (simp add: nx_def)
      moreover have "entry = the (map_of fl' s)" "set (free' @ [s]) \<subseteq> set sids"
        "stop' = (if if_got entry < if_length entry then min stop (if_offset entry + if_got entry) else stop)"
        "cur = (if if_got entry < if_length entry then min cursor' stop' else cursor')"
        using Some b1(2) b2(2) by (auto simp: entry_def stop'_def cur_def)
      ultimately show ?thesis using IH(2) [OF Some _ _ _ _ 1(4) _ b2(1)] s(1) by blast
    qed
  qed
qed

lemma settle_quiet:
  assumes "between rx m sids sids b" "br_owed b = {}" "settle b = (b', r)"
  shows "r = Inr () \<and> br_memory b' = br_memory b \<and> br_log b' = br_log b"
  using assms by (cases "sids = []") (auto simp: settle_def hand_back_def Let_def between_def calm_def)

text \<open>C9: a bulk read returns the file. Whatever the depth and the chunk size, in whatever order and
  in however many instalments a truthful server answers, \<open>into\<close> returns how many of the bytes asked
  for exist, and the buffer holds exactly those, the rest of it as it was.\<close>

theorem bulk_read_is_the_file:
  assumes "reachable env (br_machine b)" "fresh b" "1 \<le> br_chunk b" "0 \<le> base" "view \<noteq> []"
    and "into env view base b = (b', Inr n)" "truthful file (br_log b')"
  shows "n = min (int (length view)) (max 0 (int (length file) - base)) \<and>
    take (nat n) (br_memory b') = take (length view) (drop (nat base) file) \<and>
    drop (nat n) (br_memory b') = drop (nat n) view"
proof -
  let ?avail = "max 0 (int (length file) - base)"
  obtain b1 sids where bg: "begin_call b = (b1, Inr sids)"
    using assms(5,6) by (auto simp: into_def bbind_def split: prod.splits sum.splits)
  let ?b = "b1\<lparr>br_memory := view\<rparr>"
  have "finally_settle (into_loop env base (int (length view)) sids [] 0 0) ?b = (b', Inr n)"
    using assms(5,6) bg by (simp add: into_def)
  then obtain b2 where lp: "into_loop env base (int (length view)) sids [] 0 0 ?b = (b2, Inr n)" "settle b2 = (b', Inr ())"
    by (auto simp: finally_settle_def split: prod.splits sum.splits)
  have btw: "between (br_rx b) (br_machine b1) sids sids ?b" using begin_between [OF assms(2) bg] by simp
  obtain k where "lease_loop (Suc k) (br_machine b) = (br_machine b1, Inr sids)" using begin_leases [OF assms(2) bg] .
  from lease_loop_leases [OF reachable_sid_inv [OF assms(1)] this] have sids: "distinct sids" "sids \<noteq> []" by auto
  have same: "br_chunk b1 = br_chunk b" "br_log b1 = []"
    using bg assms(2) by (auto simp: fresh_def begin_call_def bbind_eq_Inr machine_op_def split: prod.splits if_splits)
  have "ledger_ok ?avail (int (length view)) (int (length view)) sids [] 0 0"
    using sids by (auto simp: ledger_ok_def)
  moreover have "painted file base view ?avail 0 [] view" by (simp add: painted_def painted_at_def)
  moreover have "tallied file base [] []" by (simp add: tallied_def truthful_run_def)
  ultimately have fill: "filling file base view (int (length view)) sids [] 0 0 ?b"
    using assms(3,4) same by (simp add: filling_def)
  have tr: "truthful file (br_log b2)" using truthful_prefix [OF assms(7)] settle_hears [OF lp(2)] hears_prefix by blast
  from into_loop_fills [OF lp(1) tr fill btw] 
  have n: "n = min (int (length view)) ?avail" and p: "painted file base view ?avail n [] (br_memory b2)"
    and e: "between (br_rx b) (br_machine b1) sids sids b2" "br_owed b2 = {}" by auto
  have mem: "br_memory b' = br_memory b2" using settle_quiet [OF e lp(2)] by blast
  have len: "length (br_memory b2) = length view" using p by (simp add: painted_def)
  have at: "br_memory b2 ! i = (if int i < n then file ! (nat base + i) else view ! i)" if "i < length view" for i
    using p that n by (auto simp: painted_def painted_at_def)
  have ln: "nat n \<le> length view" "nat n = length (take (length view) (drop (nat base) file))"
    using n assms(4) by (auto simp: min_def max_def split: if_splits)
  have dr: "drop (nat base) file ! i = file ! (nat base + i)" if "i < length file - nat base" for i
    by (rule nth_drop) (use that in linarith)
  have "take (nat n) (br_memory b2) = take (length view) (drop (nat base) file)"
  proof (rule nth_equalityI)
    fix i
    assume "i < length (take (nat n) (br_memory b2))"
    then have i: "i < nat n" "i < length view" "i < length file - nat base" using ln len by auto
    then show "take (nat n) (br_memory b2) ! i = take (length view) (drop (nat base) file) ! i"
      using at [OF i(2)] dr [OF i(3)] by auto
  qed (use len ln in simp)
  moreover have "drop (nat n) (br_memory b2) = drop (nat n) view"
  proof (rule nth_equalityI)
    fix i
    assume "i < length (drop (nat n) (br_memory b2))"
    then show "drop (nat n) (br_memory b2) ! i = drop (nat n) view ! i" using at [of "nat n + i"] ln(1) len by simp
  qed (use len in simp)
  ultimately show ?thesis using n mem by simp
qed

definition sample_bulk :: bulk_reader where
  "sample_bulk = sample_reader (server_frame 4 0 [7, 8] @ server_frame 5 4000 [3, 4] @ server_frame 5 0 [5, 6]) XrdTimeoutError 4 2"

theorem bulk_read_is_the_file_witness:
  "take 6 (br_memory (fst (into sample_e (replicate 6 0) 2 sample_bulk))) = [3, 4, 5, 6, 7, 8]"
proof -
  let ?b = "fst (into sample_e (replicate 6 0) 2 sample_bulk)"
  have "snd (into sample_e (replicate 6 0) 2 sample_bulk) = Inr 6" by code_simp
  then have r: "into sample_e (replicate 6 0) 2 sample_bulk = (?b, Inr 6)" by (metis prod.collapse)
  have t: "truthful [1, 2, 3, 4, 5, 6, 7, 8, 9, 10] (br_log ?b)" by code_simp
  have p: "reachable sample_e (br_machine sample_bulk)" "fresh sample_bulk" "1 \<le> br_chunk sample_bulk"
    by (simp_all add: sample_bulk_def sample_reader_fresh) (simp add: sample_reader_def)
  from bulk_read_is_the_file [OF p _ _ r t] show ?thesis by simp
qed

definition growing :: bulk_reader where
  "growing = sample_reader (server_frame 6 0 [1, 2, 3, 4] @ server_frame 5 0 [5, 6] @ server_frame 4 0 [9, 10, 11, 12]) XrdTimeoutError 4 3"


end
