(* ===== verification/Bulk_Writes.thy ===== *)
theory Bulk_Writes
  imports Bulk_Reads "HOL-Library.Multiset"
begin

text \<open>
  What a bulk write reports. The pieces go out in order, each where the one before it ended; a
  call that returns has had every one of them acknowledged (or, where the caller asked to be
  told, declined with a wait), once each.
\<close>

fun placed :: "int \<Rightarrow> bytes list \<Rightarrow> (int \<times> bytes) list" where
  "placed offset [] = []"
| "placed offset (p # ps) = (if p = [] then placed offset ps else (offset, p) # placed (offset + int (length p)) ps)"

definition extent_of :: "int \<times> bytes \<Rightarrow> int \<times> int" where
  "extent_of w = (fst w, int (length (snd w)))"

fun write_of :: "wire \<Rightarrow> (int \<times> bytes) list" where
  "write_of (Sent sid req) = (case req of Write h off d pid \<Rightarrow> [(off, d)] | _ \<Rightarrow> [])"
| "write_of (Got sid status body) = []"

definition writes_of :: "wire list \<Rightarrow> (int \<times> bytes) list" where
  "writes_of evs = concat (map write_of evs)"

lemma writes_of_append [simp]: "writes_of (xs @ ys) = writes_of xs @ writes_of ys"
  by (simp add: writes_of_def)

lemma writes_of_gots: "list_all is_Got gots \<Longrightarrow> writes_of gots = []"
proof (induction gots)
  case (Cons e gots)
  then show ?case by (cases e) (simp_all add: writes_of_def)
qed (simp add: writes_of_def)

lemma writes_of_hears: "hears xs ys \<Longrightarrow> writes_of ys = writes_of xs"
  by (auto simp: hears_def writes_of_gots)

definition writing ::
  "bytes list \<Rightarrow> int \<Rightarrow> bytes list \<Rightarrow> int list \<Rightarrow> (int \<times> int \<times> int) list \<Rightarrow> int \<Rightarrow> exn option \<Rightarrow> int \<Rightarrow> bulk_reader \<Rightarrow> bool" where
  "writing whole base source free unanswered offset failure acked b \<longleftrightarrow>
     writes_of (br_log b) @ placed offset source = placed base whole \<and>
     (failure = None \<longrightarrow> mset (map snd unanswered) + mset (br_acked b) + mset (br_waited b) = mset (map extent_of (writes_of (br_log b)))) \<and>
     acked = sum_list (map snd (br_acked b)) \<and>
     distinct (map fst unanswered) \<and> distinct free \<and> set free \<inter> dict_keys unanswered = {} \<and> (free \<noteq> [] \<or> unanswered \<noteq> [])"

lemma mset_dict_set: "k \<notin> dict_keys d \<Longrightarrow> mset (map snd (dict_set k v d)) = add_mset v (mset (map snd d))"
  by (induction k v d rule: dict_set.induct) auto

lemma mset_dict_pop:
  "map_of d k = Some v \<Longrightarrow> distinct (map fst d) \<Longrightarrow> mset (map snd d) = add_mset v (mset (map snd (dict_pop k d)))"
proof (induction d)
  case (Cons x d)
  show ?case
  proof (cases "fst x = k")
    case True
    have "\<forall>e \<in> set d. fst e \<noteq> k" using Cons.prems(2) True by (auto simp: image_iff)
    then have "dict_pop k d = d" by (simp add: dict_pop_def)
    with True Cons.prems show ?thesis by (auto simp: dict_pop_def)
  next
    case False
    with Cons show ?thesis by (auto simp: dict_pop_def)
  qed
qed simp

lemma write_batch_writing:
  assumes "write_batch env source free unanswered offset b = (b', Inr (source', free', un', offset', ex))"
    and "writing whole base source free unanswered offset None acked b"
  shows "writing whole base source' free' un' offset' None acked b' \<and> (ex \<longrightarrow> source' = []) \<and> (\<not> ex \<longrightarrow> free' = [])"
  using assms
proof (induction env source free unanswered offset b rule: write_batch.induct)
  case (2 env piece source free unanswered offset b)
  show ?case
  proof (cases "free = [] \<or> piece = [] \<or> br_chunk b < int (length piece)")
    case True
    show ?thesis
    proof (cases "free \<noteq> [] \<and> piece = []")
      case t: True
      with 2(4) have "writing whole base source free unanswered offset None acked b" by (simp add: writing_def)
      with 2(1) t 2(3) show ?thesis by simp
    next
      case False
      with True 2(3,4) show ?thesis by (auto split: if_splits)
    qed
  next
    case False
    let ?un = "dict_set (last free) (offset, int (length piece)) unanswered"
    obtain b1 q where i: "issue env (last free) (Write (br_handle b) offset piece 0) b = (b1, q)" by fastforce
    with 2(3) False obtain u where q: "q = Inr u" by (cases q) (auto simp: Let_def)
    have b1: "br_acked b1 = br_acked b" "br_waited b1 = br_waited b"
      "br_log b1 = br_log b @ [Sent (last free) (Write (br_handle b) offset piece 0)]"
      using issue_Inr [OF i [unfolded q]] by (simp_all add: buffers_def)
    note w = 2(4) [unfolded writing_def]
    have sid: "last free \<notin> dict_keys unanswered" using w False by (metis disjoint_iff last_in_set)
    have fr: "distinct (butlast free)" "set (butlast free) \<inter> dict_keys ?un = {}"
      using w False by (auto simp: distinct_butlast dest: in_set_butlastD, metis append_butlast_last_id distinct_append not_distinct_conv_prefix)
    have "writing whole base source (butlast free) ?un (offset + int (length piece)) None acked b1"
      using w False fr unfolding writing_def b1 mset_dict_set [OF sid]
      by (auto simp: writes_of_def extent_of_def distinct_dict_set)
    with 2(2) [OF _ _ _ refl i [symmetric] q] 2(3) False i q show ?thesis by (simp add: Let_def)
  qed
qed auto

lemma next_answer_hears:
  assumes "next_answer b = (b', Inr (reply, body))"
  shows "hears (br_log b) (br_log b') \<and> br_acked b' = br_acked b \<and> br_waited b' = br_waited b"
proof -
  obtain b1 where n: "next_reply b = (b1, Inr reply)" and
    "br_log b' = br_log b1" "br_acked b' = br_acked b1" "br_waited b' = br_waited b1"
    using assms by (auto simp: next_answer_def bbind_eq_Inr frame_body_Inr settled_reply_def split: if_splits)
  with next_reply_hears [OF n] show ?thesis by (simp add: buffers_def)
qed

definition all_answered :: "write_replies \<Rightarrow> bytes list \<Rightarrow> int \<Rightarrow> int \<Rightarrow> bulk_reader \<Rightarrow> bool" where
  "all_answered replies whole base n b \<longleftrightarrow> writes_of (br_log b) = placed base whole \<and>
     mset (br_acked b) + mset (br_waited b) = mset (map extent_of (placed base whole)) \<and>
     n = sum_list (map snd (br_acked b)) \<and> (wr_waited replies \<or> br_waited b = [])"

lemma write_batch_waited: "write_batch env source free unanswered offset b = (b', r) \<Longrightarrow> r = Inr x \<Longrightarrow> br_waited b' = br_waited b"
proof (induction env source free unanswered offset b rule: write_batch.induct)
  case (2 env piece source free unanswered offset b)
  obtain b1 q where i: "issue env (last free) (Write (br_handle b) offset piece 0) b = (b1, q)" by fastforce
  show ?case
  proof (cases "free = [] \<or> piece = [] \<or> br_chunk b < int (length piece)")
    case True
    with 2(1,3,4) show ?thesis by (auto split: if_splits)
  next
    case False
    with i 2(3,4) obtain u where q: "q = Inr u" by (cases q) (auto simp: Let_def)
    with issue_Inr [OF i [unfolded q]] 2(2) [OF _ _ _ refl i [symmetric] q] 2(3,4) False i show ?thesis
      by (simp add: Let_def buffers_def)
  qed
qed simp

lemma answer_writing:
  assumes "writing whole base source free unanswered offset failure acked b" "map_of unanswered sid = Some extent"
    and "write_answer replies reply body extent b = (b', Inr (got, error))" "wr_waited replies \<or> br_waited b = []"
  shows "writing whole base source (free @ [sid]) (dict_pop sid unanswered) offset (if failure = None then error else failure)
      (acked + got) b' \<and> (wr_waited replies \<or> br_waited b' = [])"
proof -
  note w = assms(1) [unfolded writing_def]
  have m: "mset (map snd unanswered) = add_mset extent (mset (map snd (dict_pop sid unanswered)))"
    using mset_dict_pop [OF assms(2)] w by blast
  have "sid \<in> dict_keys unanswered" using assms(2) by (rule map_of_Some_keys)
  then have fr: "distinct (free @ [sid])" "set (free @ [sid]) \<inter> dict_keys (dict_pop sid unanswered) = {}" using w by auto
  show ?thesis
    using w fr assms(3,4) unfolding writing_def
    by (auto simp: write_answer_def m [unfolded mset_map] distinct_dict_pop split: if_splits)
qed

lemma chunks_loop_answered:
  assumes "chunks_loop env replies source free unanswered offset exhausted failure acked b = (b', Inr n)"
    and "writing whole base source free unanswered offset failure acked b" "exhausted \<longrightarrow> source = []"
    and "wr_waited replies \<or> br_waited b = []"
  shows "all_answered replies whole base n b'"
  using assms
proof (induction env replies source free unanswered offset exhausted failure acked b rule: chunks_loop.induct)
  case (1 env replies source free unanswered offset exhausted failure acked b)
  note step = chunks_loop.simps [of env replies source free unanswered offset exhausted failure acked b]
  obtain b1 q where i: "(if \<not> exhausted \<and> failure = None then write_batch env source free unanswered offset b
            else (b, Inr (source, free, unanswered, offset, exhausted))) = (b1, q)" by fastforce
  with 1(3) obtain source' free' un' offset' ex where q: "q = Inr (source', free', un', offset', ex)"
    unfolding step by (cases q) auto
  have w1: "writing whole base source' free' un' offset' failure acked b1" "ex \<longrightarrow> source' = []"
    "\<not> ex \<longrightarrow> failure \<noteq> None \<or> free' = []" "wr_waited replies \<or> br_waited b1 = []"
  proof -
    show "writing whole base source' free' un' offset' failure acked b1" "ex \<longrightarrow> source' = []" "\<not> ex \<longrightarrow> failure \<noteq> None \<or> free' = []"
      using write_batch_writing [of env source free unanswered offset b b1 source' free' un' offset' ex whole base acked] i q 1(4,5)
      by (auto split: if_splits)
    show "wr_waited replies \<or> br_waited b1 = []"
      using 1(6) i q by (auto split: if_splits dest: write_batch_waited)
  qed
  show ?case
  proof (cases "un' = []")
    case True
    have "failure = None" "n = acked" "b' = b1" using 1(3) i True unfolding step q by (auto split: option.splits)
    with w1 True show ?thesis by (auto simp: all_answered_def writing_def)
  next
    case False
    obtain b2 c where c: "next_answer b1 = (b2, c)" by fastforce
    with 1(3) i False obtain reply body where z: "c = Inr (reply, body)" unfolding step q by (cases c) auto
    have h: "writes_of (br_log b2) = writes_of (br_log b1)" "br_acked b2 = br_acked b1" "br_waited b2 = br_waited b1"
      using next_answer_hears [OF c [unfolded z]] writes_of_hears by auto
    have w2: "writing whole base source' free' un' offset' failure acked b2" "wr_waited replies \<or> br_waited b2 = []"
      using w1 h by (simp_all add: writing_def)
    note pre = i [symmetric] q refl refl refl refl False c [symmetric] z refl
    show ?thesis
    proof (cases "rh_status reply = kXR_oksofar")
      case True
      have "chunks_loop env replies source' free' un' offset' ex failure acked b2 = (b', Inr n)"
        using 1(3) i c False True unfolding step q z by simp
      with 1(1) [OF pre True] w1 w2 show ?thesis by blast
    next
      case final: False
      then obtain extent where e: "map_of un' (rh_streamid reply) = Some extent"
        using 1(3) i c False unfolding step q z by (cases "map_of un' (rh_streamid reply)") auto
      obtain b3 v where v: "write_answer replies reply body extent b2 = (b3, v)" by fastforce
      with 1(3) i c False final e obtain got error where ce: "v = Inr (got, error)" unfolding step q z by (cases v) auto
      have "chunks_loop env replies source' (free' @ [rh_streamid reply]) (dict_pop (rh_streamid reply) un') offset' ex
          (if failure = None then error else failure) (acked + got) b3 = (b', Inr n)"
        using 1(3) i c False final e v ce unfolding step q z by simp
      with 1(2) [OF pre final e v [symmetric] ce refl] answer_writing [OF w2(1) e v [unfolded ce] w2(2)] w1(2) show ?thesis by blast
    qed
  qed
qed


definition sample_writer :: bulk_reader where
  "sample_writer = sample_reader (server_frame 4 0 [] @ server_frame 5 0 [] @ server_frame 4 0 []) XrdTimeoutError 4 2"


end
