(* ===== verification/Urllib.thy ===== *)
theory Urllib
  imports Errors
begin

text \<open>
  What the client uses of \<open>urllib.parse\<close> and \<open>posixpath\<close>: percent-encoding both ways, the fields
  of a query, and paths. Escaping a string and undoing it gives the string back, for every set of
  characters left alone that does not have the percent sign in it.
\<close>

subsection \<open>Percent-encoding\<close>

definition unreserved :: "nat \<Rightarrow> bool" where
  "unreserved c \<longleftrightarrow>
     (65 \<le> c \<and> c \<le> 90) \<or> (97 \<le> c \<and> c \<le> 122) \<or> (48 \<le> c \<and> c \<le> 57) \<or> c = 95 \<or> c = 46 \<or> c = 45 \<or> c = 126"

definition hex_digit :: "nat \<Rightarrow> nat" where
  "hex_digit n = (if n < 10 then 48 + n else 55 + n)"

definition hex_value :: "nat \<Rightarrow> nat option" where
  "hex_value c =
     (if 48 \<le> c \<and> c \<le> 57 then Some (c - 48)
      else if 65 \<le> c \<and> c \<le> 70 then Some (c - 55)
      else if 97 \<le> c \<and> c \<le> 102 then Some (c - 87)
      else None)"

definition quote_byte :: "pystr \<Rightarrow> nat \<Rightarrow> pystr" where
  "quote_byte safe b =
     (if b < 128 \<and> (unreserved b \<or> b \<in> set safe) then [b] else [37, hex_digit (b div 16), hex_digit (b mod 16)])"

definition quote :: "pystr \<Rightarrow> pystr \<Rightarrow> pystr res" where
  "quote safe s = map_sum id (\<lambda>bs. concat (map (quote_byte safe) (map unat bs))) (encode_text s)"

fun unquote_bytes :: "nat list \<Rightarrow> nat list" where
  "unquote_bytes (c # h # l # s) =
     (if c \<noteq> 37 then c # unquote_bytes (h # l # s)
      else case (hex_value h, hex_value l) of
             (Some x, Some y) \<Rightarrow> (16 * x + y) # unquote_bytes s
           | _ \<Rightarrow> c # unquote_bytes (h # l # s))"
| "unquote_bytes s = s"

text \<open>\<open>unquote\<close> decodes every run of ASCII on its own.\<close>

function unquote_runs :: "pystr \<Rightarrow> pystr" where
  "unquote_runs [] = []"
| "unquote_runs (c # s) =
     (if c < 128 then utf8_dec (unquote_bytes (takeWhile (\<lambda>c. c < 128) (c # s))) @ unquote_runs (dropWhile (\<lambda>c. c < 128) s)
      else c # unquote_runs s)"
  by pat_completeness auto
termination by (relation "measure length") (auto intro: le_less_trans [OF length_dropWhile_le])

definition unquote :: "pystr \<Rightarrow> pystr" where
  "unquote s = (if 37 \<in> set s then unquote_runs s else s)"

definition unquote_plus :: "pystr \<Rightarrow> pystr" where
  "unquote_plus s = unquote (map (\<lambda>c. if c = 43 then 32 else c) s)"

lemma hex_value_digit [simp]: "n < 16 \<Longrightarrow> hex_value (hex_digit n) = Some n"
  by (auto simp: hex_value_def hex_digit_def)

lemma unquote_bytes_skip: "c \<noteq> 37 \<Longrightarrow> unquote_bytes (c # s) = c # unquote_bytes s"
  by (cases s rule: unquote_bytes.cases; simp)

lemma unquote_bytes_escape: "b < 256 \<Longrightarrow> unquote_bytes (37 # hex_digit (b div 16) # hex_digit (b mod 16) # s) = b # unquote_bytes s"
  by (simp add: less_mult_imp_div_less)

lemma byte_unat: "unat (b :: byte) < 256"
  using unsigned_less [of b] by simp

lemma unquote_quote_bytes:
  "37 \<notin> set safe \<Longrightarrow> (\<forall>b \<in> set bs. b < 256) \<Longrightarrow> unquote_bytes (concat (map (quote_byte safe) bs)) = bs"
proof (induction bs)
  case (Cons b bs)
  show ?case
  proof (cases "b < 128 \<and> (unreserved b \<or> b \<in> set safe)")
    case True
    with Cons.prems(1) have "b \<noteq> 37" by (auto simp: unreserved_def)
    with True Cons show ?thesis by (simp add: quote_byte_def [of safe b] unquote_bytes_skip)
  next
    case False
    then have "quote_byte safe b = [37, hex_digit (b div 16), hex_digit (b mod 16)]" by (auto simp: quote_byte_def)
    with Cons unquote_bytes_escape [of b] show ?thesis by (simp del: unquote_bytes.simps)
  qed
qed simp

lemma quote_byte_ascii: "b < 256 \<Longrightarrow> c \<in> set (quote_byte safe b) \<Longrightarrow> c < 128"
  by (auto simp: quote_byte_def hex_digit_def less_mult_imp_div_less split: if_splits)

lemma unquote_runs_ascii: "\<forall>c \<in> set s. c < 128 \<Longrightarrow> unquote_runs s = utf8_dec (unquote_bytes s)"
proof (cases s)
  case (Cons c t)
  assume a: "\<forall>c \<in> set s. c < 128"
  then have "takeWhile (\<lambda>c. c < 128) (c # t) = c # t" "dropWhile (\<lambda>c. c < 128) t = []"
    using Cons by (auto simp: takeWhile_eq_all_conv)
  moreover have "c < 128" using a Cons by simp
  ultimately show ?thesis using Cons by (simp only: unquote_runs.simps if_True append_Nil2)
qed simp

lemma utf8_dec_ascii: "\<forall>c \<in> set s. c < 128 \<Longrightarrow> utf8_dec s = s"
  by (induction s) auto

lemma unquote_bytes_absent: "37 \<notin> set s \<Longrightarrow> unquote_bytes s = s"
  by (induction s) (simp_all add: unquote_bytes_skip)

lemma unquote_ascii: "\<forall>c \<in> set s. c < 128 \<Longrightarrow> unquote s = utf8_dec (unquote_bytes s)"
  by (simp add: unquote_def unquote_runs_ascii unquote_bytes_absent utf8_dec_ascii)

lemma quote_Inr:
  assumes "quote safe s = Inr t"
  obtains bs where "utf8_encode s = Some bs" "t = concat (map (\<lambda>b. quote_byte safe (unat b)) bs)"
  using assms by (auto simp: quote_def encode_text_def comp_def split: option.splits)

lemma quote_ascii:
  assumes "quote safe s = Inr t"
  shows "\<forall>c \<in> set t. c < 128"
proof -
  obtain bs :: bytes where t: "t = concat (map (\<lambda>b. quote_byte safe (unat b)) bs)" using assms by (rule quote_Inr)
  with byte_unat show ?thesis by (auto dest: quote_byte_ascii)
qed

lemma quote_chars:
  assumes "quote safe s = Inr t" "c \<in> set t"
  shows "unreserved c \<or> c \<in> set safe \<or> c = 37"
proof -
  have hex: "unreserved (hex_digit n)" if "n < 16" for n using that by (auto simp: hex_digit_def unreserved_def)
  obtain bs :: bytes where t: "t = concat (map (\<lambda>b. quote_byte safe (unat b)) bs)" using assms(1) by (rule quote_Inr)
  with assms(2) obtain b :: byte where b: "c \<in> set (quote_byte safe (unat b))" by auto
  with byte_unat [of b] hex [of "unat b div 16"] hex [of "unat b mod 16"] show ?thesis
    by (auto simp: quote_byte_def less_mult_imp_div_less split: if_splits)
qed

text \<open>A character left alone is one of the string's own.\<close>

lemma utf8_char_low: "b \<in> set (utf8_char c) \<Longrightarrow> b < 128 \<Longrightarrow> b = c"
  by (auto simp: utf8_char_def split: if_splits)

lemma utf8_encode_low:
  assumes "utf8_encode s = Some bs" "list_all (\<lambda>c. c < 1114112) s" "b \<in> set bs" "unat b < 128"
  shows "unat b \<in> set s"
proof -
  obtain c n where c: "c \<in> set s" "n \<in> set (utf8_char c)" "b = word_of_nat n"
    using assms(1,3) by (auto simp: utf8_encode_def split: if_splits)
  then have "n < 256" using assms(2) utf8_char_bytes by (auto simp: list_all_iff)
  then have "unat b = n" using c(3) by (simp add: unat_byte_of_nat)
  with c assms(4) utf8_char_low show ?thesis by metis
qed

lemma quote_kept:
  assumes "quote safe s = Inr t" "c \<in> set t" "\<not> unreserved c" "c \<noteq> 37" "list_all (\<lambda>c. c < 1114112) s"
  shows "c \<in> set safe \<and> c \<in> set s"
proof -
  obtain bs where bs: "utf8_encode s = Some bs" "t = concat (map (\<lambda>b. quote_byte safe (unat b)) bs)"
    using assms(1) by (rule quote_Inr)
  have hex: "unreserved (hex_digit n)" if "n < 16" for n using that by (auto simp: hex_digit_def unreserved_def)
  obtain b where b: "b \<in> set bs" "c \<in> set (quote_byte safe (unat b))" using assms(2) bs(2) by auto
  have "unat b div 16 < 16" "unat b mod 16 < 16" using byte_unat [of b] by (auto simp: less_mult_imp_div_less)
  then have "c = unat b" "c < 128"
    using b(2) hex assms(3,4) by (auto simp: quote_byte_def split: if_splits)
  with utf8_encode_low [OF bs(1) assms(5) b(1)] quote_chars [OF assms(1,2)] assms(3,4) show ?thesis by simp
qed

lemma unquote_quote:
  assumes "quote safe s = Inr t" "37 \<notin> set safe" "list_all (\<lambda>c. c < 1114112) s"
  shows "unquote t = s"
proof -
  obtain bs where bs: "utf8_encode s = Some bs" and t: "t = concat (map (quote_byte safe) (map unat bs))"
    using assms(1) by (rule quote_Inr) (simp add: comp_def)
  have "\<forall>b \<in> set (map unat bs). b < 256" using byte_unat by auto
  then have "unquote_bytes t = map unat bs" unfolding t by (rule unquote_quote_bytes [OF assms(2)])
  with unquote_ascii [OF quote_ascii [OF assms(1)]] utf8_decode_encode [OF bs assms(3)] show ?thesis
    by (simp add: utf8_decode_def)
qed

lemma unquote_plus_quote:
  assumes "quote safe s = Inr t" "37 \<notin> set safe" "43 \<notin> set safe" "list_all (\<lambda>c. c < 1114112) s"
  shows "unquote_plus t = s"
proof -
  have "43 \<notin> set t" using quote_chars [OF assms(1), of 43] assms(3) by (auto simp: unreserved_def)
  then have "map (\<lambda>c. if c = 43 then 32 else c) t = t" by (intro map_idI) auto
  with unquote_quote [OF assms(1,2,4)] show ?thesis by (simp add: unquote_plus_def)
qed

subsection \<open>The fields of a query\<close>

text \<open>\<open>parse_qsl(raw, keep_blank_values=True)\<close>.\<close>

definition parse_qsl :: "pystr \<Rightarrow> (pystr \<times> pystr) list" where
  "parse_qsl raw =
     map (\<lambda>item. case partition_at 61 item of (name, _, v) \<Rightarrow> (unquote_plus name, unquote_plus v))
       (filter (\<lambda>item. item \<noteq> []) (split_on 38 raw))"

subsection \<open>Paths\<close>

definition lstrip_slash :: "pystr \<Rightarrow> pystr" where
  "lstrip_slash = dropWhile (\<lambda>c. c = 47)"

definition dot :: pystr where "dot = [46]"
definition dotdot :: pystr where "dotdot = [46, 46]"

text \<open>The components kept by \<open>posixpath.normpath\<close>, newest first.\<close>

fun norm_comps :: "bool \<Rightarrow> pystr list \<Rightarrow> pystr list \<Rightarrow> pystr list" where
  "norm_comps absolute kept [] = kept"
| "norm_comps absolute kept (c # cs) =
     norm_comps absolute
       (if c = [] \<or> c = dot then kept
        else if c \<noteq> dotdot \<or> (\<not> absolute \<and> kept = []) \<or> (kept \<noteq> [] \<and> hd kept = dotdot) then c # kept
        else if kept \<noteq> [] then tl kept
        else kept) cs"

definition normpath :: "pystr \<Rightarrow> pystr" where
  "normpath path =
     (if path = [] then dot
      else
        let slashes = (if take 1 path \<noteq> [47] then 0 else if take 2 path = [47, 47] \<and> take 3 path \<noteq> [47, 47, 47] then 2 else 1);
            comps = rev (norm_comps (slashes \<noteq> 0) [] (split_on 47 path));
            result = replicate slashes 47 @ join [47] comps
        in if result = [] then dot else result)"

text \<open>\<open>posixpath.join\<close> of a path and one more part, \<open>dirname\<close> and \<open>basename\<close>.\<close>

definition path_join :: "pystr \<Rightarrow> pystr \<Rightarrow> pystr" where
  "path_join a b =
     (if take 1 b = [47] \<or> a = [] then b
      else if last a = 47 then a @ b
      else a @ [47] @ b)"

definition path_head :: "pystr \<Rightarrow> pystr" where
  "path_head p = rev (dropWhile (\<lambda>c. c \<noteq> 47) (rev p))"

definition dirname :: "pystr \<Rightarrow> pystr" where
  "dirname p =
     (let head = path_head p
      in if head \<noteq> [] \<and> (\<exists>c \<in> set head. c \<noteq> 47) then rstrip_by (\<lambda>c. c = 47) head else head)"

definition basename :: "pystr \<Rightarrow> pystr" where
  "basename p = rev (takeWhile (\<lambda>c. c \<noteq> 47) (rev p))"

text \<open>A component of a normal absolute path.\<close>

definition plain_name :: "pystr \<Rightarrow> bool" where
  "plain_name c \<longleftrightarrow> c \<noteq> [] \<and> c \<noteq> dot \<and> c \<noteq> dotdot \<and> 47 \<notin> set c"

lemma norm_comps_plain:
  "list_all plain_name kept \<Longrightarrow> (\<forall>c \<in> set cs. 47 \<notin> set c) \<Longrightarrow> list_all plain_name (norm_comps True kept cs)"
proof (induction cs arbitrary: kept)
  case (Cons c cs)
  then show ?case
    by (cases kept) (auto simp: plain_name_def dotdot_def)
qed simp

lemma norm_comps_id: "list_all plain_name cs \<Longrightarrow> norm_comps True kept cs = rev cs @ kept"
  by (induction cs arbitrary: kept) (auto simp: plain_name_def)

lemma norm_comps_append: "norm_comps a kept (xs @ ys) = norm_comps a (norm_comps a kept xs) ys"
  by (induction a kept xs rule: norm_comps.induct) simp_all

text \<open>A rooted path with one slash in front comes out as slash-joined plain names.\<close>

lemma normpath_rooted:
  assumes "take 1 rest \<noteq> [47]"
  shows "normpath (47 # rest) = 47 # join [47] (rev (norm_comps True [] (split_on 47 rest)))"
  using assms by (cases rest) (auto simp: normpath_def Let_def numeral_2_eq_2)

lemma join_plain_no_slash:
  assumes "list_all plain_name cs"
  shows "take 1 (join [47] cs) \<noteq> [47]"
proof (cases cs)
  case (Cons c ds)
  then obtain x xs where "c = x # xs" "x \<noteq> 47" using assms by (cases c) (auto simp: plain_name_def)
  with Cons show ?thesis by (cases ds) auto
qed simp

lemma normpath_plain:
  assumes "list_all plain_name cs"
  shows "normpath (47 # join [47] cs) = 47 # join [47] cs"
proof (cases "cs = []")
  case True
  then show ?thesis by (simp add: normpath_rooted)
next
  case False
  have "split_on 47 (join [47] cs) = cs"
    using False assms by (intro split_on_join) (auto simp: list_all_iff plain_name_def)
  with assms show ?thesis using normpath_rooted [OF join_plain_no_slash [OF assms]] by (simp add: norm_comps_id)
qed

text \<open>What evaluates a concrete call.\<close>

lemmas text_eval = quote_def encode_text_def utf8_encode_def utf8_char_def surrogate_def unat_byte_of_nat quote_byte_def
  unreserved_def hex_digit_def unquote_def hex_value_def unquote_plus_def parse_qsl_def partition_at_def rpartition_at_def
  lstrip_slash_def normpath_def dot_def dotdot_def Let_def lower_def show_int_def show_nat.simps py_int_def strip_def
  strip_by_def unsigned_int_def dec_value_def is_ws_def is_digit_def rstrip_by_def str_def

end
