(* ===== verification/Url.thy ===== *)
theory Url
  imports Urllib
begin

text \<open>
  Storage URLs (\<open>url.py\<close>). A URL is kept in its parts, and its query twice: decoded, for reading,
  and as written, which is what is sent. Shown here: paths come out normal; the written query
  always decodes to the decoded one, and fields nobody edited keep their bytes; an XRootD URL
  written out is read back.
\<close>

subsection \<open>State\<close>

record url =
  u_scheme :: pystr
  u_host :: pystr
  u_port :: int
  u_path :: pystr
  u_username :: pystr
  u_password :: pystr
  u_query :: "(pystr \<times> pystr) list"
  u_raw_query :: pystr

definition DEFAULT_PORT :: int where "DEFAULT_PORT = 1094"

definition ROOT_SCHEMES :: "pystr list" where
  "ROOT_SCHEMES = map str [''root'', ''roots'', ''xroot'', ''xroots'', ''xrootd'']"

definition HTTP_SCHEMES :: "pystr list" where
  "HTTP_SCHEMES = map str [''http'', ''https'', ''dav'', ''davs'', ''webdav'']"

definition S3_SCHEMES :: "pystr list" where "S3_SCHEMES = [str ''s3'']"

definition TLS_SCHEMES :: "pystr list" where
  "TLS_SCHEMES = map str [''roots'', ''xroots'', ''https'', ''davs'', ''s3'']"

definition CGI_SAFE :: pystr where "CGI_SAFE = [58, 47, 64, 44, 59, 61, 33, 36, 39, 40, 41, 42, 126]"

definition is_root :: "url \<Rightarrow> bool" where "is_root u \<longleftrightarrow> u_scheme u \<in> set ROOT_SCHEMES"
definition is_http :: "url \<Rightarrow> bool" where "is_http u \<longleftrightarrow> u_scheme u \<in> set HTTP_SCHEMES"
definition is_s3 :: "url \<Rightarrow> bool" where "is_s3 u \<longleftrightarrow> u_scheme u \<in> set S3_SCHEMES"
definition is_local :: "url \<Rightarrow> bool" where "is_local u \<longleftrightarrow> u_scheme u = str ''file''"
definition use_tls :: "url \<Rightarrow> bool" where "use_tls u \<longleftrightarrow> u_scheme u \<in> set TLS_SCHEMES"

subsection \<open>The query, decoded and as written\<close>

definition qfields :: "pystr \<Rightarrow> pystr list" where
  "qfields raw = filter (\<lambda>f. f \<noteq> []) (split_on 38 raw)"

definition field_name :: "pystr \<Rightarrow> pystr" where
  "field_name f = unquote_plus (fst (partition_at 61 f))"

definition dict_of :: "('k \<times> 'v) list \<Rightarrow> ('k \<times> 'v) list" where
  "dict_of kvs = foldl (\<lambda>d (k, v). dict_set k v d) [] kvs"

definition decode_query :: "pystr \<Rightarrow> (pystr \<times> pystr) list" where
  "decode_query raw = dict_of (parse_qsl raw)"

definition render_field :: "pystr \<Rightarrow> pystr \<Rightarrow> pystr res" where
  "render_field name v =
     rbind (quote CGI_SAFE name) (\<lambda>n. rbind (quote CGI_SAFE v) (\<lambda>w. Inr (n @ [61] @ w)))"

text \<open>\<open>_reconcile\<close>: first the fields as written, then those the query adds.\<close>

fun keep_fields :: "(pystr \<times> pystr) list \<Rightarrow> pystr list \<Rightarrow> (pystr \<times> pystr) list \<Rightarrow> (pystr \<times> pystr) list res" where
  "keep_fields query [] kept = Inr kept"
| "keep_fields query (f # fs) kept =
     (case map_of query (field_name f) of
        None \<Rightarrow> keep_fields query fs kept
      | Some v \<Rightarrow>
          rbind (if map_of (decode_query f) (field_name f) = Some v then Inr f else render_field (field_name f) v) (\<lambda>out.
          keep_fields query fs (dict_pop (field_name f) kept @ [(field_name f, out)])))"

fun add_fields :: "(pystr \<times> pystr) list \<Rightarrow> (pystr \<times> pystr) list \<Rightarrow> (pystr \<times> pystr) list res" where
  "add_fields [] kept = Inr kept"
| "add_fields ((name, v) # query) kept =
     (if name \<in> dict_keys kept then add_fields query kept
      else rbind (render_field name v) (\<lambda>out. add_fields query (kept @ [(name, out)])))"

definition reconcile :: "pystr \<Rightarrow> (pystr \<times> pystr) list \<Rightarrow> pystr res" where
  "reconcile raw query =
     rbind (keep_fields query (qfields raw) []) (\<lambda>kept.
     rbind (add_fields query kept) (\<lambda>kept'. Inr (join [38] (map snd kept'))))"

definition same_dict :: "('k \<times> 'v) list \<Rightarrow> ('k \<times> 'v) list \<Rightarrow> bool" where
  "same_dict d e \<longleftrightarrow> list_all (\<lambda>(k, v). map_of e k = Some v) d \<and> list_all (\<lambda>(k, v). map_of d k = Some v) e"

text \<open>\<open>__post_init__\<close>.\<close>

definition post_init :: "url \<Rightarrow> url res" where
  "post_init u =
     (let u' = u\<lparr>u_scheme := lower (u_scheme u), u_host := lower (u_host u)\<rparr>
      in if same_dict (decode_query (u_raw_query u)) (u_query u) then Inr u'
         else rbind (reconcile (u_raw_query u) (u_query u)) (\<lambda>raw. Inr (u'\<lparr>u_raw_query := raw\<rparr>)))"

subsection \<open>Reading a URL\<close>

definition normalize :: "pystr \<Rightarrow> pystr" where
  "normalize path =
     (if path = [] then [47]
      else
        let trailing = (last path = 47 \<and> length path > 1);
            norm = normpath (47 # lstrip_slash path)
        in if trailing \<and> last norm \<noteq> 47 then norm @ [47] else norm)"

definition default_port :: "pystr \<Rightarrow> int" where
  "default_port scheme =
     (if scheme \<in> set (map str [''https'', ''davs'', ''webdav'', ''s3'']) then 443
      else if scheme \<in> set (map str [''http'', ''dav'']) then 80
      else DEFAULT_PORT)"

definition port_of :: "pystr \<Rightarrow> pystr \<Rightarrow> int res" where
  "port_of v scheme =
     (if v = [] then Inr (default_port scheme) else case py_int v of None \<Rightarrow> Inl ValueError | Some n \<Rightarrow> Inr n)"

definition host_port :: "pystr \<Rightarrow> pystr \<times> pystr" where
  "host_port hostport =
     (if take 1 hostport = [91]
      then case partition_at 93 (drop 1 hostport) of (host, _, port) \<Rightarrow> (host, dropWhile (\<lambda>c. c = 58) port)
      else case partition_at 58 hostport of (host, _, port) \<Rightarrow> (host, port))"

definition authority_of :: "pystr \<Rightarrow> pystr \<times> pystr \<times> pystr" where
  "authority_of authority =
     (case rpartition_at 64 authority of
        (userinfo, True, hostport) \<Rightarrow>
          (case partition_at 58 userinfo of (user, _, password) \<Rightarrow> (unquote user, unquote password, hostport))
      | (_, False, _) \<Rightarrow> ([], [], authority))"

definition path_query :: "bool \<Rightarrow> pystr \<Rightarrow> pystr \<times> pystr \<times> (pystr \<times> pystr) list" where
  "path_query sep tail =
     (case partition_at 63 (if sep then 47 # tail else [47]) of (path, _, cgi) \<Rightarrow> (path, cgi, decode_query cgi))"

text \<open>\<open>_ENCODED_SLASH.split\<close>: the parts between \<open>%2F\<close>s, in either case.\<close>

fun split_slash :: "pystr \<Rightarrow> pystr list" where
  "split_slash (a # b # c # s) =
     (if a = 37 \<and> b = 50 \<and> (c = 70 \<or> c = 102) then [] # split_slash s
      else case split_slash (b # c # s) of [] \<Rightarrow> [[a]] | p # ps \<Rightarrow> (a # p) # ps)"
| "split_slash s = [s]"

definition quote_path :: "pystr \<Rightarrow> pystr res" where
  "quote_path path = rbind (rmap (quote [47]) (split_slash path)) (\<lambda>parts. Inr (join (str ''%2F'') parts))"

definition unquote_path :: "pystr \<Rightarrow> pystr" where
  "unquote_path path = join (str ''%2F'') (map unquote (split_slash path))"

definition file_url :: "pystr \<Rightarrow> url res" where
  "file_url path = post_init \<lparr>u_scheme = str ''file'', u_host = [], u_port = 0, u_path = path, u_username = [],
     u_password = [], u_query = [], u_raw_query = []\<rparr>"

definition parse_remote :: "pystr \<Rightarrow> pystr \<Rightarrow> url res" where
  "parse_remote scheme rest =
     (case partition_at 47 rest of (authority, sep, tail) \<Rightarrow>
      case authority_of authority of (username, password, hostport) \<Rightarrow>
      case host_port hostport of (host, port_s) \<Rightarrow>
      case path_query sep tail of (path_s, cgi, query) \<Rightarrow>
      rbind (port_of port_s scheme) (\<lambda>port.
      post_init \<lparr>u_scheme = scheme, u_host = host, u_port = port,
        u_path = normalize (if scheme \<in> set HTTP_SCHEMES then unquote_path path_s else path_s),
        u_username = username, u_password = password, u_query = query, u_raw_query = cgi\<rparr>))"

text \<open>\<open>parse\<close>; a bare path is made absolute from the working directory.\<close>

definition parse :: "pystr \<Rightarrow> pystr \<Rightarrow> url res" where
  "parse cwd txt =
     (case partition_sub (str ''://'') txt of
        (_, False, _) \<Rightarrow> file_url (normpath (path_join cwd txt))
      | (scheme, True, rest) \<Rightarrow>
          if lower scheme = str ''file'' then file_url (if rest = [] then [47] else rest)
          else parse_remote (lower scheme) rest)"

subsection \<open>Deriving and writing\<close>

definition netloc :: "url \<Rightarrow> pystr" where
  "netloc u = (if 58 \<in> set (u_host u) then [91] @ u_host u @ [93] else u_host u) @ [58] @ show_int (u_port u)"

definition endpoint :: "url \<Rightarrow> pystr \<times> pystr \<times> int" where
  "endpoint u = (u_scheme u, u_host u, u_port u)"

definition url_name :: "url \<Rightarrow> pystr" where
  "url_name u = basename (rstrip_by (\<lambda>c. c = 47) (u_path u))"

definition with_path :: "pystr \<Rightarrow> url \<Rightarrow> url res" where
  "with_path path u = post_init (u\<lparr>u_path := normalize path\<rparr>)"

definition parent :: "url \<Rightarrow> url res" where
  "parent u = (let d = dirname (rstrip_by (\<lambda>c. c = 47) (u_path u)) in with_path (if d = [] then [47] else d) u)"

definition url_join :: "pystr list \<Rightarrow> url \<Rightarrow> url res" where
  "url_join parts u = with_path (foldl path_join (u_path u) parts) u"

definition with_query :: "(pystr \<times> pystr) list \<Rightarrow> url \<Rightarrow> url res" where
  "with_query params u = post_init (u\<lparr>u_query := foldl (\<lambda>d (k, v). dict_set k v d) (u_query u) params\<rparr>)"

definition without_query :: "url \<Rightarrow> url res" where
  "without_query u = post_init (u\<lparr>u_query := [], u_raw_query := []\<rparr>)"

definition cgi_except :: "pystr list \<Rightarrow> url \<Rightarrow> pystr" where
  "cgi_except names u = join [38] (filter (\<lambda>f. field_name f \<notin> set names) (qfields (u_raw_query u)))"

definition path_with_cgi :: "url \<Rightarrow> pystr" where
  "path_with_cgi u = (if u_raw_query u = [] then u_path u else u_path u @ [63] @ u_raw_query u)"

definition show_auth :: "url \<Rightarrow> pystr res" where
  "show_auth u =
     (if u_username u = [] then Inr []
      else rbind (quote [] (u_username u)) (\<lambda>user.
           if u_password u = [] then Inr (user @ [64])
           else rbind (quote [] (u_password u)) (\<lambda>pw. Inr (user @ [58] @ pw @ [64]))))"

definition show_url :: "url \<Rightarrow> pystr res" where
  "show_url u =
     (if is_local u then Inr (str ''file://'' @ u_path u)
      else rbind (show_auth u) (\<lambda>auth.
           rbind (if is_http u then quote_path (u_path u) else Inr (u_path u)) (\<lambda>path.
             let base = u_scheme u @ str ''://'' @ auth @ (if is_s3 u then u_host u else netloc u)
                          @ (if is_root u then [47, 47] else [47]) @ lstrip_slash path
             in Inr (if u_raw_query u = [] then base else base @ [63] @ u_raw_query u))))"

definition http_url :: "url \<Rightarrow> pystr res" where
  "http_url u =
     rbind (quote_path (u_path u)) (\<lambda>path.
       let scheme = (case map_of [(str ''dav'', str ''http''), (str ''davs'', str ''https''), (str ''webdav'', str ''https'')] (u_scheme u) of
                       None \<Rightarrow> u_scheme u | Some s \<Rightarrow> s);
           base = scheme @ str ''://'' @ netloc u @ path
       in Inr (if u_raw_query u = [] then base else base @ [63] @ u_raw_query u))"

subsection \<open>Paths come out normal\<close>

definition normal_path :: "pystr \<Rightarrow> bool" where
  "normal_path p \<longleftrightarrow>
     (\<exists>cs. list_all plain_name cs \<and> (p = 47 # join [47] cs \<or> cs \<noteq> [] \<and> p = 47 # join [47] cs @ [47]))"

lemma lstrip_no_slash: "take 1 (lstrip_slash p) \<noteq> [47]"
  by (induction p) (auto simp: lstrip_slash_def)

lemma normpath_lstrip:
  obtains cs where "list_all plain_name cs" "normpath (47 # lstrip_slash p) = 47 # join [47] cs"
proof
  let ?cs = "rev (norm_comps True [] (split_on 47 (lstrip_slash p)))"
  have "list_all plain_name (norm_comps True [] (split_on 47 (lstrip_slash p)))"
    by (rule norm_comps_plain) (auto dest: split_on_elems)
  then show "list_all plain_name ?cs" by simp
  show "normpath (47 # lstrip_slash p) = 47 # join [47] ?cs" by (rule normpath_rooted [OF lstrip_no_slash])
qed

lemma last_join: "cs \<noteq> [] \<Longrightarrow> last cs \<noteq> [] \<Longrightarrow> join sep cs \<noteq> [] \<and> last (join sep cs) = last (last cs)"
  by (induction sep cs rule: join.induct) (auto simp: last_append)

lemma last_plain:
  assumes "list_all plain_name cs" "cs \<noteq> []"
  shows "join [47] cs \<noteq> []" "last (join [47] cs) \<noteq> 47"
proof -
  have "plain_name (last cs)" using assms by (simp add: list_all_iff)
  then have "last cs \<noteq> []" "last (last cs) \<noteq> 47" by (auto simp: plain_name_def dest: last_in_set)
  with last_join [OF assms(2), of "[47]"] show "join [47] cs \<noteq> []" "last (join [47] cs) \<noteq> 47" by auto
qed

lemma normal_normalize: "normal_path (normalize p)"
proof (cases "p = []")
  case True
  then show ?thesis by (auto simp: normalize_def normal_path_def intro!: exI [of _ "[]"])
next
  case False
  obtain cs where cs: "list_all plain_name cs" "normpath (47 # lstrip_slash p) = 47 # join [47] cs" by (rule normpath_lstrip)
  show ?thesis
  proof (cases "cs = []")
    case True
    with cs False show ?thesis by (auto simp: normalize_def normal_path_def Let_def intro!: exI [of _ "[]"])
  next
    case nonempty: False
    with cs False show ?thesis by (auto simp: normalize_def normal_path_def Let_def intro!: exI [of _ cs])
  qed
qed

lemma lstrip_plain: "list_all plain_name cs \<Longrightarrow> lstrip_slash (join [47] cs @ t) = join [47] cs @ t \<or> cs = []"
  using join_plain_no_slash [of cs] last_plain [of cs] by (cases "join [47] cs") (auto simp: lstrip_slash_def)

lemma split_on_snoc: "split_on c (xs @ [c]) = split_on c xs @ [[]]"
  by (induction xs) (auto split: list.splits)

lemma normpath_plain_slash:
  assumes "list_all plain_name cs" "cs \<noteq> []"
  shows "normpath (47 # join [47] cs @ [47]) = 47 # join [47] cs"
proof -
  have "take 1 (join [47] cs @ [47]) \<noteq> [47]"
    using join_plain_no_slash [OF assms(1)] last_plain(1) [OF assms] by (cases "join [47] cs") auto
  moreover have "split_on 47 (join [47] cs) = cs"
    using assms by (intro split_on_join) (auto simp: list_all_iff plain_name_def)
  ultimately show ?thesis
    using assms(1) by (simp add: normpath_rooted split_on_snoc norm_comps_append norm_comps_id)
qed

text \<open>However many slashes a normal path is written with, it is read as itself.\<close>

lemma normalize_normal:
  assumes "normal_path p"
  shows "normalize (replicate n 47 @ p) = p"
proof -
  obtain cs where cs: "list_all plain_name cs" "p = 47 # join [47] cs \<or> cs \<noteq> [] \<and> p = 47 # join [47] cs @ [47]"
    using assms by (auto simp: normal_path_def)
  have strip: "lstrip_slash (replicate n 47 @ p) = lstrip_slash (tl p)"
    using cs(2) by (induction n) (auto simp: lstrip_slash_def)
  show ?thesis
  proof (cases "cs = []")
    case True
    then have "p = [47]" using cs(2) by simp
    moreover have "normpath [47] = [47]" using normpath_plain [of "[]"] by simp
    ultimately show ?thesis using strip by (simp add: normalize_def Let_def) (simp add: lstrip_slash_def)
  next
    case False
    have l: "lstrip_slash (tl p) = tl p" using cs lstrip_plain [OF cs(1), of "[]"] lstrip_plain [OF cs(1), of "[47]"] False by auto
    note ends = last_plain [OF cs(1) False]
    from cs(2) show ?thesis
    proof
      assume "p = 47 # join [47] cs"
      with ends l strip normpath_plain [OF cs(1)] show ?thesis by (simp add: normalize_def Let_def)
    next
      assume "cs \<noteq> [] \<and> p = 47 # join [47] cs @ [47]"
      with ends l strip normpath_plain_slash [OF cs(1) False] show ?thesis by (simp add: normalize_def Let_def)
    qed
  qed
qed

subsection \<open>The written query follows the decoded one\<close>

definition field_pair :: "pystr \<Rightarrow> pystr \<times> pystr" where
  "field_pair f = (field_name f, unquote_plus (snd (snd (partition_at 61 f))))"

definition is_field :: "pystr \<Rightarrow> bool" where
  "is_field f \<longleftrightarrow> f \<noteq> [] \<and> 38 \<notin> set f"

lemma qfields_are_fields: "f \<in> set (qfields raw) \<Longrightarrow> is_field f"
  by (auto simp: qfields_def is_field_def dest: split_on_elems)

lemma qfields_join: "list_all is_field fs \<Longrightarrow> qfields (join [38] fs) = fs"
proof (cases "fs = []")
  case False
  assume f: "list_all is_field fs"
  then have "split_on 38 (join [38] fs) = fs" using False by (intro split_on_join) (auto simp: list_all_iff is_field_def)
  with f show ?thesis by (simp add: qfields_def list_all_iff is_field_def)
qed (simp add: qfields_def)

lemma parse_qsl_fields: "parse_qsl raw = map field_pair (qfields raw)"
  by (simp add: parse_qsl_def qfields_def field_pair_def field_name_def case_prod_unfold)

lemma map_of_dict_of: "map_of (dict_of kvs) = map_of (rev kvs)"
proof -
  have "map_of (foldl (\<lambda>d (k, v). dict_set k v d) d kvs) = map_of d ++ map_of (rev kvs)" for d
    by (induction kvs arbitrary: d) (auto simp: map_of_dict_set)
  from this [of "[]"] show ?thesis by (simp add: dict_of_def)
qed

lemma decode_query_fields: "map_of (decode_query raw) = map_of (rev (map field_pair (qfields raw)))"
  by (simp add: decode_query_def map_of_dict_of parse_qsl_fields)

lemma decode_one: "is_field f \<Longrightarrow> map_of (decode_query f) = [field_name f \<mapsto> snd (field_pair f)]"
  using qfields_join [of "[f]"] by (simp add: decode_query_fields field_pair_def)

lemma field_name_pair: "field_name f = fst (field_pair f)"
  by (simp add: field_pair_def)

definition plain_text :: "pystr \<Rightarrow> bool" where
  "plain_text s \<longleftrightarrow> list_all (\<lambda>c. c < 1114112) s"

lemma render_field_pair:
  assumes "render_field name v = Inr out" "61 \<notin> set name" "plain_text name" "plain_text v"
  shows "is_field out \<and> field_pair out = (name, v)"
proof -
  obtain n w where nw: "quote CGI_SAFE name = Inr n" "quote CGI_SAFE v = Inr w" "out = n @ 61 # w"
    using assms(1) by (auto simp: render_field_def rbind_eq_Inr)
  note kept = quote_kept [OF nw(1) _ _ _ assms(3) [unfolded plain_text_def]] quote_kept [OF nw(2) _ _ _ assms(4) [unfolded plain_text_def]]
  have chars: "38 \<notin> set n" "38 \<notin> set w" "61 \<notin> set n"
    using kept [of 38] kept(1) [of 61] assms(2) by (auto simp: unreserved_def CGI_SAFE_def)
  have un: "unquote_plus n = name" "unquote_plus w = v"
    using nw assms(3,4) by (auto intro!: unquote_plus_quote simp: CGI_SAFE_def plain_text_def)
  have "partition_at 61 out = (n, True, w)" using nw(3) chars(3) by (simp add: partition_at_append)
  with un chars nw(3) show ?thesis by (auto simp: is_field_def field_pair_def field_name_def)
qed

definition faithful :: "(pystr \<times> pystr) list \<Rightarrow> (pystr \<times> pystr) list \<Rightarrow> bool" where
  "faithful query kept \<longleftrightarrow> distinct (map fst kept) \<and>
     (\<forall>(n, out) \<in> set kept. is_field out \<and> (\<exists>v. map_of query n = Some v \<and> field_pair out = (n, v)))"

definition renderable :: "(pystr \<times> pystr) list \<Rightarrow> bool" where
  "renderable query \<longleftrightarrow> distinct (map fst query) \<and> (\<forall>(n, v) \<in> set query. 61 \<notin> set n \<and> plain_text n \<and> plain_text v)"

lemma faithful_add:
  assumes "faithful query kept" "map_of query n = Some v" "is_field out" "field_pair out = (n, v)" "n \<notin> dict_keys kept"
  shows "faithful query (kept @ [(n, out)])"
  using assms by (auto simp: faithful_def dict_keys_def)

lemma faithful_pop: "faithful query kept \<Longrightarrow> faithful query (dict_pop n kept)"
  by (auto simp: faithful_def distinct_dict_pop) (auto simp: dict_pop_def)

lemma keep_fields_faithful:
  assumes "keep_fields query fs kept = Inr kept'" "renderable query" "list_all is_field fs" "faithful query kept"
  shows "faithful query kept'"
  using assms
proof (induction query fs kept rule: keep_fields.induct)
  case (2 query f fs kept)
  show ?case
  proof (cases "map_of query (field_name f)")
    case None
    with 2 show ?thesis by simp
  next
    case (Some v)
    let ?out = "if map_of (decode_query f) (field_name f) = Some v then Inr f else render_field (field_name f) v"
    obtain out where out: "?out = Inr out" "keep_fields query fs (dict_pop (field_name f) kept @ [(field_name f, out)]) = Inr kept'"
      using 2(3) Some by (auto simp: rbind_eq_Inr)
    have f: "is_field f" using 2(5) by simp
    have "(field_name f, v) \<in> set query" using Some by (rule map_of_SomeD)
    then have rend: "61 \<notin> set (field_name f)" "plain_text (field_name f)" "plain_text v" using 2(4) by (auto simp: renderable_def)
    have "is_field out \<and> field_pair out = (field_name f, v)"
    proof (cases "map_of (decode_query f) (field_name f) = Some v")
      case True
      with out f decode_one [OF f] show ?thesis by (auto simp: field_pair_def)
    next
      case False
      with out render_field_pair [OF _ rend] show ?thesis by simp
    qed
    with 2(6) Some have "faithful query (dict_pop (field_name f) kept @ [(field_name f, out)])"
      by (intro faithful_add faithful_pop) auto
    with 2(2) [OF Some out(1) out(2) 2(4)] 2(5) show ?thesis by simp
  qed
qed simp

lemma add_fields_faithful:
  assumes "add_fields todo kept = Inr kept'" "renderable query" "set todo \<subseteq> set query" "faithful query kept"
  shows "faithful query kept' \<and> dict_keys kept' = dict_keys kept \<union> dict_keys todo \<and> set kept \<subseteq> set kept'"
  using assms
proof (induction todo kept rule: add_fields.induct)
  case (2 name v todo kept)
  show ?case
  proof (cases "name \<in> dict_keys kept")
    case True
    with 2(1,3-6) show ?thesis by (auto simp: dict_keys_def)
  next
    case False
    obtain out where out: "render_field name v = Inr out" "add_fields todo (kept @ [(name, out)]) = Inr kept'"
      using 2(3) False by (auto simp: rbind_eq_Inr)
    have q: "61 \<notin> set name" "plain_text name" "plain_text v" "map_of query name = Some v"
      using 2(4,5) by (auto simp: renderable_def)
    from render_field_pair [OF out(1) q(1-3)] have "faithful query (kept @ [(name, out)])"
      using 2(6) q(4) False by (intro faithful_add) auto
    with 2(2) [OF False out(1) out(2)] 2(4,5) show ?thesis by (auto simp: dict_keys_def)
  qed
qed simp

text \<open>\<open>_reconcile\<close>: one field per name of the query, each decoding to its value.\<close>

lemma reconcile_fields:
  assumes "reconcile raw query = Inr raw'" "renderable query"
  obtains kept kept' where "keep_fields query (qfields raw) [] = Inr kept" "add_fields query kept = Inr kept'"
    "faithful query kept'" "dict_keys kept' = dict_keys query" "qfields raw' = map snd kept'" "set kept \<subseteq> set kept'"
proof -
  obtain kept kept' where k: "keep_fields query (qfields raw) [] = Inr kept" "add_fields query kept = Inr kept'"
    "raw' = join [38] (map snd kept')"
    using assms(1) by (auto simp: reconcile_def rbind_eq_Inr)
  have f: "faithful query kept"
    by (rule keep_fields_faithful [OF k(1) assms(2)]) (auto simp: faithful_def list_all_iff dest: qfields_are_fields)
  from add_fields_faithful [OF k(2) assms(2) subset_refl f]
  have a: "faithful query kept'" "dict_keys kept' = dict_keys kept \<union> dict_keys query" "set kept \<subseteq> set kept'" by auto
  have "dict_keys kept \<subseteq> dict_keys query" using f by (force simp: faithful_def dict_keys_def dest: map_of_SomeD)
  moreover have "qfields raw' = map snd kept'"
    using a(1) unfolding k(3) by (intro qfields_join) (auto simp: faithful_def list_all_iff)
  ultimately show ?thesis using that k a by blast
qed

lemma faithful_pairs: "faithful query kept \<Longrightarrow> map fst (map field_pair (map snd kept)) = map fst kept"
  by (auto simp: faithful_def)

lemma map_of_rev_distinct: "distinct (map fst ps) \<Longrightarrow> map_of (rev ps) = map_of ps"
proof (induction ps)
  case (Cons p ps)
  then have "fst p \<notin> dom (map_of ps)" by (simp add: dom_map_of_conv_image_fst)
  with Cons show ?case by (cases p) (auto simp: map_add_def fun_eq_iff domIff split: option.splits)
qed simp

lemma reconcile_decodes:
  assumes "reconcile raw query = Inr raw'" "renderable query"
  shows "map_of (decode_query raw') = map_of query"
proof -
  obtain kept' where k: "faithful query kept'" "dict_keys kept' = dict_keys query" "qfields raw' = map snd kept'"
    using assms by (rule reconcile_fields)
  let ?ps = "map field_pair (map snd kept')"
  have d: "distinct (map fst ?ps)" using k(1) by (simp only: faithful_pairs) (simp add: faithful_def)
  have "map_of (decode_query raw') = map_of ?ps"
    unfolding decode_query_fields k(3) by (rule map_of_rev_distinct [OF d])
  moreover have "map_of ?ps n = map_of query n" for n
  proof (cases "n \<in> dict_keys query")
    case True
    then have "n \<in> fst ` set kept'" using k(2) by (simp add: dict_keys_def)
    then obtain out where o: "(n, out) \<in> set kept'" by auto
    with k(1) obtain v where v: "map_of query n = Some v" "field_pair out = (n, v)" by (auto simp: faithful_def)
    have "(n, v) \<in> set ?ps" using o v(2) by force
    with d v(1) show ?thesis by simp
  next
    case False
    then have "n \<notin> fst ` set ?ps" using k(2) faithful_pairs [OF k(1)] by (metis dict_keys_def list.set_map)
    then have "map_of ?ps n = None" by (simp only: map_of_eq_None_iff) simp
    moreover have "map_of query n = None" using False by (simp add: map_of_eq_None_iff dict_keys_def)
    ultimately show ?thesis by simp
  qed
  ultimately show ?thesis by auto
qed

lemma same_dict_map: "same_dict d e \<Longrightarrow> distinct (map fst e) \<Longrightarrow> map_of d = map_of e"
proof (rule ext)
  fix k
  assume s: "same_dict d e" "distinct (map fst e)"
  show "map_of d k = map_of e k"
  proof (cases "map_of d k")
    case None
    have "k \<notin> fst ` set e" using s(1) None by (auto simp: same_dict_def list_all_iff)
    then have "map_of e k = None" by (simp add: map_of_eq_None_iff)
    with None show ?thesis by simp
  next
    case (Some v)
    then have "(k, v) \<in> set d" by (rule map_of_SomeD)
    with s(1) Some show ?thesis by (auto simp: same_dict_def list_all_iff)
  qed
qed

lemma keep_fields_last:
  assumes "keep_fields query (pre @ f # post) kept = Inr kept'" "is_field f" "\<forall>g \<in> set post. field_name g \<noteq> field_name f"
    and "map_of query (field_name f) = Some (snd (field_pair f))"
  shows "(field_name f, f) \<in> set kept'"
proof -
  have stays: "(field_name f, f) \<in> set kept'"
    if "keep_fields query gs k = Inr kept'" "(field_name f, f) \<in> set k" "\<forall>g \<in> set gs. field_name g \<noteq> field_name f" for gs k
    using that
    by (induction query gs k rule: keep_fields.induct) (auto simp: rbind_eq_Inr dict_pop_def split: option.splits if_splits)
  have dec: "map_of (decode_query f) (field_name f) = Some (snd (field_pair f))" using decode_one [OF assms(2)] by simp
  show ?thesis using assms(1)
  proof (induction pre arbitrary: kept)
    case Nil
    with dec assms(4) have "keep_fields query post (dict_pop (field_name f) kept @ [(field_name f, f)]) = Inr kept'" by simp
    from stays [OF this _ assms(3)] show ?case by simp
  next
    case (Cons g pre)
    then show ?case by (auto simp: rbind_eq_Inr split: option.splits if_splits)
  qed
qed

lemma post_init_keeps:
  "post_init u = Inr u' \<Longrightarrow>
   u_scheme u' = lower (u_scheme u) \<and> u_host u' = lower (u_host u) \<and> u_port u' = u_port u \<and> u_path u' = u_path u \<and>
   u_username u' = u_username u \<and> u_password u' = u_password u \<and> u_query u' = u_query u"
  by (auto simp: post_init_def Let_def rbind_eq_Inr split: if_splits)

lemma normalize_stripped:
  assumes "normal_path p"
  shows "normalize (47 # 47 # lstrip_slash p) = p"
proof -
  obtain cs where cs: "list_all plain_name cs" "p = 47 # join [47] cs \<or> cs \<noteq> [] \<and> p = 47 # join [47] cs @ [47]"
    using assms by (auto simp: normal_path_def)
  have "47 # lstrip_slash p = p"
    using cs lstrip_plain [OF cs(1), of "[]"] lstrip_plain [OF cs(1), of "[47]"] by (auto simp: lstrip_slash_def)
  with normalize_normal [OF assms, of 1] show ?thesis by simp
qed

lemma distinct_dict_of: "distinct (map fst (dict_of kvs))"
proof -
  have "distinct (map fst d) \<Longrightarrow> distinct (map fst (foldl (\<lambda>d (k, v). dict_set k v d) d kvs))" for d
    by (induction kvs arbitrary: d) (auto simp: distinct_dict_set split: prod.splits)
  then show ?thesis by (simp add: dict_of_def)
qed

lemma same_dict_refl: "same_dict (decode_query raw) (decode_query raw)"
  using distinct_dict_of [of "parse_qsl raw"] by (auto simp: same_dict_def list_all_iff decode_query_def)

lemmas url_eval = text_eval qfields_def field_name_def dict_of_def decode_query_def render_field_def CGI_SAFE_def reconcile_def
  same_dict_def post_init_def normalize_def default_port_def port_of_def host_port_def authority_of_def path_query_def
  quote_path_def unquote_path_def parse_def parse_remote_def ROOT_SCHEMES_def HTTP_SCHEMES_def S3_SCHEMES_def is_root_def
  is_http_def is_s3_def is_local_def netloc_def show_auth_def show_url_def with_query_def DEFAULT_PORT_def

subsection \<open>Properties\<close>

definition sample_url :: url where
  "sample_url = \<lparr>u_scheme = str ''root'', u_host = str ''::1'', u_port = 1094, u_path = str ''/d/f'', u_username = str ''a@b'',
     u_password = [], u_query = [(str ''x'', str ''1 2''), (str ''y'', str ''3'')], u_raw_query = str ''x=1%202&y=3''\<rparr>"

text \<open>C0: every path a parsed URL has is absolute and normal: one slash, then names joined by single
  slashes, none of them empty, \<open>.\<close> or \<open>..\<close>, with at most one trailing slash; a path already normal is left as it is.\<close>

theorem parsed_path_normal:
  assumes "parse cwd txt = Inr u" "\<not> is_local u"
  shows "normal_path (u_path u) \<and> normalize (u_path u) = u_path u"
proof -
  have "u_scheme v = str ''file''" if "file_url p = Inr v" for p v
    using that by (auto simp: file_url_def lower_def str_def dest: post_init_keeps)
  then obtain scheme rest where "parse_remote (lower scheme) rest = Inr u"
    using assms by (auto simp: parse_def is_local_def split: prod.splits bool.splits if_splits)
  then have "normal_path (u_path u)"
    using normal_normalize by (auto simp: parse_remote_def rbind_eq_Inr split: prod.splits dest!: post_init_keeps)
  with normalize_normal [of "u_path u" 0] show ?thesis by simp
qed

theorem parsed_path_normal_witness:
  "\<exists>u. parse [] (str ''root://h//a/../b//c/'') = Inr u \<and> normal_path (u_path u) \<and> u_path u = str ''/b/c/''"
proof -
  let ?p = "parse [] (str ''root://h//a/../b//c/'')"
  have "(case ?p of Inl _ \<Rightarrow> False | Inr u \<Rightarrow> \<not> is_local u \<and> u_path u = str ''/b/c/'')" by (simp add: url_eval sample_url_def)
  then obtain u where u: "?p = Inr u" "\<not> is_local u" "u_path u = str ''/b/c/''" by (auto split: sum.splits)
  from parsed_path_normal [OF u(1,2)] u show ?thesis by blast
qed

text \<open>C0: the query as it is sent and the query as it is read never drift apart. Whatever is edited, the
  written form of a URL decodes to its decoded form, and a field nobody changed, if it is the last of
  its name, is still there byte for byte.\<close>

theorem query_kept_in_step:
  assumes "post_init u = Inr u'" "renderable (u_query u)"
  shows "u_query u' = u_query u \<and> map_of (decode_query (u_raw_query u')) = map_of (u_query u) \<and>
    (\<forall>pre f post. qfields (u_raw_query u) = pre @ f # post \<and> (\<forall>g \<in> set post. field_name g \<noteq> field_name f) \<and>
       map_of (u_query u) (field_name f) = map_of (decode_query f) (field_name f) \<longrightarrow> f \<in> set (qfields (u_raw_query u')))"
proof (cases "same_dict (decode_query (u_raw_query u)) (u_query u)")
  case True
  then have "u' = u\<lparr>u_scheme := lower (u_scheme u), u_host := lower (u_host u)\<rparr>" using assms(1) by (simp add: post_init_def Let_def)
  with same_dict_map [OF True] assms(2) show ?thesis by (simp add: renderable_def)
next
  case False
  then obtain raw where r: "reconcile (u_raw_query u) (u_query u) = Inr raw"
    "u' = u\<lparr>u_scheme := lower (u_scheme u), u_host := lower (u_host u), u_raw_query := raw\<rparr>"
    using assms(1) by (auto simp: post_init_def Let_def rbind_eq_Inr)
  obtain kept kept' where k: "keep_fields (u_query u) (qfields (u_raw_query u)) [] = Inr kept"
    "qfields raw = map snd kept'" "set kept \<subseteq> set kept'"
    using r(1) assms(2) by (rule reconcile_fields)
  have "f \<in> set (qfields raw)"
    if f: "qfields (u_raw_query u) = pre @ f # post" "\<forall>g \<in> set post. field_name g \<noteq> field_name f"
      "map_of (u_query u) (field_name f) = map_of (decode_query f) (field_name f)" for pre f post
  proof -
    have "is_field f" using qfields_are_fields [of f "u_raw_query u"] f(1) by simp
    then have "(field_name f, f) \<in> set kept"
      using keep_fields_last [OF k(1) [unfolded f(1)] _ f(2)] f(3) decode_one by simp
    with k(2,3) show ?thesis by force
  qed
  with reconcile_decodes [OF r(1) assms(2)] r(2) show ?thesis by simp
qed

theorem query_kept_in_step_witness:
  "\<exists>u. with_query [(str ''y'', str ''4'')] sample_url = Inr u \<and> str ''x=1%202'' \<in> set (qfields (u_raw_query u))"
proof -
  let ?u = "sample_url\<lparr>u_query := foldl (\<lambda>d (k, v). dict_set k v d) (u_query sample_url) [(str ''y'', str ''4'')]\<rparr>"
  have "(case post_init ?u of Inl _ \<Rightarrow> False | Inr u \<Rightarrow> True)" by (simp add: url_eval sample_url_def)
  then obtain u where u: "post_init ?u = Inr u" by (auto split: sum.splits)
  have "renderable (u_query ?u)" by (simp add: renderable_def plain_text_def sample_url_def str_def)
  moreover have "qfields (u_raw_query ?u) = [] @ str ''x=1%202'' # [str ''y=3'']"
    "\<forall>g \<in> set [str ''y=3'']. field_name g \<noteq> field_name (str ''x=1%202'')"
    "map_of (u_query ?u) (field_name (str ''x=1%202'')) = map_of (decode_query (str ''x=1%202'')) (field_name (str ''x=1%202''))"
    by (simp_all add: url_eval sample_url_def)
  ultimately have "str ''x=1%202'' \<in> set (qfields (u_raw_query u))" using query_kept_in_step [OF u] by blast
  with u show ?thesis by (auto simp: with_query_def)
qed

text \<open>A URL that has a written form: an XRootD scheme, a host that fits the authority, a path that is
  normal and has no query in it, a password only with a user, and the query it was parsed from.\<close>

definition writable :: "url \<Rightarrow> bool" where
  "writable u \<longleftrightarrow> is_root u \<and> lower (u_host u) = u_host u \<and> set (u_host u) \<inter> {47, 64, 91, 93} = {} \<and>
     0 \<le> u_port u \<and> u_port u < 65536 \<and> normal_path (u_path u) \<and> 63 \<notin> set (u_path u) \<and>
     (u_username u = [] \<longrightarrow> u_password u = []) \<and> list_all scalar (u_username u) \<and> list_all scalar (u_password u) \<and>
     u_query u = decode_query (u_raw_query u)"

lemma quote_scalar: "list_all scalar s \<Longrightarrow> \<exists>t. quote safe s = Inr t"
  by (auto simp: quote_def encode_text_def utf8_encode_def list_all_iff list_ex_iff scalar_def)

lemma scalar_plain: "list_all scalar s \<Longrightarrow> list_all (\<lambda>c. c < 1114112) s"
  by (auto simp: list_all_iff scalar_def)

text \<open>A quoted name has no separator in it, and is read back.\<close>

lemma quoted_name:
  assumes "quote [] s = Inr t" "list_all scalar s"
  shows "unquote t = s" "set t \<inter> {47, 58, 64} = {}"
proof -
  show "unquote t = s" using assms by (intro unquote_quote [of "[]"]) (auto dest: scalar_plain)
  show "set t \<inter> {47, 58, 64} = {}" using quote_chars [OF assms(1)] by (force simp: unreserved_def)
qed

lemma partition_sub_first: "x \<notin> set s \<Longrightarrow> partition_sub (x # sep) (s @ (x # sep) @ t) = (s, True, t)"
  by (induction s) auto

lemma rpartition_at_append: "c \<notin> set ys \<Longrightarrow> rpartition_at c (xs @ c # ys) = (xs, True, ys)"
proof -
  assume c: "c \<notin> set ys"
  then have "takeWhile (\<lambda>x. x \<noteq> c) (rev ys @ c # rev xs) = rev ys" "dropWhile (\<lambda>x. x \<noteq> c) (rev ys @ c # rev xs) = c # rev xs"
    by (simp_all add: takeWhile_append dropWhile_append)
  then show ?thesis by (simp add: rpartition_at_def)
qed

lemma show_auth_parsed:
  assumes "writable u" "64 \<notin> set hp"
  obtains auth where "show_auth u = Inr auth" "47 \<notin> set auth" "authority_of (auth @ hp) = (u_username u, u_password u, hp)"
proof -
  have w: "list_all scalar (u_username u)" "list_all scalar (u_password u)" "u_username u = [] \<longrightarrow> u_password u = []"
    using assms(1) by (simp_all add: writable_def)
  show ?thesis
  proof (cases "u_username u = []")
    case True
    with w(3) that [of "[]"] assms(2) show ?thesis by (simp add: show_auth_def authority_of_def rpartition_at_def)
  next
    case False
    obtain user where user: "quote [] (u_username u) = Inr user" using quote_scalar [OF w(1)] by blast
    note un = quoted_name [OF user w(1)]
    show ?thesis
    proof (cases "u_password u = []")
      case True
      have "authority_of ((user @ [64]) @ hp) = (u_username u, u_password u, hp)"
        using un True rpartition_at_append [OF assms(2), of user]
        by (auto simp: authority_of_def partition_at_absent unquote_def)
      then show ?thesis using that [of "user @ [64]"] un True False user by (auto simp: show_auth_def)
    next
      case pw: False
      obtain p where p: "quote [] (u_password u) = Inr p" using quote_scalar [OF w(2)] by blast
      note pn = quoted_name [OF p w(2)]
      have "authority_of ((user @ [58] @ p @ [64]) @ hp) = (u_username u, u_password u, hp)"
        using un pn rpartition_at_append [OF assms(2), of "user @ 58 # p"]
        by (auto simp: authority_of_def partition_at_append)
      then show ?thesis using that [of "user @ [58] @ p @ [64]"] un pn pw False user p by (auto simp: show_auth_def)
    qed
  qed
qed

lemma show_nat_length: "n < 10 ^ Suc k \<Longrightarrow> length (show_nat n) \<le> Suc k"
proof (induction k arbitrary: n)
  case 0
  then show ?case by (simp add: show_nat.simps [of n])
next
  case (Suc k)
  then have "n div 10 < 10 ^ Suc k" by (simp add: div_less_iff_less_mult mult.commute)
  from Suc.IH [OF this] show ?case by (simp add: show_nat.simps [of n])
qed

lemma netloc_parsed:
  assumes "writable u"
  shows "set (netloc u) \<inter> {47, 64} = {}" "host_port (netloc u) = (u_host u, show_int (u_port u))"
    "port_of (show_int (u_port u)) scheme = Inr (u_port u)"
proof -
  note w = assms [unfolded writable_def]
  obtain n where n: "u_port u = int n" "n < 10 ^ Suc 4" using w by (cases "u_port u") auto
  have s: "show_int (u_port u) = show_nat n" "show_nat n \<noteq> []" "\<forall>c \<in> set (show_nat n). is_digit c"
    using n show_nat_digits [of n] by (auto simp: show_int_def list_all_iff)
  have "length (show_nat n) \<le> 4300" using show_nat_length [OF n(2)] by simp
  with s n py_int_show_nat show "port_of (show_int (u_port u)) scheme = Inr (u_port u)" by (simp add: port_of_def)
  show "set (netloc u) \<inter> {47, 64} = {}" using w s by (auto simp: netloc_def is_digit_def)
  show "host_port (netloc u) = (u_host u, show_int (u_port u))"
  proof (cases "58 \<in> set (u_host u)")
    case True
    have "dropWhile (\<lambda>c. c = 58) (58 # show_nat n) = show_nat n" using s by (cases "show_nat n") (auto simp: is_digit_def)
    with True w s show ?thesis
      using partition_at_append [of 93 "u_host u" "58 # show_nat n"] by (auto simp: netloc_def host_port_def)
  next
    case False
    have "take 1 (u_host u @ 58 # show_nat n) \<noteq> [91]" using w by (cases "u_host u") auto
    with False s show ?thesis by (auto simp: netloc_def host_port_def partition_at_append)
  qed
qed

text \<open>C0: an XRootD URL written out and read back is the same URL, whatever its user, password, host, port,
  path and query, an IPv6 host and a query spelled unusually included.\<close>

theorem url_roundtrip:
  assumes "writable u"
  shows "\<exists>txt. show_url u = Inr txt \<and> parse cwd txt = Inr u"
proof -
  note w = assms [unfolded writable_def]
  note hp = netloc_parsed [OF assms]
  obtain auth where auth: "show_auth u = Inr auth" "47 \<notin> set auth" "authority_of (auth @ netloc u) = (u_username u, u_password u, netloc u)"
    using show_auth_parsed [OF assms] hp(1) by blast
  have scheme: "\<not> is_local u" "\<not> is_http u" "\<not> is_s3 u" "lower (u_scheme u) = u_scheme u" "58 \<notin> set (u_scheme u)"
    "u_scheme u \<noteq> str ''file''" "u_scheme u \<notin> set HTTP_SCHEMES"
    using w by (auto simp: is_root_def is_local_def is_http_def is_s3_def ROOT_SCHEMES_def HTTP_SCHEMES_def S3_SCHEMES_def lower_def)
  obtain rest where rest: "u_path u = 47 # rest" using w by (auto simp: normal_path_def)
  let ?cgi = "if u_raw_query u = [] then [] else 63 # u_raw_query u"
  let ?tail = "47 # lstrip_slash (u_path u) @ ?cgi"
  let ?txt = "u_scheme u @ str ''://'' @ (auth @ netloc u) @ 47 # ?tail"
  have shown: "show_url u = Inr ?txt" using w auth(1) scheme by (simp add: show_url_def Let_def)
  have authority: "partition_at 47 ((auth @ netloc u) @ 47 # ?tail) = (auth @ netloc u, True, ?tail)"
    using auth(2) hp(1) by (intro partition_at_append) auto
  have sub: "63 \<notin> set (47 # 47 # lstrip_slash (u_path u))" using w by (auto simp: lstrip_slash_def dest: set_dropWhileD)
  have query: "u_query u = decode_query (u_raw_query u)" using w by blast
  have path: "path_query True ?tail = (47 # 47 # lstrip_slash (u_path u), u_raw_query u, u_query u)"
  proof (cases "u_raw_query u = []")
    case True
    then show ?thesis using query partition_at_absent [OF sub] by (simp add: path_query_def)
  next
    case False
    then show ?thesis using query partition_at_append [OF sub, of "u_raw_query u"] by (simp add: path_query_def)
  qed
  have "normalize (47 # 47 # lstrip_slash (u_path u)) = u_path u"
    using normalize_stripped w by blast
  moreover have "same_dict (decode_query (u_raw_query u)) (u_query u)"
    using w same_dict_refl by simp
  ultimately have "parse_remote (u_scheme u) ((auth @ netloc u) @ 47 # ?tail) = Inr u"
    using w scheme auth(3) hp(2,3) authority path by (simp add: parse_remote_def post_init_def Let_def)
  then have "parse cwd ?txt = Inr u"
    using partition_sub_first [OF scheme(5), of "[47, 47]"] scheme by (simp add: parse_def)
  with shown show ?thesis by blast
qed

theorem url_roundtrip_witness:
  "show_url sample_url = Inr (str ''root://a%40b@[::1]:1094//d/f?x=1%202&y=3'') \<and>
   parse [] (str ''root://a%40b@[::1]:1094//d/f?x=1%202&y=3'') = Inr sample_url"
proof -
  have s: "show_url sample_url = Inr (str ''root://a%40b@[::1]:1094//d/f?x=1%202&y=3'')" by (simp add: url_eval sample_url_def)
  have "normal_path (u_path sample_url)"
    unfolding normal_path_def by (rule exI [of _ "[str ''d'', str ''f'']"]) (simp add: sample_url_def plain_name_def dot_def dotdot_def)
  moreover have "is_root sample_url" "lower (u_host sample_url) = u_host sample_url" "set (u_host sample_url) \<inter> {47, 64, 91, 93} = {}"
    "0 \<le> u_port sample_url" "u_port sample_url < 65536" "63 \<notin> set (u_path sample_url)"
    "u_username sample_url = [] \<longrightarrow> u_password sample_url = []" "list_all scalar (u_username sample_url)"
    "list_all scalar (u_password sample_url)" "u_query sample_url = decode_query (u_raw_query sample_url)"
    by (simp_all add: url_eval sample_url_def scalar_def)
  ultimately have "writable sample_url" unfolding writable_def by blast
  from url_roundtrip [OF this, of "[]"] s show ?thesis by simp
qed

text \<open>Where the two directions part: an HTTP path whose name has an escaped slash in it, and a query field
  whose name has an equals sign in it.\<close>

lemma escaped_slash_collapses:
  "rbind (parse [] (str ''https://h/a%252Fb'')) show_url = Inr (str ''https://h:443/a%2Fb'')"
  by (simp add: url_eval sample_url_def)

lemma equals_in_name_lost:
  "rbind (rbind (parse [] (str ''root://h//f'')) (with_query [(str ''a=b'', str ''c'')])) (\<lambda>u. Inr (decode_query (u_raw_query u)))
     = Inr [(str ''a'', str ''b=c'')]"
  by (simp add: url_eval sample_url_def)

end
