(* ===== verification/Rewrite.thy ===== *)
theory Rewrite
  imports Url Requests Responses
begin

text \<open>
  What a redirect does to the request it answered (\<open>session/_rewrite.py\<close>): the fields that name
  paths, the token of the hop put on them, a path the redirect moved the file to, and the
  \<open>tried=\<close> list a manager is told of. Shown here: a later hop's token replaces the one before it
  and the caller's own query survives; \<open>tried=\<close> names every failed server once, in order, and
  leaves the other parameters alone.
\<close>

subsection \<open>Path fields\<close>

datatype pathval = PStr pystr | PList "pystr list"

type_synonym path_fields = "(string \<times> pathval) list"

text \<open>\<open>_PATH_FIELDS\<close>, by class; \<open>Symlink\<close> comes before the \<open>Mv\<close> it derives from.\<close>

definition field_names :: "request \<Rightarrow> string list" where
  "field_names req =
     (case req of
        Symlink _ _ \<Rightarrow> [''dst'']
      | Mv _ _ \<Rightarrow> [''src'', ''dst'']
      | Link _ _ \<Rightarrow> [''src'', ''dst'']
      | Statx _ \<Rightarrow> [''paths'']
      | Prepare _ _ _ _ _ \<Rightarrow> [''paths'']
      | _ \<Rightarrow> [''path''])"

text \<open>\<open>getattr(request, name, None)\<close> where it is a string or a list, and \<open>setattr\<close>.\<close>

definition get_field :: "request \<Rightarrow> string \<Rightarrow> pathval option" where
  "get_field req name =
     (case req of
        Stat p _ _ \<Rightarrow> if name = ''path'' then Some (PStr p) else None
      | Dirlist p _ \<Rightarrow> if name = ''path'' then Some (PStr p) else None
      | Locate p _ \<Rightarrow> if name = ''path'' then Some (PStr p) else None
      | Mkdir p _ _ \<Rightarrow> if name = ''path'' then Some (PStr p) else None
      | Rm p \<Rightarrow> if name = ''path'' then Some (PStr p) else None
      | Rmdir p \<Rightarrow> if name = ''path'' then Some (PStr p) else None
      | Readlink p \<Rightarrow> if name = ''path'' then Some (PStr p) else None
      | Setattr p _ _ _ _ _ \<Rightarrow> if name = ''path'' then Some (PStr p) else None
      | Chmod p _ \<Rightarrow> if name = ''path'' then Some (PStr p) else None
      | Truncate p _ _ \<Rightarrow> if name = ''path'' then Some (PStr p) else None
      | Open p _ _ _ _ \<Rightarrow> if name = ''path'' then Some (PStr p) else None
      | Mv s d \<Rightarrow> if name = ''src'' then Some (PStr s) else if name = ''dst'' then Some (PStr d) else None
      | Link s d \<Rightarrow> if name = ''src'' then Some (PStr s) else if name = ''dst'' then Some (PStr d) else None
      | Symlink s d \<Rightarrow> if name = ''src'' then Some (PStr s) else if name = ''dst'' then Some (PStr d) else None
      | Statx ps \<Rightarrow> if name = ''paths'' then Some (PList ps) else None
      | Prepare ps _ _ _ _ \<Rightarrow> if name = ''paths'' then Some (PList ps) else None
      | _ \<Rightarrow> None)"

fun set_field :: "string \<Rightarrow> pathval \<Rightarrow> request \<Rightarrow> request" where
  "set_field name (PStr v) req =
     (case req of
        Stat p o1 h \<Rightarrow> if name = ''path'' then Stat v o1 h else req
      | Dirlist p o1 \<Rightarrow> if name = ''path'' then Dirlist v o1 else req
      | Locate p o1 \<Rightarrow> if name = ''path'' then Locate v o1 else req
      | Mkdir p m k \<Rightarrow> if name = ''path'' then Mkdir v m k else req
      | Rm p \<Rightarrow> if name = ''path'' then Rm v else req
      | Rmdir p \<Rightarrow> if name = ''path'' then Rmdir v else req
      | Readlink p \<Rightarrow> if name = ''path'' then Readlink v else req
      | Setattr p f a m u g \<Rightarrow> if name = ''path'' then Setattr v f a m u g else req
      | Chmod p m \<Rightarrow> if name = ''path'' then Chmod v m else req
      | Truncate p n h \<Rightarrow> if name = ''path'' then Truncate v n h else req
      | Open p o1 m o2 h \<Rightarrow> if name = ''path'' then Open v o1 m o2 h else req
      | Mv s d \<Rightarrow> if name = ''src'' then Mv v d else if name = ''dst'' then Mv s v else req
      | Link s d \<Rightarrow> if name = ''src'' then Link v d else if name = ''dst'' then Link s v else req
      | Symlink s d \<Rightarrow> if name = ''src'' then Symlink v d else if name = ''dst'' then Symlink s v else req
      | _ \<Rightarrow> req)"
| "set_field name (PList vs) req =
     (case req of
        Statx ps \<Rightarrow> if name = ''paths'' then Statx vs else req
      | Prepare ps o1 p o2 x \<Rightarrow> if name = ''paths'' then Prepare vs o1 p o2 x else req
      | _ \<Rightarrow> req)"

definition path_fields_of :: "request \<Rightarrow> path_fields" where
  "path_fields_of req =
     (if (case req of Prepare _ options _ _ _ \<Rightarrow> options AND kXR_cancel \<noteq> 0 | _ \<Rightarrow> False) then []
      else [(name, the (get_field req name)). name \<leftarrow> field_names req, get_field req name \<noteq> None])"

definition with_token :: "pystr \<Rightarrow> pystr \<Rightarrow> pystr" where
  "with_token token path =
     (if token = [] \<or> path = [] then path else path @ (if 63 \<in> set path then [38] else [63]) @ token)"

fun on_paths :: "(pystr \<Rightarrow> pystr) \<Rightarrow> pathval \<Rightarrow> pathval" where
  "on_paths f (PStr p) = PStr (f p)"
| "on_paths f (PList ps) = PList (map f ps)"

definition set_fields :: "(pystr \<Rightarrow> pystr) \<Rightarrow> path_fields \<Rightarrow> request \<Rightarrow> request" where
  "set_fields f original req = fold (\<lambda>(name, v). set_field name (on_paths f v)) original req"

definition retarget :: "request \<Rightarrow> path_fields \<Rightarrow> pystr \<Rightarrow> request" where
  "retarget req original token = set_fields (with_token token) original req"

subsection \<open>Where a redirect points\<close>

definition as_url :: "pystr \<Rightarrow> pystr" where
  "as_url host = (case partition_sub (str ''://'') host of (_, found, _) \<Rightarrow> if found then host else str ''root://'' @ host)"

definition redirect_url :: "pystr \<Rightarrow> url \<Rightarrow> pystr \<Rightarrow> url res" where
  "redirect_url cwd base host =
     rbind (parse cwd (as_url host)) (\<lambda>target.
       if u_scheme target \<notin> set ROOT_SCHEMES then Inl ProtocolError
       else if u_host target = [] then Inl ProtocolError
       else post_init (base\<lparr>u_scheme := u_scheme target, u_host := u_host target, u_port := u_port target\<rparr>))"

definition redirect_path :: "pystr \<Rightarrow> redirect_info \<Rightarrow> pystr res" where
  "redirect_path cwd target =
     (if 0 \<le> rd_port target then Inr []
      else
        let u = as_url (rd_host target);
            path = snd (snd (partition_at 47 (snd (snd (partition_sub (str ''://'') u)))))
        in if path = [] then Inr [] else rbind (parse cwd u) (\<lambda>v. Inr (u_path v)))"

text \<open>\<open>_repath\<close>: the last field that is a path, its query kept.\<close>

fun repath_first :: "pystr \<Rightarrow> path_fields \<Rightarrow> path_fields" where
  "repath_first path [] = []"
| "repath_first path ((name, v) # rest) =
     (case v of
        PStr p \<Rightarrow> if p \<noteq> [] then (name, PStr (path @ dropWhile (\<lambda>c. c \<noteq> 63) p)) # rest else (name, v) # repath_first path rest
      | PList _ \<Rightarrow> (name, v) # repath_first path rest)"

definition repath :: "pystr \<Rightarrow> path_fields \<Rightarrow> path_fields" where
  "repath path original = rev (repath_first path (rev original))"

fun base_path :: "path_fields \<Rightarrow> pystr" where
  "base_path [] = []"
| "base_path ((name, v) # rest) =
     (case v of PStr p \<Rightarrow> if p \<noteq> [] then fst (partition_at 63 p) else base_path rest | PList _ \<Rightarrow> base_path rest)"

subsection \<open>Telling a manager what was tried\<close>

definition TRIED_REASONS :: "(int \<times> pystr) list" where
  "TRIED_REASONS = [(3011, str ''enoent''), (3007, str ''ioerr''), (3005, str ''fserr''), (3012, str ''srverr'')]"

definition LOST :: pystr where "LOST = str ''srverr''"

definition tried :: "pystr list \<Rightarrow> pystr \<Rightarrow> pystr list" where
  "tried hosts host = (if host \<in> set hosts then hosts else hosts @ [host])"

fun sort_tried :: "pystr list \<Rightarrow> pystr list \<Rightarrow> pystr list \<Rightarrow> pystr list \<times> pystr list" where
  "sort_tried kept earlier [] = (kept, earlier)"
| "sort_tried kept earlier (item # items) =
     (case partition_at 61 item of (key, _, v) \<Rightarrow>
        if key = str ''tried'' then sort_tried kept (earlier @ filter (\<lambda>h. h \<noteq> []) (split_on 44 v)) items
        else if key \<noteq> str ''triedrc'' then sort_tried (kept @ [item]) earlier items
        else sort_tried kept earlier items)"

definition without_tried :: "pystr \<Rightarrow> pystr list \<times> pystr list" where
  "without_tried query = sort_tried [] [] (qfields query)"

definition with_tried :: "pystr list \<Rightarrow> pystr \<Rightarrow> pystr \<Rightarrow> pystr" where
  "with_tried hosts reason path =
     (if hosts = [] \<or> path = [] then path
      else case partition_at 63 path of (base, _, query) \<Rightarrow>
           case without_tried query of (kept, earlier) \<Rightarrow>
             let names = foldl tried [] (earlier @ hosts);
                 items = kept @ [str ''tried='' @ join [44] names] @ (if reason = [] then [] else [str ''triedrc='' @ reason])
             in base @ [63] @ join [38] items)"

subsection \<open>Later hops do not pile up\<close>

text \<open>A snapshot of the request: its path fields, whatever their values by now.\<close>

definition is_PStr :: "pathval \<Rightarrow> bool" where
  "is_PStr v \<longleftrightarrow> (case v of PStr _ \<Rightarrow> True | PList _ \<Rightarrow> False)"

definition snapshot_of :: "request \<Rightarrow> path_fields \<Rightarrow> bool" where
  "snapshot_of req original \<longleftrightarrow> map (map_prod id is_PStr) original = map (map_prod id is_PStr) (path_fields_of req)"

lemma path_fields_cases:
  obtains "path_fields_of req = []"
  | name v where "path_fields_of req = [(name, v)]" "get_field req name = Some v"
  | s d where "path_fields_of req = [(''src'', PStr s), (''dst'', PStr d)]" "get_field req ''src'' = Some (PStr s)" "get_field req ''dst'' = Some (PStr d)"
proof (cases "\<exists>ps options p o2 x. req = Prepare ps options p o2 x")
  case True
  then obtain ps options p o2 x where req: "req = Prepare ps options p o2 x" by blast
  show thesis
  proof (cases "options AND kXR_cancel = 0")
    case True
    then have "path_fields_of req = [(''paths'', PList ps)]" by (simp add: req path_fields_of_def field_names_def get_field_def)
    then show thesis by (rule that(2)) (simp add: req get_field_def)
  qed (use that(1) in \<open>simp add: req path_fields_of_def\<close>)
next
  case False
  then show thesis
    by (cases req) (use that in \<open>auto simp: path_fields_of_def field_names_def get_field_def\<close>)
qed

lemma snapshot_cases:
  assumes "snapshot_of req original"
  obtains "original = []" "path_fields_of req = []"
  | name v w where "original = [(name, v)]" "path_fields_of req = [(name, w)]" "is_PStr v = is_PStr w"
  | s d s' d' where "original = [(''src'', PStr s), (''dst'', PStr d)]" "path_fields_of req = [(''src'', PStr s'), (''dst'', PStr d')]"
proof (rule path_fields_cases [of req])
  assume "path_fields_of req = []"
  with assms show thesis using that(1) by (simp add: snapshot_of_def)
next
  fix name w
  assume p: "path_fields_of req = [(name, w)]"
  with assms obtain v where "original = [(name, v)]" "is_PStr v = is_PStr w"
    by (cases original) (auto simp: snapshot_of_def)
  with p show thesis using that(2) by blast
next
  fix s' d'
  assume p: "path_fields_of req = [(''src'', PStr s'), (''dst'', PStr d')]"
  with assms obtain v w where "original = [(''src'', v), (''dst'', w)]" "is_PStr v" "is_PStr w"
    by (cases original) (auto simp: snapshot_of_def is_PStr_def)
  with p show thesis using that(3) by (auto simp: is_PStr_def split: pathval.splits)
qed

lemma set_field_same: "get_field req name = Some v \<Longrightarrow> set_field name v req = req"
  by (cases v; cases req) (auto simp: get_field_def split: if_splits)

lemma set_field_again: "is_PStr v = is_PStr w \<Longrightarrow> set_field name v (set_field name w req) = set_field name v req"
  by (cases v; cases w; cases req) (simp_all add: is_PStr_def)

lemma set_field_pair:
  "set_field ''dst'' (PStr d') (set_field ''src'' (PStr s') (set_field ''dst'' (PStr d) (set_field ''src'' (PStr s) req))) =
   set_field ''dst'' (PStr d') (set_field ''src'' (PStr s') req)"
  by (cases req) simp_all

lemma is_PStr_on_paths [simp]: "is_PStr (on_paths f v) = is_PStr v"
  by (cases v) (simp_all add: is_PStr_def)

lemma set_fields_again:
  assumes "snapshot_of req original" "snapshot_of req earlier"
  shows "set_fields f original (set_fields g earlier req) = set_fields f original req"
  using assms(1)
proof (cases rule: snapshot_cases)
  case 1
  with assms(2) have "earlier = []" by (simp add: snapshot_of_def)
  with 1 show ?thesis by (simp add: set_fields_def)
next
  case (2 name v w)
  with assms(2) obtain x where "earlier = [(name, x)]" "is_PStr x = is_PStr w"
    by (cases rule: snapshot_cases [OF assms(2)]) auto
  with 2 show ?thesis by (simp add: set_fields_def set_field_again del: set_field.simps)
next
  case (3 s d s' d')
  with assms(2) obtain x y where "earlier = [(''src'', PStr x), (''dst'', PStr y)]"
    by (cases rule: snapshot_cases [OF assms(2)]) auto
  with 3 show ?thesis by (simp add: set_fields_def set_field_pair del: set_field.simps)
qed

lemma on_paths_id: "on_paths id v = v"
  by (cases v) auto

lemma snapshot_self [simp]: "snapshot_of req (path_fields_of req)"
  by (simp add: snapshot_of_def)

lemma set_fields_id: "set_fields id (path_fields_of req) req = req"
  by (rule path_fields_cases [of req]) (auto simp: set_fields_def on_paths_id set_field_same simp del: set_field.simps)

lemma with_token_Nil: "with_token [] = id"
  by (auto simp: with_token_def)

text \<open>C0: a request sent on by several redirectors in turn carries the token of the last one only.
  What a hop makes of a request depends on the caller's paths and that hop's token, not on the
  tokens or lists earlier hops put on it; an empty token gives the request back as the caller
  made it.\<close>

theorem last_token_only:
  assumes "snapshot_of req original" "snapshot_of req earlier"
  shows "retarget (set_fields g earlier req) original token = retarget req original token \<and>
    retarget (set_fields g earlier req) (path_fields_of req) [] = req"
  using set_fields_again [OF assms] set_fields_again [OF snapshot_self assms(2)]
  by (simp add: retarget_def with_token_Nil set_fields_id)

theorem last_token_only_witness:
  "retarget (retarget (Mv (str ''/a?x=1'') (str ''/b'')) (path_fields_of (Mv (str ''/a?x=1'') (str ''/b''))) (str ''t=1''))
     (path_fields_of (Mv (str ''/a?x=1'') (str ''/b''))) (str ''t=2'') = Mv (str ''/a?x=1&t=2'') (str ''/b?t=2'')"
  unfolding retarget_def [of "Mv (str ''/a?x=1'') (str ''/b'')" _ "str ''t=1''"]
    last_token_only [OF snapshot_self snapshot_self, THEN conjunct1]
  by (simp add: retarget_def path_fields_of_def field_names_def get_field_def set_fields_def with_token_def str_def)

subsection \<open>The list of what was tried\<close>

text \<open>One parameter as \<open>_without_tried\<close> reads it.\<close>

definition key_of :: "pystr \<Rightarrow> pystr" where "key_of item = fst (partition_at 61 item)"

definition hosts_in :: "pystr \<Rightarrow> pystr list" where
  "hosts_in item = (if key_of item = str ''tried'' then filter (\<lambda>h. h \<noteq> []) (split_on 44 (snd (snd (partition_at 61 item)))) else [])"

definition other_param :: "pystr \<Rightarrow> bool" where
  "other_param item \<longleftrightarrow> key_of item \<notin> {str ''tried'', str ''triedrc''}"

lemma sort_tried_eq: "sort_tried kept earlier items = (kept @ filter other_param items, earlier @ concat (map hosts_in items))"
proof (induction kept earlier items rule: sort_tried.induct)
  case (2 kept earlier item items)
  then show ?case
    by (cases "partition_at 61 item") (auto simp: other_param_def hosts_in_def key_of_def str_def)
qed simp

lemma foldl_tried: "distinct acc \<Longrightarrow> distinct (foldl tried acc hs) \<and> set (foldl tried acc hs) = set acc \<union> set hs \<and> (\<exists>new. foldl tried acc hs = acc @ new)"
proof (induction hs arbitrary: acc)
  case (Cons h hs)
  then have "distinct (tried acc h)" by (simp add: tried_def)
  from Cons.IH [OF this] show ?case by (auto simp: tried_def split: if_splits)
qed simp

text \<open>A name that can stand in the list.\<close>

definition is_host :: "pystr \<Rightarrow> bool" where
  "is_host h \<longleftrightarrow> h \<noteq> [] \<and> 44 \<notin> set h \<and> 38 \<notin> set h \<and> 63 \<notin> set h"

lemma join_mem: "x \<in> set xss \<Longrightarrow> set x \<subseteq> set (join sep xss)"
  by (induction sep xss rule: join.induct) auto

lemma hosts_in_hosts: "is_field item \<Longrightarrow> 63 \<notin> set item \<Longrightarrow> h \<in> set (hosts_in item) \<Longrightarrow> is_host h"
proof -
  assume i: "is_field item" "63 \<notin> set item" "h \<in> set (hosts_in item)"
  let ?v = "snd (snd (partition_at 61 item))"
  have h: "h \<in> set (split_on 44 ?v)" "h \<noteq> []" using i(3) by (auto simp: hosts_in_def split: if_splits)
  have "set ?v \<subseteq> set item" by (auto simp: partition_at_def dest: in_set_dropD set_dropWhileD)
  moreover have "set h \<subseteq> set ?v" using join_mem [OF h(1), of "[44]"] by (simp add: join_split_on)
  moreover have "44 \<notin> set h" using h(1) by (rule split_on_elems)
  ultimately show ?thesis using i(1,2) h(2) by (auto simp: is_host_def is_field_def)
qed

lemma without_tried_eq: "without_tried query = (filter other_param (qfields query), concat (map hosts_in (qfields query)))"
  by (simp add: without_tried_def sort_tried_eq)

lemma partition_at_key: "61 \<notin> set k \<Longrightarrow> partition_at 61 (k @ 61 # v) = (k, True, v)"
  by (rule partition_at_append)

lemma hosts_in_tried:
  assumes "list_all is_host names" "names \<noteq> []"
  shows "hosts_in (str ''tried='' @ join [44] names) = names" "\<not> other_param (str ''tried='' @ join [44] names)"
proof -
  have k: "partition_at 61 (str ''tried'' @ 61 # join [44] names) = (str ''tried'', True, join [44] names)"
    by (rule partition_at_key) (simp add: str_def)
  have s: "str ''tried='' @ join [44] names = str ''tried'' @ 61 # join [44] names" by (simp add: str_def)
  have j: "split_on 44 (join [44] names) = names"
    using assms by (intro split_on_join) (auto simp: list_all_iff is_host_def)
  show "hosts_in (str ''tried='' @ join [44] names) = names"
    unfolding s hosts_in_def key_of_def k using assms(1) j by (simp add: list_all_iff is_host_def)
  show "\<not> other_param (str ''tried='' @ join [44] names)" unfolding s other_param_def key_of_def k by simp
qed

lemma hosts_in_triedrc: "hosts_in (str ''triedrc='' @ reason) = []" "\<not> other_param (str ''triedrc='' @ reason)"
proof -
  have k: "partition_at 61 (str ''triedrc'' @ 61 # reason) = (str ''triedrc'', True, reason)"
    by (rule partition_at_key) (simp add: str_def)
  have s: "str ''triedrc='' @ reason = str ''triedrc'' @ 61 # reason" by (simp add: str_def)
  show "hosts_in (str ''triedrc='' @ reason) = []" unfolding s hosts_in_def key_of_def k by (simp add: str_def)
  show "\<not> other_param (str ''triedrc='' @ reason)" unfolding s other_param_def key_of_def k by simp
qed

lemma hosts_in_other: "other_param item \<Longrightarrow> hosts_in item = []"
  by (simp add: other_param_def hosts_in_def)

lemma join_hosts: "list_all is_host names \<Longrightarrow> 38 \<notin> set (join [44] names)"
  by (induction "[44 :: nat]" names rule: join.induct) (auto simp: is_host_def)

text \<open>C0: a manager asked again is told of every server that failed, once each and in the order they
  failed, those the caller's own query already named first, with the last reason and no other; the
  path and the caller's other parameters are as they were, in their order.\<close>

theorem tried_list_merged:
  assumes "path \<noteq> []" "hosts \<noteq> []" "list_all is_host hosts" "38 \<notin> set reason" "63 \<notin> set query"
    and "partition_at 63 path = (base, sep, query)" "partition_at 63 (with_tried hosts reason path) = (base', sep', query')"
  shows "base' = base \<and> filter other_param (qfields query') = filter other_param (qfields query) \<and>
    concat (map hosts_in (qfields query')) = foldl tried [] (concat (map hosts_in (qfields query)) @ hosts) \<and>
    filter (\<lambda>i. key_of i = str ''triedrc'') (qfields query') = (if reason = [] then [] else [str ''triedrc='' @ reason])"
proof -
  let ?kept = "filter other_param (qfields query)"
  let ?names = "foldl tried [] (concat (map hosts_in (qfields query)) @ hosts)"
  let ?rc = "if reason = [] then [] else [str ''triedrc='' @ reason]"
  let ?items = "?kept @ [str ''tried='' @ join [44] ?names] @ ?rc"
  have names: "set ?names = set (concat (map hosts_in (qfields query)) @ hosts)"
    using foldl_tried [of "[]" "concat (map hosts_in (qfields query)) @ hosts"] by simp
  have sub: "63 \<notin> set item" if "item \<in> set (qfields query)" for item
    using that assms(5) join_mem [of item "split_on 38 query" "[38]"] by (auto simp: qfields_def join_split_on)
  have hs: "list_all is_host ?names" "?names \<noteq> []"
    using names assms(2,3) hosts_in_hosts [OF qfields_are_fields sub] by (auto simp: list_all_iff)
  have base: "63 \<notin> set base" "with_tried hosts reason path = base @ 63 # join [38] ?items"
    using assms(1,2,6) by (auto simp: partition_at_def with_tried_def without_tried_eq Let_def dest: set_takeWhileD)
  then have q: "base' = base" "query' = join [38] ?items" using assms(7) partition_at_append [OF base(1)] by auto
  have "list_all is_field ?items"
    using join_hosts [OF hs(1)] assms(4) by (auto simp: list_all_iff is_field_def str_def dest: qfields_are_fields [unfolded is_field_def])
  then have f: "qfields query' = ?items" unfolding q(2) by (rule qfields_join)
  have o: "concat (map hosts_in ?kept) = []" "filter (\<lambda>i. key_of i = str ''triedrc'') ?kept = []"
    by (auto simp: hosts_in_other other_param_def)
  have "key_of (str ''triedrc='' @ reason) = str ''triedrc''" "key_of (str ''tried='' @ join [44] ?names) \<noteq> str ''triedrc''"
    by (simp_all add: key_of_def partition_at_def str_def)
  then show ?thesis
    using f q o hosts_in_tried [OF hs] hosts_in_triedrc by auto
qed

theorem tried_list_merged_witness:
  "concat (map hosts_in (qfields (snd (snd (partition_at 63 (with_tried [str ''b'', str ''c''] (str ''ioerr'') (str ''/f?tried=a,b&x=1&triedrc=old'')))))))
     = [str ''a'', str ''b'', str ''c'']"
proof -
  let ?p = "str ''/f?tried=a,b&x=1&triedrc=old''"
  let ?t = "with_tried [str ''b'', str ''c''] (str ''ioerr'') ?p"
  have p: "partition_at 63 ?p = (str ''/f'', True, str ''tried=a,b&x=1&triedrc=old'')" by (simp add: partition_at_def str_def)
  obtain b s q where t: "partition_at 63 ?t = (b, s, q)" by (cases "partition_at 63 ?t") auto
  have "concat (map hosts_in (qfields q)) = foldl tried [] (concat (map hosts_in (qfields (str ''tried=a,b&x=1&triedrc=old''))) @ [str ''b'', str ''c''])"
    using tried_list_merged [OF _ _ _ _ _ p t] by (simp add: is_host_def str_def)
  also have "\<dots> = [str ''a'', str ''b'', str ''c'']"
    by (simp add: qfields_def hosts_in_def key_of_def partition_at_def str_def tried_def)
  finally show ?thesis using t by simp
qed

end
