(* ===== verification/Spec2Isabelle.thy ===== *)
theory Spec2Isabelle
  imports End_To_End Bulk_Writes Rewrite
begin

text \<open>
  xrdclient: a model of the protocol core of the XRootD client in \<open>src/src/xrdclient\<close> and of
  the file transfers built on it.

  \<^bold>\<open>The program.\<close> A request class (\<open>proto/_requests_*.py\<close>) knows its sixteen bytes of
  parameters and its payload; \<open>proto/frames.py\<close> frames it under a stream id; the machine of a
  connection (\<open>proto/machine.py\<close>) hands out the ids, brings the session up (protocol, TLS, login,
  authentication, or binding to another session as a data path), queues frames to send, cuts the
  bytes it is given into replies, decodes them with \<open>proto/responses.py\<close> and reports events. It
  signs what the server's security level asks (\<open>crypto/sigver.py\<close>) and climbs the ladder of
  credentials (\<open>auth/__init__.py\<close>). Around it, sessions move bytes between machine and socket,
  a router follows redirects, and an open file (\<open>client/_reading.py\<close>, \<open>client/_writing.py\<close>) turns
  reads and writes of any size into requests of bounded size. \<open>testing/_server\<close> is the server the
  package carries for its own tests; it is the reference the transfers are proved against.

  \<^bold>\<open>The theories.\<close>
  \<^item> \<open>Prelude\<close>, \<open>Py_Text\<close>, \<open>Utf8\<close>: bytes, results, big-endian integers, Python slices, strings as
    code points and the UTF-8 codec with its error handlers. \<open>Errors\<close>: the exceptions of
    \<open>errors.py\<close> as a datatype; every fallible definition returns \<open>exn + 'a\<close>.
  \<^item> \<open>Wire_Buffer\<close> (\<open>proto/buffer.py\<close>): the bounds-checked reader and the writer. The locale
    \<open>field_codec\<close> is the contract of one field (what is written is read back, and a short buffer is
    refused), interpreted for every width and for the file handle; \<open>codec_pair\<close> joins two fields
    into one by a sublocale. \<open>Wire_Constants\<close>: \<open>proto/constants.py\<close>.
  \<^item> \<open>Requests\<close>, \<open>Frames\<close>: one constructor per request class, parameters, payloads, fast layouts,
    encoding. The fast layouts are the field-by-field writer's, and a frame is read back by the
    layout of the wire.
  \<^item> \<open>Value_Types\<close>, \<open>Responses\<close>: what the decoders return, and the decoders; which errors they may
    raise, and round trips with what a server prints.
  \<^item> \<open>Sigver\<close>, \<open>Auth\<close>: signing and credential selection. SHA-256, Blowfish and the mechanisms are
    parameters.
  \<^item> \<open>Machine_State\<close>, \<open>Machine_Inbound\<close>: the whole machine as a record and one definition per
    method. \<open>Machine_Invariants\<close> states, as the locale \<open>stream_invariant\<close>, what a predicate must
    satisfy at the places where the machine touches its streams, and proves from it that every call
    preserves the predicate; it is interpreted for the stream-id pool and for the size of answers.
    \<open>Machine_Security\<close>: TLS before login. \<open>Machine_Framing\<close>: independence from segmentation.
    \<open>Machine_Streams\<close>: the life of a request.
  \<^item> \<open>Pages\<close> (\<open>crypto/crc32c.py\<close>) and \<open>Vector\<close> (\<open>client/_vector.py\<close>): paged and vector I/O as pure
    functions, with CRC-32C as a parameter.
  \<^item> \<open>File_Transfer\<close> (\<open>client/_reading.py\<close>, \<open>client/_writing.py\<close>): the transfers of an open file over
    any executor of requests. The locale \<open>remote_file\<close> is what they need of it (a read answers the
    bytes of the file, a write stores them); \<open>vector_file\<close> and \<open>paged_file\<close> add the vector and paged
    requests, and \<open>data_plane\<close> is what the readahead needs of the plane it reads from.
  \<^item> \<open>Test_Server\<close> (\<open>testing/_server\<close>): the handlers of the data requests and the faults they inject.
  \<^item> \<open>Exchange\<close>: the executor made of the machine and the server. A request is submitted, its
    buffers are served, the replies are fed back and the event is read. It satisfies the three
    locales, so the transfers hold over the encoder, the machine, the decoders and the server
    composed. \<open>End_To_End\<close> states them.

  \<^bold>\<open>What is shown.\<close> Stream ids are never shared; bytes may arrive in any segments; every request is
  answered once; no answer is larger than what was asked; nothing is sent in the clear that must
  not be; signatures verify and their numbers increase; decoders raise protocol errors only; a
  listing cannot name a path outside its directory; reads, vector reads and iteration return the
  file, writes are read back, and a paged write ends with the data stored or with an integrity
  error, however the server cuts or refuses. Some theorems state defects: a leaked stream id, a
  negative trailer length, a repeated rank, a misleading attribute.

  \<^bold>\<open>Bounds.\<close> Every loop is a total function with a measure on the bytes or requests left, but
  \<open>iter_blocks\<close>, which takes the number of blocks to go and is shown to end when that exceeds the
  length of the file. Chunk sizes are at least 1, as the Python loops need. Integers are
  unbounded as in Python, and the widths of the wire are written out where a field is packed.

  \<^bold>\<open>Not modelled.\<close> Sockets, threads, timeouts and clocks (\<open>transport\<close>, \<open>session\<close>, \<open>aio.py\<close>); the
  credential mechanisms, ciphers and certificates, which are parameters; the bulk data plane,
  redirect following and re-opening of handles; the copy engine, HTTP, S3 and the command line;
  log lines, exception texts and display strings. JSON answers to prepare queries are not decoded.
\<close>

end
